(* ===== verification/Prelude.thy ===== *)
theory Prelude
  imports Main "HOL-Library.Word" "HOL-Library.Multiset" "HOL-Library.Signed_Division"
begin

text \<open>
  Shared vocabulary of the development: the machine integers of Go (64-bit \<open>int\<close> as
  \<open>int\<close> with the wrap-around written out, \<open>uint8\<close>, \<open>uint16\<close>, \<open>uint64\<close> as words),
  big-endian encoding, generic lemmas on lists, and the three generic interfaces that
  several components share: machines that keep an invariant, tallies of counters, and
  changes that can be undone.
\<close>

unbundle bit_operations_syntax

section \<open>Machine integers and types\<close>

type_synonym byte = "8 word"
type_synonym u16 = "16 word"
type_synonym u64 = "64 word"
type_synonym bytes = "byte list"

text \<open>A Go \<open>time.Duration\<close> and a Go \<open>time.Time\<close> (nanoseconds since a fixed epoch).\<close>

type_synonym duration = int
type_synonym instant = int

named_theorems wire_simps \<open>encoding and decoding of big-endian integers\<close>
named_theorems frame_simps \<open>fields an operation leaves alone\<close>
named_theorems inv_intros \<open>operations preserve their component's invariant\<close>

text \<open>Two's complement wrap-around of Go's 64-bit \<open>int\<close>.\<close>

definition wrap64 :: "int \<Rightarrow> int" where
  "wrap64 x = (x + 2 ^ 63) mod 2 ^ 64 - 2 ^ 63"

text \<open>The conversion \<open>int(x)\<close> of a \<open>uint64\<close>.\<close>

definition int_of_u64 :: "u64 \<Rightarrow> int" where
  "int_of_u64 w = sint w"

section \<open>Big-endian 16-bit integers (encoding/binary)\<close>

definition be16 :: "byte \<Rightarrow> byte \<Rightarrow> u16" where
  "be16 hi lo = push_bit 8 (ucast hi) OR ucast lo"

definition put16 :: "u16 \<Rightarrow> bytes" where
  "put16 w = [ucast (drop_bit 8 w), ucast w]"

text \<open>\<open>binary.BigEndian.Uint16(msg[i:i+2])\<close>; every caller has checked the bound.\<close>

definition get16 :: "bytes \<Rightarrow> nat \<Rightarrow> u16" where
  "get16 msg i = be16 (msg ! i) (msg ! Suc i)"

text \<open>\<open>binary.BigEndian.PutUint16(msg[i:i+2], w)\<close>.\<close>

definition set16 :: "bytes \<Rightarrow> nat \<Rightarrow> u16 \<Rightarrow> bytes" where
  "set16 msg i w = msg[i := ucast (drop_bit 8 w), Suc i := ucast w]"

section \<open>Generic lemmas\<close>

lemma wrap64_id: "- (2 ^ 63) \<le> x \<Longrightarrow> x < 2 ^ 63 \<Longrightarrow> wrap64 x = x"
  by (simp add: wrap64_def)

lemma wrap64_range: "- (2 ^ 63) \<le> wrap64 x \<and> wrap64 x < 2 ^ 63"
proof -
  have "0 \<le> (x + 2 ^ 63) mod 2 ^ 64" and "(x + 2 ^ 63) mod 2 ^ 64 < (2::int) ^ 64"
    by simp_all
  then show ?thesis by (simp add: wrap64_def)
qed

lemma put16_length [simp]: "length (put16 w) = 2"
  by (simp add: put16_def)

lemma be16_put16 [wire_simps]: "be16 (ucast (drop_bit 8 w)) (ucast w) = w"
proof (rule bit_word_eqI)
  fix n assume "n < LENGTH(16)"
  then show "bit (be16 (ucast (drop_bit 8 w)) (ucast w)) n = bit w n"
    by (auto simp: be16_def bit_simps)
qed

lemma put16_be16 [wire_simps]: "put16 (be16 hi lo) = [hi, lo]"
proof -
  have "ucast (drop_bit 8 (be16 hi lo)) = hi"
    by (rule bit_word_eqI) (auto simp: be16_def bit_simps dest: bit_imp_le_length)
  moreover have "ucast (be16 hi lo) = lo"
    by (rule bit_word_eqI) (auto simp: be16_def bit_simps)
  ultimately show ?thesis by (simp add: put16_def)
qed

lemma unat_byte_less: "unat (w :: byte) < 256"
  using unsigned_less [of w, where 'a = nat] by simp

lemma unat_u16_less: "unat (w :: u16) < 65536"
  using unsigned_less [of w, where 'a = nat] by simp

lemma unat_be16: "unat (be16 hi lo) = unat hi * 256 + unat lo"
proof -
  have "be16 hi lo = push_bit 8 (ucast hi) + (ucast lo :: u16)"
    unfolding be16_def
    by (rule disjunctive_add_eq_or [symmetric])
      (rule bit_word_eqI, auto simp: bit_simps dest: bit_imp_le_length)
  moreover have "unat (ucast w :: u16) = unat w" for w :: byte
    using unat_byte_less [of w] by (simp add: unsigned_ucast_eq take_bit_nat_eq_self)
  ultimately show ?thesis
    using unat_byte_less [of hi] unat_byte_less [of lo]
    by (simp add: push_bit_eq_mult unat_word_ariths)
qed

lemma length_set16 [simp]: "length (set16 msg i w) = length msg"
  by (simp add: set16_def)

lemma get16_set16_same [wire_simps]: "Suc i < length msg \<Longrightarrow> get16 (set16 msg i w) i = w"
  by (simp add: get16_def set16_def be16_put16)

lemma get16_set16_other [wire_simps]:
  "Suc j < i \<or> Suc i < j \<Longrightarrow> get16 (set16 msg i w) j = get16 msg j"
  by (auto simp: get16_def set16_def)

lemma nth_set16_other [wire_simps]: "j < i \<or> Suc i < j \<Longrightarrow> set16 msg i w ! j = msg ! j"
  by (auto simp: set16_def)

section \<open>Interface: a machine that keeps an invariant\<close>

text \<open>
  A component is a state, a step per event and an invariant. A run of any sequence of
  events keeps what every step keeps.
\<close>

locale invariant_machine =
  fixes step :: "'e \<Rightarrow> 's \<Rightarrow> 's"
    and inv :: "'s \<Rightarrow> bool"
  assumes step_inv: "inv s \<Longrightarrow> inv (step e s)"
begin

lemma run_inv: "inv s \<Longrightarrow> inv (fold step es s)"
  by (induction es arbitrary: s) (auto intro: step_inv)

end

section \<open>Interface: a tally of counters\<close>

text \<open>
  A set of 64-bit counters addressed by a key, the key computed from a label. The law is
  that adding under a label changes the counter of its key by exactly the amount and no
  other.
\<close>

locale tally =
  fixes get :: "'m \<Rightarrow> 'k \<Rightarrow> u64"
    and key :: "'l \<Rightarrow> 'k"
    and add :: "u64 \<Rightarrow> 'l \<Rightarrow> 'm \<Rightarrow> 'm"
  assumes get_add: "get (add n l m) j = (if j = key l then get m j + n else get m j)"
begin

text \<open>Counting a list of labels leaves every counter at the number of labels with its key.\<close>

lemma get_fold_incr:
  "get (fold (add 1) ls m) j = get m j + word_of_nat (length (filter (\<lambda>l. key l = j) ls))"
  by (induction ls arbitrary: m) (auto simp: get_add)

lemma add_commute: "get (add n k (add i l m)) j = get (add i l (add n k m)) j"
  by (simp add: get_add ac_simps)

end

end
