(* ===== verification/GoStd.thy ===== *)
theory GoStd
  imports Prelude
begin

text \<open>
  What the program uses of Go's standard library: error values with \<open>errors.Is\<close> and
  \<open>errors.As\<close>, the string helpers, decimal formatting, \<open>net.SplitHostPort\<close>,
  \<open>net.JoinHostPort\<close>, \<open>net.ParseIP\<close>, \<open>strconv.ParseUint\<close>, and the draws of
  \<open>math/rand/v2\<close>. A Go string is a sequence of bytes, so a \<open>char\<close> is a byte.
\<close>

section \<open>Errors\<close>

text \<open>
  The sentinel errors the program compares against. \<open>DeadlineExceeded\<close> and
  \<open>Canceled\<close> are those of package context, \<open>EOF\<close> and \<open>UnexpectedEOF\<close> those of io,
  \<open>ErrPermission\<close> that of os, \<open>EACCES\<close> and \<open>EPERM\<close> those of syscall,
  \<open>ErrClosed\<close> that of net, \<open>ErrServerClosed\<close> that of net/http.
\<close>

datatype sentinel =
    ErrShortMessage | ErrNoQuestion | ErrMalformed | ErrNameTooLong | ErrLabelTooLong
  | ErrDuplicateName | ErrNotFound | ErrLastUpstream | ErrReadOnly | ErrDisabled
  | EOF | UnexpectedEOF | DeadlineExceeded | Canceled | ErrPermission | EACCES | EPERM
  | ErrClosed | ErrServerClosed

text \<open>
  \<open>Errorf fmt args\<close> is an error with no wrapped cause, \<open>Wrapf fmt args e\<close> one whose
  format has a \<open>%w\<close> verb filled with \<open>e\<close>; the rendered text is not modelled, the
  format and the arguments are. \<open>OpError op timeout e\<close> is a \<open>*net.OpError\<close>.
\<close>

datatype goerr =
    Sentinel sentinel
  | Errorf string "string list"
  | Wrapf string "string list" goerr
  | OpError string bool goerr

type_synonym 'a result = "goerr + 'a"

text \<open>The idiom \<open>if err != nil { return err }\<close>.\<close>

fun and_then :: "'a result \<Rightarrow> ('a \<Rightarrow> 'b result) \<Rightarrow> 'b result" where
  "and_then (Inl e) f = Inl e"
| "and_then (Inr x) f = f x"

definition fail_if :: "bool \<Rightarrow> goerr \<Rightarrow> 'a result \<Rightarrow> 'a result" where
  "fail_if b e r = (if b then Inl e else r)"

primrec err_is :: "goerr \<Rightarrow> sentinel \<Rightarrow> bool" where
  "err_is (Sentinel s) t = (s = t)"
| "err_is (Errorf f as) t = False"
| "err_is (Wrapf f as e) t = err_is e t"
| "err_is (OpError op to e) t = err_is e t"

text \<open>
  \<open>errors.As(err, &netErr)\<close> followed by \<open>netErr.Timeout()\<close>: the first error of the
  chain that implements \<open>net.Error\<close> answers. \<open>context.DeadlineExceeded\<close> implements it
  and reports a timeout; so does \<open>*net.OpError\<close>.
\<close>

primrec net_timeout :: "goerr \<Rightarrow> bool option" where
  "net_timeout (Sentinel s) = (if s = DeadlineExceeded then Some True else None)"
| "net_timeout (Errorf f as) = None"
| "net_timeout (Wrapf f as e) = net_timeout e"
| "net_timeout (OpError op to e) = Some to"

text \<open>\<open>errors.As(err, &opErr)\<close>: the operation of the first \<open>*net.OpError\<close> of the chain.\<close>

primrec op_error :: "goerr \<Rightarrow> string option" where
  "op_error (Sentinel s) = None"
| "op_error (Errorf f as) = None"
| "op_error (Wrapf f as e) = op_error e"
| "op_error (OpError op to e) = Some op"

section \<open>Strings\<close>

definition byte_of :: "char \<Rightarrow> byte" where
  "byte_of c = word_of_nat (of_char c)"

definition chr_of :: "byte \<Rightarrow> char" where
  "chr_of b = char_of (unat b)"

text \<open>The UTF-8 encodings of the code points \<open>unicode.IsSpace\<close> accepts.\<close>

definition ws_seqs :: "string list" where
  "ws_seqs = [[CHR 0x20], [CHR 0x09], [CHR 0x0A], [CHR 0x0B], [CHR 0x0C], [CHR 0x0D],
     [CHR 0xC2, CHR 0x85], [CHR 0xC2, CHR 0xA0], [CHR 0xE1, CHR 0x9A, CHR 0x80],
     [CHR 0xE2, CHR 0x80, CHR 0x80], [CHR 0xE2, CHR 0x80, CHR 0x81],
     [CHR 0xE2, CHR 0x80, CHR 0x82], [CHR 0xE2, CHR 0x80, CHR 0x83],
     [CHR 0xE2, CHR 0x80, CHR 0x84], [CHR 0xE2, CHR 0x80, CHR 0x85],
     [CHR 0xE2, CHR 0x80, CHR 0x86], [CHR 0xE2, CHR 0x80, CHR 0x87],
     [CHR 0xE2, CHR 0x80, CHR 0x88], [CHR 0xE2, CHR 0x80, CHR 0x89],
     [CHR 0xE2, CHR 0x80, CHR 0x8A], [CHR 0xE2, CHR 0x80, CHR 0xA8],
     [CHR 0xE2, CHR 0x80, CHR 0xA9], [CHR 0xE2, CHR 0x80, CHR 0xAF],
     [CHR 0xE2, CHR 0x81, CHR 0x9F], [CHR 0xE3, CHR 0x80, CHR 0x80]]"

definition starts_with :: "string \<Rightarrow> string \<Rightarrow> bool" where
  "starts_with w s \<longleftrightarrow> w \<noteq> [] \<and> take (length w) s = w"

function trim_with :: "string list \<Rightarrow> string \<Rightarrow> string" where
  "trim_with ws s =
     (case find (\<lambda>w. starts_with w s) ws of
        None \<Rightarrow> s
      | Some w \<Rightarrow> trim_with ws (drop (length w) s))"
  by pat_completeness auto
termination
proof (relation "measure (length \<circ> snd)")
  fix ws s w assume "find (\<lambda>w. starts_with w s) ws = Some w"
  then have "w \<noteq> []" and "take (length w) s = w"
    by (auto simp: find_Some_iff starts_with_def)
  then show "((ws, drop (length w) s), (ws, s)) \<in> measure (length \<circ> snd)"
    by (cases s) auto
qed simp

declare trim_with.simps [simp del]

text \<open>\<open>strings.TrimSpace\<close>.\<close>

definition TrimSpace :: "string \<Rightarrow> string" where
  "TrimSpace s = rev (trim_with (map rev ws_seqs) (rev (trim_with ws_seqs s)))"

text \<open>
  \<open>strings.ToUpper\<close>, up to the spelling of non-ASCII results: besides the ASCII
  letters, U+0131 maps to \<open>I\<close> and U+017F to \<open>S\<close>; every other non-ASCII code point
  maps to a non-ASCII one, which no name the program compares with contains.
\<close>

definition upc :: "char \<Rightarrow> char" where
  "upc c = (let n = of_char c :: int in if 97 \<le> n \<and> n \<le> 122 then char_of (n - 32) else c)"

fun ToUpper :: "string \<Rightarrow> string" where
  "ToUpper (c # d # s) =
     (if c = CHR 0xC4 \<and> d = CHR 0xB1 then CHR ''I'' # ToUpper s
      else if c = CHR 0xC5 \<and> d = CHR 0xBF then CHR ''S'' # ToUpper s
      else upc c # ToUpper (d # s))"
| "ToUpper [c] = [upc c]"
| "ToUpper [] = []"

text \<open>\<open>strings.HasSuffix\<close> and \<open>strings.TrimSuffix\<close> for a one-byte suffix.\<close>

definition HasSuffix1 :: "string \<Rightarrow> char \<Rightarrow> bool" where
  "HasSuffix1 s c \<longleftrightarrow> s \<noteq> [] \<and> last s = c"

definition TrimSuffix1 :: "string \<Rightarrow> char \<Rightarrow> string" where
  "TrimSuffix1 s c = (if HasSuffix1 s c then butlast s else s)"

text \<open>\<open>strings.Split\<close> at a one-byte separator.\<close>

fun Split :: "char \<Rightarrow> string \<Rightarrow> string list" where
  "Split c [] = [[]]"
| "Split c (x # xs) =
     (if x = c then [] # Split c xs
      else (case Split c xs of [] \<Rightarrow> [[x]] | w # ws \<Rightarrow> (x # w) # ws))"

definition digit :: "nat \<Rightarrow> char" where
  "digit n = char_of (48 + n)"

text \<open>The verb \<open>%d\<close> on a non-negative number.\<close>

fun dec_string :: "nat \<Rightarrow> string" where
  "dec_string n = (if n < 10 then [digit n] else dec_string (n div 10) @ [digit (n mod 10)])"

declare dec_string.simps [simp del]

text \<open>The verb \<open>%03d\<close> on a byte.\<close>

definition dec3 :: "nat \<Rightarrow> string" where
  "dec3 n = [digit (n div 100), digit (n div 10 mod 10), digit (n mod 10)]"

definition is_digit :: "char \<Rightarrow> bool" where
  "is_digit c \<longleftrightarrow> 48 \<le> (of_char c :: int) \<and> (of_char c :: int) \<le> 57"

fun dec_value :: "int \<Rightarrow> string \<Rightarrow> int" where
  "dec_value acc [] = acc"
| "dec_value acc (c # cs) = dec_value (10 * acc + (of_char c - 48)) cs"

text \<open>Whether \<open>strconv.ParseUint(s, 10, 16)\<close> succeeds.\<close>

definition ParseUint16_ok :: "string \<Rightarrow> bool" where
  "ParseUint16_ok s \<longleftrightarrow> s \<noteq> [] \<and> list_all is_digit s \<and> dec_value 0 s < 65536"

section \<open>Host and port (package net)\<close>

definition contains_char :: "char \<Rightarrow> string \<Rightarrow> bool" where
  "contains_char c s \<longleftrightarrow> c \<in> set s"

text \<open>Everything before the last colon, and everything after it.\<close>

definition before_last :: "char \<Rightarrow> string \<Rightarrow> string" where
  "before_last c s = rev (tl (dropWhile (\<lambda>x. x \<noteq> c) (rev s)))"

definition after_last :: "char \<Rightarrow> string \<Rightarrow> string" where
  "after_last c s = rev (takeWhile (\<lambda>x. x \<noteq> c) (rev s))"

text \<open>
  \<open>net.SplitHostPort\<close>; \<open>None\<close> stands for its error, whose text the program never
  looks at. In the bracketed form the first \<open>]\<close> must stand right before the last colon.
\<close>

definition SplitHostPort :: "string \<Rightarrow> (string \<times> string) option" where
  "SplitHostPort s =
     (if \<not> contains_char CHR '':'' s then None
      else let pre = before_last CHR '':'' s; port = after_last CHR '':'' s in
        if hd s = CHR ''['' then
          (let host = takeWhile (\<lambda>x. x \<noteq> CHR '']'') (tl s) in
           if \<not> contains_char CHR '']'' s \<or> pre \<noteq> CHR ''['' # host @ [CHR '']''] then None
           else if contains_char CHR ''['' (tl s) \<or> contains_char CHR '']'' port then None
           else Some (host, port))
        else if contains_char CHR '':'' pre then None
        else if contains_char CHR ''['' s \<or> contains_char CHR '']'' s then None
        else Some (pre, port))"

definition JoinHostPort :: "string \<Rightarrow> string \<Rightarrow> string" where
  "JoinHostPort host port =
     (if contains_char CHR '':'' host then CHR ''['' # host @ CHR '']'' # CHR '':'' # port
      else host @ CHR '':'' # port)"

text \<open>
  Whether \<open>net.ParseIP\<close> accepts an address. An IPv4 address is four decimal fields of
  at most three digits without leading zeros, each at most 255. An IPv6 address is
  eight groups of one to four hexadecimal digits; one \<open>::\<close> stands for at least one
  group of zeros; the last two groups may be written as an IPv4 address; a zone
  (\<open>%...\<close>) is refused.
\<close>

definition is_hex :: "char \<Rightarrow> bool" where
  "is_hex c \<longleftrightarrow> is_digit c \<or> c \<in> set ''abcdefABCDEF''"

definition ipv4_field :: "string \<Rightarrow> bool" where
  "ipv4_field f \<longleftrightarrow> f \<noteq> [] \<and> length f \<le> 3 \<and> list_all is_digit f \<and> dec_value 0 f \<le> 255
     \<and> (hd f = CHR ''0'' \<longrightarrow> length f = 1)"

definition ipv4_ok :: "string \<Rightarrow> bool" where
  "ipv4_ok s \<longleftrightarrow> length (Split CHR ''.'' s) = 4 \<and> list_all ipv4_field (Split CHR ''.'' s)"

definition hex_group :: "string \<Rightarrow> bool" where
  "hex_group g \<longleftrightarrow> g \<noteq> [] \<and> length g \<le> 4 \<and> list_all is_hex g"

text \<open>The number of 16-bit groups a colon-separated run stands for, if it is well formed.\<close>

definition ipv6_run :: "bool \<Rightarrow> string \<Rightarrow> nat option" where
  "ipv6_run v4 s =
     (if s = [] then Some 0
      else let gs = Split CHR '':'' s in
        if list_all hex_group gs then Some (length gs)
        else if v4 \<and> list_all hex_group (butlast gs) \<and> ipv4_ok (last gs) then Some (length gs + 1)
        else None)"

text \<open>The first place where \<open>::\<close> occurs, as the text before and after it.\<close>

fun split_ellipsis :: "string \<Rightarrow> (string \<times> string) option" where
  "split_ellipsis (c # d # s) =
     (if c = CHR '':'' \<and> d = CHR '':'' then Some ([], s)
      else map_option (\<lambda>(a, b). (c # a, b)) (split_ellipsis (d # s)))"
| "split_ellipsis _ = None"

definition ipv6_ok :: "string \<Rightarrow> bool" where
  "ipv6_ok s =
     (case split_ellipsis s of
        None \<Rightarrow> ipv6_run True s = Some 8
      | Some (a, b) \<Rightarrow>
          (case (ipv6_run False a, ipv6_run True b) of
             (Some m, Some n) \<Rightarrow> m + n \<le> 7
           | _ \<Rightarrow> False))"

definition ParseIP_ok :: "string \<Rightarrow> bool" where
  "ParseIP_ok s =
     (case find (\<lambda>c. c \<in> set ''.:%'') s of
        Some c \<Rightarrow> (if c = CHR ''.'' then ipv4_ok s else c = CHR '':'' \<and> ipv6_ok s)
      | None \<Rightarrow> False)"

section \<open>Random draws (math/rand/v2)\<close>

text \<open>
  The draws the runtime hands out, as the list of raw numbers still to come; an
  exhausted list draws zeros. Every finite behaviour of the generator is some list, so a
  theorem for all lists is a theorem for every random choice.
\<close>

type_synonym rng = "nat list"

fun IntN :: "nat \<Rightarrow> rng \<Rightarrow> nat \<times> rng" where
  "IntN n [] = (0, [])"
| "IntN n (r # rs) = (r mod n, rs)"

definition swap_at :: "nat \<Rightarrow> nat \<Rightarrow> 'a list \<Rightarrow> 'a list" where
  "swap_at i j xs = xs[i := xs ! j, j := xs ! i]"

text \<open>\<open>rand.Shuffle\<close>: Fisher-Yates from the last index down to 1.\<close>

fun Shuffle_from :: "nat \<Rightarrow> 'a list \<Rightarrow> rng \<Rightarrow> 'a list \<times> rng" where
  "Shuffle_from 0 xs r = (xs, r)"
| "Shuffle_from (Suc i) xs r =
     (case IntN (Suc (Suc i)) r of (j, r') \<Rightarrow> Shuffle_from i (swap_at (Suc i) j xs) r')"

definition Shuffle :: "'a list \<Rightarrow> rng \<Rightarrow> 'a list \<times> rng" where
  "Shuffle xs r = Shuffle_from (length xs - 1) xs r"

section \<open>Lemmas\<close>

lemma map_Inr_mem: "map f xs = map Inr ys \<Longrightarrow> y \<in> set ys \<Longrightarrow> \<exists>x \<in> set xs. f x = Inr y"
  by (induction xs arbitrary: ys) auto

lemma map_Inr_source: "map f xs = map Inr ys \<Longrightarrow> x \<in> set xs \<Longrightarrow> \<exists>y. f x = Inr y"
  by (induction xs arbitrary: ys) auto

lemma and_then_Inr: "and_then r f = Inr y \<longleftrightarrow> (\<exists>x. r = Inr x \<and> f x = Inr y)"
  by (cases r) auto

lemma fail_if_Inr: "fail_if b e r = Inr y \<longleftrightarrow> \<not> b \<and> r = Inr y"
  by (simp add: fail_if_def)

lemma chr_of_byte_of [simp]: "chr_of (byte_of c) = c"
  by (simp add: chr_of_def byte_of_def unat_of_nat)

lemma byte_of_chr_of [simp]: "byte_of (chr_of b) = b"
  using unat_byte_less [of b] by (simp add: chr_of_def byte_of_def)

lemma IntN_less: "0 < n \<Longrightarrow> fst (IntN n r) < n"
  by (cases r) auto

lemma mset_swap_at: "i < length xs \<Longrightarrow> j < length xs \<Longrightarrow> mset (swap_at i j xs) = mset xs"
  unfolding swap_at_def by (rule mset_swap)

lemma length_swap_at [simp]: "length (swap_at i j xs) = length xs"
  by (simp add: swap_at_def)

lemma mset_Shuffle_from: "i < length xs \<or> xs = [] \<and> i = 0 \<Longrightarrow> mset (fst (Shuffle_from i xs r)) = mset xs"
proof (induction i arbitrary: xs r)
  case (Suc i)
  have "fst (IntN (Suc (Suc i)) r) < Suc (Suc i)" by (rule IntN_less) simp
  with Suc show ?case by (auto simp: split_beta mset_swap_at)
qed simp

lemma mset_Shuffle [simp]: "mset (fst (Shuffle xs r)) = mset xs"
  unfolding Shuffle_def by (rule mset_Shuffle_from) (cases xs, auto)

lemma set_Shuffle [simp]: "set (fst (Shuffle xs r)) = set xs"
  by (metis mset_Shuffle set_mset_mset)

lemma length_Shuffle [simp]: "length (fst (Shuffle xs r)) = length xs"
  by (metis mset_Shuffle size_mset)

lemma Shuffle_Nil [simp]: "Shuffle [] r = ([], r)"
  by (simp add: Shuffle_def)

section \<open>Trimming\<close>

definition graphic :: "char \<Rightarrow> bool" where
  "graphic c \<longleftrightarrow> 33 \<le> (of_char c :: int) \<and> (of_char c :: int) \<le> 126"

lemma ws_seqs_not_graphic:
  "w \<in> set ws_seqs \<Longrightarrow> \<not> graphic (hd w)" "w \<in> set (map rev ws_seqs) \<Longrightarrow> \<not> graphic (hd w)"
  by (auto simp: ws_seqs_def graphic_def)

lemma trim_with_id: "(\<And>w. w \<in> set ws \<Longrightarrow> \<not> starts_with w s) \<Longrightarrow> trim_with ws s = s"
proof -
  assume "\<And>w. w \<in> set ws \<Longrightarrow> \<not> starts_with w s"
  then have "find (\<lambda>w. starts_with w s) ws = None" by (simp add: find_None_iff)
  then show ?thesis by (subst trim_with.simps) simp
qed

lemma starts_with_hd: "starts_with w s \<Longrightarrow> s \<noteq> [] \<and> hd w = hd s"
  by (cases w; cases s) (auto simp: starts_with_def)

lemma trim_with_starts: "w \<in> set ws \<Longrightarrow> \<not> starts_with w (trim_with ws s)"
proof (induction ws s rule: trim_with.induct)
  case (1 ws s)
  show ?case
  proof (cases "find (\<lambda>w. starts_with w s) ws")
    case None
    then have "trim_with ws s = s" by (subst trim_with.simps) simp
    with None "1.prems" show ?thesis by (auto simp: find_None_iff)
  next
    case (Some v)
    then have "trim_with ws s = trim_with ws (drop (length v) s)" by (subst trim_with.simps) simp
    with "1.IH" [OF Some "1.prems"] show ?thesis by simp
  qed
qed

lemma TrimSpace_graphic: "s \<noteq> [] \<Longrightarrow> graphic (hd s) \<Longrightarrow> graphic (last s) \<Longrightarrow> TrimSpace s = s"
proof -
  assume s: "s \<noteq> []" "graphic (hd s)" "graphic (last s)"
  have "trim_with ws_seqs s = s"
    using s(2) starts_with_hd ws_seqs_not_graphic(1) by (metis trim_with_id)
  moreover have "trim_with (map rev ws_seqs) (rev s) = rev s"
    using s(1,3) starts_with_hd ws_seqs_not_graphic(2) by (metis trim_with_id hd_rev)
  ultimately show ?thesis by (simp add: TrimSpace_def)
qed

definition trimmed :: "string \<Rightarrow> bool" where
  "trimmed s \<longleftrightarrow> (\<forall>w \<in> set ws_seqs. \<not> starts_with w s) \<and> (\<forall>w \<in> set (map rev ws_seqs). \<not> starts_with w (rev s))"

lemma TrimSpace_trimmed: "trimmed s \<Longrightarrow> TrimSpace s = s"
  using trim_with_id [of ws_seqs s] trim_with_id [of "map rev ws_seqs" "rev s"]
  unfolding TrimSpace_def trimmed_def by force

lemma trim_with_drop: "\<exists>k. trim_with ws s = drop k s"
proof (induction ws s rule: trim_with.induct)
  case (1 ws s)
  show ?case
  proof (cases "find (\<lambda>w. starts_with w s) ws")
    case None
    then have "trim_with ws s = drop 0 s" by (subst trim_with.simps) simp
    then show ?thesis by blast
  next
    case (Some v)
    then have "trim_with ws s = trim_with ws (drop (length v) s)" by (subst trim_with.simps) simp
    with "1.IH" [OF Some] show ?thesis by auto
  qed
qed

lemma starts_with_take: "starts_with w (take k s) \<Longrightarrow> starts_with w s"
  by (auto simp: starts_with_def min_def split: if_splits)

lemma trimmed_TrimSpace [simp]: "trimmed (TrimSpace s)"
proof -
  let ?t = "trim_with ws_seqs s"
  obtain k where k: "trim_with (map rev ws_seqs) (rev ?t) = drop k (rev ?t)"
    using trim_with_drop by blast
  have "TrimSpace s = take (length ?t - k) ?t" by (simp add: TrimSpace_def k rev_drop)
  then have "\<not> starts_with w (TrimSpace s)" if "w \<in> set ws_seqs" for w
    using trim_with_starts [OF that] starts_with_take by metis
  moreover have "rev (TrimSpace s) = trim_with (map rev ws_seqs) (rev ?t)" by (simp add: TrimSpace_def)
  ultimately show ?thesis unfolding trimmed_def by (metis trim_with_starts)
qed

lemma ws_seqs_no_colon: "w \<in> set ws_seqs \<Longrightarrow> CHR '':'' \<notin> set w"
  by (auto simp: ws_seqs_def)

lemma trimmed_with_port:
  assumes "trimmed h" "h \<noteq> []" "graphic (last (CHR '':'' # p))"
  shows "trimmed (h @ CHR '':'' # p)"
proof -
  have "\<not> starts_with w (h @ CHR '':'' # p)" if w: "w \<in> set ws_seqs" for w
  proof
    assume st: "starts_with w (h @ CHR '':'' # p)"
    then have "take (length w) (h @ CHR '':'' # p) = w" by (simp add: starts_with_def)
    then have "w ! length h = CHR '':''" if "length h < length w"
      using that by (metis nth_append_length nth_take)
    then have "length w \<le> length h" using ws_seqs_no_colon [OF w] by (metis not_le nth_mem)
    then have "starts_with w h" using st by (simp add: starts_with_def)
    with assms(1) w show False by (simp add: trimmed_def)
  qed
  moreover have "\<not> starts_with w (rev (h @ CHR '':'' # p))" if "w \<in> set (map rev ws_seqs)" for w
    using starts_with_hd [of w "rev (h @ CHR '':'' # p)"] ws_seqs_not_graphic(2) [OF that] assms(3)
    by (auto simp: hd_rev simp del: rev_append)
  ultimately show ?thesis by (simp add: trimmed_def)
qed

lemma trimmed_graphic: "s \<noteq> [] \<Longrightarrow> graphic (hd s) \<Longrightarrow> graphic (last s) \<Longrightarrow> trimmed s"
  unfolding trimmed_def
  by (metis starts_with_hd ws_seqs_not_graphic hd_rev)

section \<open>Hosts and ports\<close>

lemma last_colon:
  assumes "CHR '':'' \<notin> set p"
  shows "before_last CHR '':'' (h @ CHR '':'' # p) = h" "after_last CHR '':'' (h @ CHR '':'' # p) = p"
  using assms by (auto simp: before_last_def after_last_def dropWhile_append takeWhile_append)

lemma split_at_last_colon:
  "CHR '':'' \<in> set s \<Longrightarrow>
     s = before_last CHR '':'' s @ CHR '':'' # after_last CHR '':'' s \<and> CHR '':'' \<notin> set (after_last CHR '':'' s)"
proof -
  assume "CHR '':'' \<in> set s"
  then obtain h p where "s = h @ CHR '':'' # p" "CHR '':'' \<notin> set p" by (meson split_list_last)
  then show ?thesis by (simp add: last_colon)
qed

definition bracketless :: "string \<Rightarrow> bool" where
  "bracketless s \<longleftrightarrow> CHR ''['' \<notin> set s \<and> CHR '']'' \<notin> set s"

lemma SplitHostPort_plain:
  assumes "CHR '':'' \<notin> set h" "bracketless h" "bracketless p" "CHR '':'' \<notin> set p"
  shows "SplitHostPort (h @ CHR '':'' # p) = Some (h, p)"
  using assms
  by (cases h) (auto simp: SplitHostPort_def contains_char_def last_colon [OF assms(4)] last_colon [OF assms(4), of "[]", simplified]
      bracketless_def Let_def last_colon [OF assms(4), of "_ # _", simplified])

lemma SplitHostPort_bracket:
  assumes "bracketless h" "bracketless p" "CHR '':'' \<notin> set p"
  shows "SplitHostPort (CHR ''['' # h @ CHR '']'' # CHR '':'' # p) = Some (h, p)"
proof -
  have "takeWhile (\<lambda>x. x \<noteq> CHR '']'') (h @ CHR '']'' # CHR '':'' # p) = h"
    using assms(1) by (auto simp: bracketless_def takeWhile_append)
  then show ?thesis
    using assms last_colon [OF assms(3), of "CHR ''['' # h @ [CHR '']'']"]
    by (auto simp: SplitHostPort_def contains_char_def bracketless_def Let_def)
qed

lemma SplitHostPort_SomeE:
  assumes "SplitHostPort s = Some (h, p)"
  obtains (plain) "s = h @ CHR '':'' # p" "CHR '':'' \<notin> set h" "bracketless h" "bracketless p" "CHR '':'' \<notin> set p"
  | (bracket) "s = CHR ''['' # h @ CHR '']'' # CHR '':'' # p" "bracketless h" "bracketless p" "CHR '':'' \<notin> set p"
proof -
  from assms have c: "CHR '':'' \<in> set s" by (auto simp: SplitHostPort_def contains_char_def split: if_splits)
  note sp = split_at_last_colon [OF c]
  let ?pre = "before_last CHR '':'' s" and ?port = "after_last CHR '':'' s"
  show thesis
  proof (cases "hd s = CHR ''[''")
    case True
    with assms c have pre: "?pre = CHR ''['' # h @ [CHR '']'']" "?port = p" "CHR ''['' \<notin> set (tl s)"
      "CHR '']'' \<notin> set p" "h = takeWhile (\<lambda>x. x \<noteq> CHR '']'') (tl s)"
      by (auto simp: SplitHostPort_def contains_char_def Let_def split: if_splits)
    then have s: "s = CHR ''['' # h @ CHR '']'' # CHR '':'' # p" using sp by simp
    moreover have "CHR '']'' \<notin> set h" using pre(5) by (metis set_takeWhileD)
    moreover have "tl s = h @ CHR '']'' # CHR '':'' # p" by (subst s) simp
    then have "CHR ''['' \<notin> set h" "CHR ''['' \<notin> set p" using pre(3) by simp_all
    ultimately show thesis using pre(2,4) sp by (intro bracket) (auto simp: bracketless_def)
  next
    case False
    with assms c have "?pre = h" "?port = p" "CHR '':'' \<notin> set ?pre" "bracketless s"
      by (auto simp: SplitHostPort_def contains_char_def Let_def bracketless_def split: if_splits)
    with sp show thesis by (intro plain) (auto simp: bracketless_def)
  qed
qed

end
