(* ===== verification/Dnsmsg.thy ===== *)
theory Dnsmsg
  imports GoStd
begin

text \<open>
  Package \<open>internal/dnsmsg\<close>: response codes and record types, the message header, the
  question, building a query, and synthesising an error response. A message is a list of
  bytes; \<open>nil\<close> is \<open>None\<close>; every slice expression stands behind the length check the
  code makes before it.
\<close>

section \<open>Response codes and record types\<close>

definition HeaderLen :: nat where "HeaderLen = 12"
definition MaxMessageSize :: nat where "MaxMessageSize = 65535"

type_synonym rcode = byte

definition RCodeNoError :: rcode where "RCodeNoError = 0"
definition RCodeFormErr :: rcode where "RCodeFormErr = 1"
definition RCodeServFail :: rcode where "RCodeServFail = 2"
definition RCodeNXDomain :: rcode where "RCodeNXDomain = 3"
definition RCodeNotImp :: rcode where "RCodeNotImp = 4"
definition RCodeRefused :: rcode where "RCodeRefused = 5"

definition rcodeNames :: "(rcode \<times> string) list" where
  "rcodeNames = [(0, ''NOERROR''), (1, ''FORMERR''), (2, ''SERVFAIL''), (3, ''NXDOMAIN''),
     (4, ''NOTIMP''), (5, ''REFUSED''), (6, ''YXDOMAIN''), (7, ''YXRRSET''), (8, ''NXRRSET''),
     (9, ''NOTAUTH''), (10, ''NOTZONE'')]"

definition RCode_String :: "rcode \<Rightarrow> string" where
  "RCode_String r =
     (case map_of rcodeNames r of Some n \<Rightarrow> n | None \<Rightarrow> ''RCODE'' @ dec_string (unat r))"

text \<open>
  Go visits a map in an unspecified order, so the loops over \<open>rcodeNames\<close> and
  \<open>typeNames\<close> take the visiting order as an argument.
\<close>

definition ParseRCode_over :: "(rcode \<times> string) list \<Rightarrow> string \<Rightarrow> rcode result" where
  "ParseRCode_over tbl s =
     (let want = ToUpper (TrimSpace s) in
      case find (\<lambda>(code, name). name = want) tbl of
        Some (code, _) \<Rightarrow> Inr code
      | None \<Rightarrow> Inl (Errorf ''unknown rcode %q'' [s]))"

definition ParseRCode :: "string \<Rightarrow> rcode result" where
  "ParseRCode s = ParseRCode_over rcodeNames s"

definition typeNames :: "(string \<times> u16) list" where
  "typeNames = [(''A'', 1), (''NS'', 2), (''CNAME'', 5), (''SOA'', 6), (''PTR'', 12), (''MX'', 15),
     (''TXT'', 16), (''AAAA'', 28), (''SRV'', 33), (''ANY'', 255)]"

definition ParseType :: "string \<Rightarrow> u16 result" where
  "ParseType s =
     (case map_of typeNames (ToUpper (TrimSpace s)) of
        Some t \<Rightarrow> Inr t
      | None \<Rightarrow> Inl (Errorf ''unknown record type %q'' [s]))"

definition TypeString_over :: "(string \<times> u16) list \<Rightarrow> u16 \<Rightarrow> string" where
  "TypeString_over tbl t =
     (case find (\<lambda>(name, v). v = t) tbl of
        Some (name, _) \<Rightarrow> name
      | None \<Rightarrow> ''TYPE'' @ dec_string (unat t))"

definition TypeString :: "u16 \<Rightarrow> string" where
  "TypeString t = TypeString_over typeNames t"

section \<open>Header and question\<close>

record header =
  h_ID :: u16
  h_QR :: bool
  h_Opcode :: byte
  h_AA :: bool
  h_TC :: bool
  h_RD :: bool
  h_RA :: bool
  h_RCode :: rcode
  h_QDCount :: u16
  h_ANCount :: u16
  h_NSCount :: u16
  h_ARCount :: u16

definition ParseHeader :: "bytes \<Rightarrow> header result" where
  "ParseHeader msg =
     (if length msg < HeaderLen then Inl (Sentinel ErrShortMessage)
      else let flags = get16 msg 2 in
        Inr \<lparr>h_ID = get16 msg 0,
             h_QR = (flags AND 0x8000 \<noteq> 0),
             h_Opcode = ucast (drop_bit 11 flags) AND 0x0f,
             h_AA = (flags AND 0x0400 \<noteq> 0),
             h_TC = (flags AND 0x0200 \<noteq> 0),
             h_RD = (flags AND 0x0100 \<noteq> 0),
             h_RA = (flags AND 0x0080 \<noteq> 0),
             h_RCode = ucast (flags AND 0x000f),
             h_QDCount = get16 msg 4,
             h_ANCount = get16 msg 6,
             h_NSCount = get16 msg 8,
             h_ARCount = get16 msg 10\<rparr>)"

definition ID :: "bytes \<Rightarrow> u16" where
  "ID msg = (if length msg < 2 then 0 else get16 msg 0)"

record question =
  q_Name :: string
  q_Type :: u16
  q_Class :: u16

definition Question_String :: "question \<Rightarrow> string" where
  "Question_String q = q_Name q @ '' '' @ TypeString (q_Type q)"

text \<open>\<open>writeEscaped\<close>: what one byte of a label contributes to the presentation form.\<close>

definition escape_byte :: "byte \<Rightarrow> string" where
  "escape_byte c =
     (if c = byte_of CHR ''.'' \<or> c = 0x5C then [CHR 0x5C, chr_of c]
      else if c < byte_of CHR ''!'' \<or> byte_of CHR ''~'' < c then CHR 0x5C # dec3 (unat c)
      else [chr_of c])"

definition writeEscaped :: "bytes \<Rightarrow> string" where
  "writeEscaped label = concat (map escape_byte label)"

function parseName_loop :: "bytes \<Rightarrow> nat \<Rightarrow> string \<Rightarrow> nat \<Rightarrow> (string \<times> nat) result" where
  "parseName_loop msg off sb tot =
     (if length msg \<le> off then Inl (Sentinel ErrMalformed)
      else let l = unat (msg ! off) in
        if l = 0 then Inr (if sb = [] then ''.'' else sb, off + 1)
        else if msg ! off AND 0xc0 \<noteq> 0 then Inl (Sentinel ErrMalformed)
        else if length msg < off + 1 + l then Inl (Sentinel ErrMalformed)
        else if 255 < tot + (l + 1) then Inl (Sentinel ErrNameTooLong)
        else parseName_loop msg (off + 1 + l)
               (sb @ writeEscaped (take l (drop (off + 1) msg)) @ ''.'') (tot + (l + 1)))"
  by pat_completeness auto
termination
  by (relation "measure (\<lambda>(msg, off, sb, tot). length msg - off)") auto

declare parseName_loop.simps [simp del]

definition parseName :: "bytes \<Rightarrow> nat \<Rightarrow> (string \<times> nat) result" where
  "parseName msg off = parseName_loop msg off [] 0"

definition ParseQuestion :: "bytes \<Rightarrow> question result" where
  "ParseQuestion msg =
     (case ParseHeader msg of
        Inl e \<Rightarrow> Inl e
      | Inr hdr \<Rightarrow>
          if h_QDCount hdr = 0 then Inl (Sentinel ErrNoQuestion)
          else (case parseName msg HeaderLen of
             Inl e \<Rightarrow> Inl e
           | Inr (name, off) \<Rightarrow>
               if length msg < off + 4 then Inl (Sentinel ErrMalformed)
               else Inr \<lparr>q_Name = name, q_Type = get16 msg off, q_Class = get16 msg (off + 2)\<rparr>))"

section \<open>Building messages\<close>

text \<open>The loop over the labels of \<open>packName\<close>, with the bytes appended so far.\<close>

fun packLabels :: "string \<Rightarrow> string list \<Rightarrow> bytes \<Rightarrow> bytes result" where
  "packLabels name [] out = Inr out"
| "packLabels name (label # labels) out =
     (if label = [] then Inl (Errorf ''dnsmsg: empty label in %q'' [name])
      else if 63 < length label then Inl (Sentinel ErrLabelTooLong)
      else packLabels name labels (out @ word_of_nat (length label) # map byte_of label))"

definition packName :: "string \<Rightarrow> bytes result" where
  "packName name =
     (if name = [] \<or> name = ''.'' then Inr [0]
      else let name' = TrimSuffix1 name CHR ''.'' in
        case packLabels name' (Split CHR ''.'' name') [] of
          Inl e \<Rightarrow> Inl e
        | Inr out \<Rightarrow>
            if 255 < length (out @ [0]) then Inl (Sentinel ErrNameTooLong) else Inr (out @ [0]))"

definition BuildQuery :: "u16 \<Rightarrow> string \<Rightarrow> u16 \<Rightarrow> bytes result" where
  "BuildQuery qid name qtype =
     (case packName name of
        Inl e \<Rightarrow> Inl e
      | Inr qname \<Rightarrow>
          let msg = replicate HeaderLen 0;
              msg = set16 msg 0 qid;
              msg = set16 msg 2 0x0100;
              msg = set16 msg 4 1
          in Inr (msg @ qname @ put16 qtype @ put16 1))"

definition ErrorResponse :: "bytes \<Rightarrow> rcode \<Rightarrow> bytes option" where
  "ErrorResponse req rc =
     (case ParseHeader req of
        Inl e \<Rightarrow> None
      | Inr hdr \<Rightarrow>
          if h_QR hdr then None
          else case (if h_QDCount hdr = 0 then Some HeaderLen
                     else case parseName req HeaderLen of
                            Inl e \<Rightarrow> None
                          | Inr (_, off) \<Rightarrow> if length req < off + 4 then None else Some (off + 4)) of
            None \<Rightarrow> None
          | Some fin \<Rightarrow>
              let resp = take fin req;
                  flags = 0x8000 OR 0x0080 OR ucast (rc AND 0x0f);
                  flags = flags OR push_bit 11 (ucast (h_Opcode hdr AND 0x0f));
                  flags = (if h_RD hdr then flags OR 0x0100 else flags);
                  resp = set16 resp 2 flags;
                  resp = set16 resp 4 (if h_QDCount hdr = 0 then 0 else 1);
                  resp = set16 resp 6 0;
                  resp = set16 resp 8 0;
                  resp = set16 resp 10 0
              in Some resp)"

definition ValidateResponse :: "bytes \<Rightarrow> u16 \<Rightarrow> goerr option" where
  "ValidateResponse resp wantID =
     (case ParseHeader resp of
        Inl e \<Rightarrow> Some e
      | Inr hdr \<Rightarrow>
          if h_ID hdr \<noteq> wantID then
            Some (Errorf ''dnsmsg: response id %d does not match query id %d''
                    [dec_string (unat (h_ID hdr)), dec_string (unat wantID)])
          else if \<not> h_QR hdr then Some (Errorf ''dnsmsg: response has query bit clear'' [])
          else None)"

section \<open>Names: bounds and locality\<close>

lemma parseName_loop_InrE:
  assumes "parseName_loop msg off sb tot = Inr (n, off')"
  obtains (root) "off < length msg" "msg ! off = 0" "off' = off + 1" "n = (if sb = [] then ''.'' else sb)"
  | (label) l where "off < length msg" "l = unat (msg ! off)" "l \<noteq> 0" "msg ! off AND 0xc0 = 0"
      "off + 1 + l \<le> length msg" "tot + (l + 1) \<le> 255"
      "parseName_loop msg (off + 1 + l) (sb @ writeEscaped (take l (drop (off + 1) msg)) @ ''.'')
         (tot + (l + 1)) = Inr (n, off')"
  using assms
  by (subst (asm) parseName_loop.simps) (auto simp: Let_def unat_eq_0 not_le not_less split: if_splits)

lemma parseName_loop_root:
  "off < length msg \<Longrightarrow> msg ! off = 0 \<Longrightarrow>
     parseName_loop msg off sb tot = Inr (if sb = [] then ''.'' else sb, off + 1)"
  by (subst parseName_loop.simps) simp

lemma parseName_loop_label:
  assumes "off < length msg" "l = unat (msg ! off)" "l \<noteq> 0" "msg ! off AND 0xc0 = 0"
    "off + 1 + l \<le> length msg" "tot + (l + 1) \<le> 255"
  shows "parseName_loop msg off sb tot =
    parseName_loop msg (off + 1 + l) (sb @ writeEscaped (take l (drop (off + 1) msg)) @ ''.'') (tot + (l + 1))"
  using assms by (subst parseName_loop.simps) (simp add: Let_def)

lemma parseName_loop_bounds:
  "parseName_loop msg off sb tot = Inr (n, off') \<Longrightarrow>
     off < off' \<and> off' \<le> length msg \<and> (tot \<le> 255 \<longrightarrow> off' + tot \<le> off + 256)"
proof (induction msg off sb tot rule: parseName_loop.induct)
  case (1 msg off sb tot)
  from "1.prems" show ?case
  proof (cases rule: parseName_loop_InrE)
    case root
    then show ?thesis by simp
  next
    case (label l)
    then have "off + 1 + l < off' \<and> off' \<le> length msg \<and>
        (tot + (l + 1) \<le> 255 \<longrightarrow> off' + (tot + (l + 1)) \<le> off + 1 + l + 256)"
      by (intro "1.IH" [OF _ label(2)]) auto
    with label show ?thesis by auto
  qed
qed

lemma parseName_bounds:
  "parseName msg off = Inr (n, off') \<Longrightarrow> off < off' \<and> off' \<le> length msg \<and> off' \<le> off + 256"
  unfolding parseName_def by (drule parseName_loop_bounds) simp

text \<open>The result depends on the bytes of the name only.\<close>

lemma take_drop_cong:
  assumes "off + l \<le> length msg" "off + l \<le> length msg'"
    and "\<And>i. off \<le> i \<Longrightarrow> i < off + l \<Longrightarrow> msg' ! i = msg ! i"
  shows "take l (drop off msg') = take l (drop off msg)"
  using assms by (intro nth_equalityI) auto

lemma parseName_loop_local:
  "parseName_loop msg off sb tot = Inr (n, off') \<Longrightarrow> off' \<le> length msg' \<Longrightarrow>
     (\<And>i. off \<le> i \<Longrightarrow> i < off' \<Longrightarrow> msg' ! i = msg ! i) \<Longrightarrow>
     parseName_loop msg' off sb tot = Inr (n, off')"
proof (induction msg off sb tot rule: parseName_loop.induct)
  case (1 msg off sb tot)
  from parseName_loop_bounds [OF "1.prems"(1)] have "off < off'" by simp
  then have same: "msg' ! off = msg ! off" and off: "off < length msg'"
    using "1.prems"(2,3) by simp_all
  from "1.prems"(1) show ?case
  proof (cases rule: parseName_loop_InrE)
    case root
    with same off show ?thesis by (simp add: parseName_loop_root)
  next
    case (label l)
    from parseName_loop_bounds [OF label(7)] have le: "off + 1 + l < off'" by simp
    have "parseName_loop msg' (off + 1 + l)
        (sb @ writeEscaped (take l (drop (off + 1) msg)) @ ''.'') (tot + (l + 1)) = Inr (n, off')"
      using label "1.prems"(2,3) by (intro "1.IH" [OF _ label(2)]) auto
    moreover have "take l (drop (off + 1) msg') = take l (drop (off + 1) msg)"
      using le label(5) "1.prems"(2,3) by (intro take_drop_cong) auto
    ultimately show ?thesis
      using label le off same "1.prems"(2) parseName_loop_label [of off msg' l tot sb] by simp
  qed
qed

lemma parseName_local:
  "parseName msg off = Inr (n, off') \<Longrightarrow> off' \<le> length msg' \<Longrightarrow>
     (\<And>i. off \<le> i \<Longrightarrow> i < off' \<Longrightarrow> msg' ! i = msg ! i) \<Longrightarrow> parseName msg' off = Inr (n, off')"
  unfolding parseName_def by (rule parseName_loop_local)

section \<open>The flag word\<close>

lemma u16_and_exp [wire_simps]:
  "(w :: u16) AND 0x8000 \<noteq> 0 \<longleftrightarrow> bit w 15" "(w :: u16) AND 0x0400 \<noteq> 0 \<longleftrightarrow> bit w 10"
  "(w :: u16) AND 0x0200 \<noteq> 0 \<longleftrightarrow> bit w 9" "(w :: u16) AND 0x0100 \<noteq> 0 \<longleftrightarrow> bit w 8"
  "(w :: u16) AND 0x0080 \<noteq> 0 \<longleftrightarrow> bit w 7"
  using and_exp_eq_0_iff_not_bit [of w 15] and_exp_eq_0_iff_not_bit [of w 10]
    and_exp_eq_0_iff_not_bit [of w 9] and_exp_eq_0_iff_not_bit [of w 8]
    and_exp_eq_0_iff_not_bit [of w 7] by simp_all

text \<open>The flags of a synthesised response, as \<open>ErrorResponse\<close> computes them.\<close>

definition reply_flags :: "byte \<Rightarrow> bool \<Rightarrow> rcode \<Rightarrow> u16" where
  "reply_flags opcode rd rc =
     (let flags = 0x8000 OR 0x0080 OR ucast (rc AND 0x0f);
          flags = flags OR push_bit 11 (ucast (opcode AND 0x0f))
      in if rd then flags OR 0x0100 else flags)"

lemma bit_numeral_u16:
  "bit (0x8000 :: u16) n \<longleftrightarrow> n = 15" "bit (0x0080 :: u16) n \<longleftrightarrow> n = 7"
  "bit (0x0100 :: u16) n \<longleftrightarrow> n = 8" "bit (0x0f :: byte) n \<longleftrightarrow> n < 4" "bit (0x0f :: u16) n \<longleftrightarrow> n < 4"
proof -
  have "(0x8000 :: u16) = 2 ^ 15" "(0x0080 :: u16) = 2 ^ 7" "(0x0100 :: u16) = 2 ^ 8"
    "(0x0f :: byte) = mask 4" "(0x0f :: u16) = mask 4"
    by (simp_all add: mask_eq_exp_minus_1)
  then show "bit (0x8000 :: u16) n \<longleftrightarrow> n = 15" "bit (0x0080 :: u16) n \<longleftrightarrow> n = 7"
    "bit (0x0100 :: u16) n \<longleftrightarrow> n = 8" "bit (0x0f :: byte) n \<longleftrightarrow> n < 4" "bit (0x0f :: u16) n \<longleftrightarrow> n < 4"
    by (auto simp only: bit_exp_iff bit_mask_iff) simp_all
qed

lemma bit_reply_flags:
  "bit (reply_flags op rd rc) n \<longleftrightarrow> n = 15 \<or> n = 7 \<or> (n < 4 \<and> bit rc n) \<or>
     (11 \<le> n \<and> n < 15 \<and> bit op (n - 11)) \<or> (rd \<and> n = 8)"
proof -
  have "bit (reply_flags op rd rc) n \<longleftrightarrow>
      n = 15 \<or> n = 7 \<or> (n < LENGTH(16) \<and> bit rc n \<and> n < 4) \<or>
      (11 \<le> n \<and> n < LENGTH(16) \<and> n - 11 < LENGTH(16) \<and> bit op (n - 11) \<and> n - 11 < 4) \<or> (rd \<and> n = 8)"
    by (cases rd) (simp_all only: reply_flags_def Let_def if_True if_False bit_or_iff bit_and_iff
        bit_push_bit_iff bit_unsigned_iff bit_numeral_u16 possible_bit_word, blast+)
  then show ?thesis by auto
qed

lemma reply_flags_fields:
  "bit (reply_flags op rd rc) 15" "\<not> bit (reply_flags op rd rc) 10" "\<not> bit (reply_flags op rd rc) 9"
  "bit (reply_flags op rd rc) 8 \<longleftrightarrow> rd" "bit (reply_flags op rd rc) 7"
  "ucast (drop_bit 11 (reply_flags op rd rc)) AND (0x0f :: byte) = op AND 0x0f"
  "(ucast (reply_flags op rd rc AND 0x000f) :: byte) = rc AND 0x0f"
proof -
  show "ucast (drop_bit 11 (reply_flags op rd rc)) AND (0x0f :: byte) = op AND 0x0f"
    by (rule bit_word_eqI) (auto simp only: bit_and_iff bit_numeral_u16 bit_unsigned_iff bit_drop_bit_eq
        o_def bit_reply_flags, auto)
  show "(ucast (reply_flags op rd rc AND 0x000f) :: byte) = rc AND 0x0f"
    by (rule bit_word_eqI) (auto simp only: bit_and_iff bit_numeral_u16 bit_unsigned_iff bit_reply_flags, auto)
qed (simp_all only: bit_reply_flags, auto)

section \<open>Error responses\<close>

text \<open>The header rewrite of \<open>ErrorResponse\<close> on a message of at least twelve bytes.\<close>

definition rewrite_header :: "bytes \<Rightarrow> u16 \<Rightarrow> u16 \<Rightarrow> bytes" where
  "rewrite_header msg flags qd = set16 (set16 (set16 (set16 (set16 msg 2 flags) 4 qd) 6 0) 8 0) 10 0"

lemma length_rewrite_header [simp]: "length (rewrite_header msg f q) = length msg"
  by (simp add: rewrite_header_def)

lemma nth_rewrite_header: "i < 2 \<or> 12 \<le> i \<Longrightarrow> rewrite_header msg f q ! i = msg ! i"
  by (auto simp: rewrite_header_def wire_simps)

lemma get16_rewrite_header:
  assumes "12 \<le> length msg"
  shows "get16 (rewrite_header msg f q) 0 = get16 msg 0" "get16 (rewrite_header msg f q) 2 = f"
    "get16 (rewrite_header msg f q) 4 = q" "get16 (rewrite_header msg f q) 6 = 0"
    "get16 (rewrite_header msg f q) 8 = 0" "get16 (rewrite_header msg f q) 10 = 0"
  using assms by (simp_all add: rewrite_header_def wire_simps)

lemma get16_take: "Suc i < k \<Longrightarrow> get16 (take k msg) i = get16 msg i"
  by (simp add: get16_def)

lemma get16_rewrite_header_high: "12 \<le> i \<Longrightarrow> get16 (rewrite_header msg f q) i = get16 msg i"
  by (simp add: get16_def nth_rewrite_header)

text \<open>How much of the request a reply echoes: the header and the first question.\<close>

definition echo_end :: "bytes \<Rightarrow> header \<Rightarrow> nat option" where
  "echo_end req hdr =
     (if h_QDCount hdr = 0 then Some HeaderLen
      else case parseName req HeaderLen of
             Inl e \<Rightarrow> None
           | Inr (_, off) \<Rightarrow> if length req < off + 4 then None else Some (off + 4))"

lemma ErrorResponse_eq:
  "ErrorResponse req rc =
     (case ParseHeader req of
        Inl e \<Rightarrow> None
      | Inr hdr \<Rightarrow>
          if h_QR hdr then None
          else map_option (\<lambda>fin. rewrite_header (take fin req)
                 (reply_flags (h_Opcode hdr) (h_RD hdr) rc) (if h_QDCount hdr = 0 then 0 else 1))
               (echo_end req hdr))"
  by (auto simp: ErrorResponse_def echo_end_def rewrite_header_def reply_flags_def Let_def
      split: sum.splits option.splits)

lemma ParseHeader_Inr_length: "ParseHeader msg = Inr hdr \<Longrightarrow> 12 \<le> length msg"
  by (auto simp: ParseHeader_def HeaderLen_def split: if_splits)

lemma ParseHeader_QDCount: "ParseHeader msg = Inr hdr \<Longrightarrow> h_QDCount hdr = get16 msg 4"
  by (auto simp: ParseHeader_def Let_def split: if_splits)

lemma echo_end_bounds:
  assumes "ParseHeader req = Inr hdr" "echo_end req hdr = Some fin"
  shows "12 \<le> fin \<and> fin \<le> length req"
  using assms ParseHeader_Inr_length [OF assms(1)]
  by (auto simp: echo_end_def HeaderLen_def split: if_splits sum.splits dest!: parseName_bounds)

lemma ParseHeader_rewrite:
  assumes "12 \<le> fin" "fin \<le> length req" "ParseHeader req = Inr hdr"
  shows "ParseHeader (rewrite_header (take fin req) (reply_flags (h_Opcode hdr) rd rc) qd) =
    Inr \<lparr>h_ID = h_ID hdr, h_QR = True, h_Opcode = h_Opcode hdr, h_AA = False, h_TC = False,
         h_RD = rd, h_RA = True, h_RCode = rc AND 0x0f, h_QDCount = qd, h_ANCount = 0,
         h_NSCount = 0, h_ARCount = 0\<rparr>"
proof -
  have op: "h_Opcode hdr AND 0x0f = h_Opcode hdr" and "h_ID hdr = get16 req 0"
    using assms(3) by (auto simp: ParseHeader_def Let_def ac_simps split: if_splits)
  with assms show ?thesis
    by (simp add: ParseHeader_def HeaderLen_def get16_rewrite_header u16_and_exp reply_flags_fields
        get16_take)
qed

lemma ParseQuestion_rewrite:
  assumes hdr: "ParseHeader req = Inr hdr" and qd: "h_QDCount hdr \<noteq> 0"
    and e: "echo_end req hdr = Some fin"
  shows "ParseQuestion (rewrite_header (take fin req) (reply_flags (h_Opcode hdr) rd rc) 1) =
    ParseQuestion req"
proof -
  let ?resp = "rewrite_header (take fin req) (reply_flags (h_Opcode hdr) rd rc) 1"
  from e qd obtain n off where name: "parseName req HeaderLen = Inr (n, off)"
    and off: "fin = off + 4" "off + 4 \<le> length req"
    by (auto simp: echo_end_def split: sum.splits if_splits)
  from parseName_bounds [OF name] have lo: "12 < off" by (simp add: HeaderLen_def)
  have "parseName ?resp HeaderLen = Inr (n, off)"
    using name off by (rule_tac parseName_local) (auto simp: HeaderLen_def nth_rewrite_header)
  with name off lo hdr qd ParseHeader_rewrite [of fin req hdr rd rc 1]
  show ?thesis by (simp add: ParseQuestion_def get16_rewrite_header_high get16_take)
qed

section \<open>Packing a name and parsing it back\<close>

definition plain_char :: "char \<Rightarrow> bool" where
  "plain_char c \<longleftrightarrow> 33 \<le> (of_char c :: nat) \<and> (of_char c :: nat) \<le> 126 \<and> c \<noteq> CHR 0x5C"

lemma of_char_less_256: "(of_char c :: nat) < 256"
  using mod_less_divisor [of 256 "of_char c :: nat"] by simp

lemma unat_byte_of: "unat (byte_of c) = of_char c"
  using of_char_less_256 [of c] by (simp add: byte_of_def unat_of_nat)

lemma byte_of_eq_iff: "byte_of c = byte_of d \<longleftrightarrow> c = d"
  by (metis chr_of_byte_of)

lemma escape_plain: "plain_char c \<Longrightarrow> c \<noteq> CHR ''.'' \<Longrightarrow> escape_byte (byte_of c) = [c]"
proof -
  assume c: "plain_char c" "c \<noteq> CHR ''.''"
  then have "byte_of c \<noteq> byte_of CHR ''.''" "byte_of c \<noteq> byte_of CHR 0x5C"
    by (auto simp: byte_of_eq_iff plain_char_def)
  moreover have "byte_of CHR 0x5C = 0x5C" by (simp add: byte_of_def)
  ultimately show ?thesis
    using c(1) by (simp add: escape_byte_def word_less_nat_alt unat_byte_of plain_char_def)
qed

lemma writeEscaped_plain:
  "list_all plain_char l \<Longrightarrow> CHR ''.'' \<notin> set l \<Longrightarrow> writeEscaped (map byte_of l) = l"
  by (induction l) (auto simp: writeEscaped_def escape_plain)

lemma concat_Split: "concat (map (\<lambda>l. l @ [c]) (Split c s)) = s @ [c]"
  by (induction s) (auto split: list.splits)

lemma Split_labels: "l \<in> set (Split c s) \<Longrightarrow> c \<notin> set l \<and> set l \<subseteq> set s"
  by (induction s arbitrary: l) (auto split: list.splits if_splits, blast+)

abbreviation pack_label :: "string \<Rightarrow> bytes" where
  "pack_label l \<equiv> word_of_nat (length l) # map byte_of l"

lemma packLabels_Inr:
  "packLabels name ls out = Inr res \<Longrightarrow>
     res = out @ concat (map pack_label ls) \<and> (\<forall>l \<in> set ls. l \<noteq> [] \<and> length l \<le> 63)"
  by (induction ls arbitrary: out) (fastforce split: if_splits)+

lemma label_byte:
  assumes "k < 64"
  shows "(word_of_nat k :: byte) AND 0xc0 = 0" "unat (word_of_nat k :: byte) = k"
proof -
  have "drop_bit 6 k = 0" using assms by (simp add: drop_bit_eq_div)
  then have "\<not> bit k (6 + m)" for m by (metis bit_drop_bit_eq bit_0_eq comp_apply bot_apply bot_bool_def)
  then have "6 \<le> n \<Longrightarrow> \<not> bit k n" for n by (metis le_Suc_ex)
  moreover have "bit (0xc0 :: byte) n \<Longrightarrow> 6 \<le> n" for n
  proof -
    have "(0xc0 :: byte) = push_bit 6 3" by simp
    then show "bit (0xc0 :: byte) n \<Longrightarrow> 6 \<le> n" by (simp only: bit_push_bit_iff)
  qed
  ultimately show "(word_of_nat k :: byte) AND 0xc0 = 0"
    by (intro bit_word_eqI) (auto simp only: bit_and_iff bit_of_nat_iff bit_0_eq bot_apply bot_bool_def)
  show "unat (word_of_nat k :: byte) = k" using assms by (simp add: unat_of_nat)
qed

lemma parse_packed:
  "\<forall>l \<in> set ls. l \<noteq> [] \<and> length l \<le> 63 \<and> list_all plain_char l \<and> CHR ''.'' \<notin> set l \<Longrightarrow>
   tot + length (concat (map pack_label ls)) \<le> 255 \<Longrightarrow>
   parseName_loop (pre @ concat (map pack_label ls) @ 0 # rest) (length pre) sb tot =
     Inr (let s = sb @ concat (map (\<lambda>l. l @ ''.'') ls) in if s = [] then ''.'' else s,
          length pre + length (concat (map pack_label ls)) + 1)"
proof (induction ls arbitrary: pre sb tot)
  case Nil
  then show ?case by (simp add: parseName_loop_root)
next
  case (Cons l ls)
  let ?msg = "pre @ concat (map pack_label (l # ls)) @ 0 # rest"
  have at: "?msg ! length pre = word_of_nat (length l)" by simp
  have len: "length l < 64" "l \<noteq> []" using Cons.prems(1) by auto
  have "parseName_loop ?msg (length pre) sb tot =
      parseName_loop ?msg (length pre + 1 + length l)
        (sb @ writeEscaped (take (length l) (drop (length pre + 1) ?msg)) @ ''.'') (tot + (length l + 1))"
    using len Cons.prems(2) by (intro parseName_loop_label) (simp_all add: at label_byte)
  moreover have "take (length l) (drop (length pre + 1) ?msg) = map byte_of l" by simp
  moreover have "writeEscaped (map byte_of l) = l" using Cons.prems(1) by (simp add: writeEscaped_plain)
  moreover have "parseName_loop ((pre @ pack_label l) @ concat (map pack_label ls) @ 0 # rest)
      (length (pre @ pack_label l)) (sb @ l @ ''.'') (tot + (length l + 1)) =
    Inr (let s = (sb @ l @ ''.'') @ concat (map (\<lambda>l. l @ ''.'') ls) in if s = [] then ''.'' else s,
         length (pre @ pack_label l) + length (concat (map pack_label ls)) + 1)"
    using Cons.prems by (intro Cons.IH) auto
  ultimately show ?case by (simp add: Let_def)
qed

lemma packName_length: "packName name = Inr q \<Longrightarrow> 1 \<le> length q \<and> length q \<le> 255"
  by (auto simp: packName_def Let_def split: if_splits sum.splits)

text \<open>The presentation form \<open>parseName\<close> gives back for a packed name.\<close>

definition canonical_name :: "string \<Rightarrow> string" where
  "canonical_name name = (if name = [] \<or> name = ''.'' then ''.'' else TrimSuffix1 name CHR ''.'' @ ''.'')"

lemma parseName_packName:
  assumes "packName name = Inr q" "list_all plain_char name"
  shows "parseName (pre @ q @ rest) (length pre) = Inr (canonical_name name, length pre + length q)"
proof (cases "name = [] \<or> name = ''.''")
  case True
  with assms(1) show ?thesis
    by (auto simp: packName_def parseName_def canonical_name_def parseName_loop_root)
next
  case False
  let ?n = "TrimSuffix1 name CHR ''.''" and ?ls = "Split CHR ''.'' (TrimSuffix1 name CHR ''.'')"
  from assms(1) False obtain out where out: "packLabels ?n ?ls [] = Inr out"
    and q: "q = out @ [0]" "length q \<le> 255"
    by (auto simp: packName_def Let_def split: sum.splits if_splits)
  from packLabels_Inr [OF out] have outc: "out = concat (map pack_label ?ls)"
    and ok: "\<forall>l \<in> set ?ls. l \<noteq> [] \<and> length l \<le> 63" by auto
  have sub: "set ?n \<subseteq> set name" by (auto simp: TrimSuffix1_def dest: in_set_butlastD)
  have "\<forall>l \<in> set ?ls. l \<noteq> [] \<and> length l \<le> 63 \<and> list_all plain_char l \<and> CHR ''.'' \<notin> set l"
    using ok Split_labels [of _ "CHR ''.''" ?n] sub assms(2) by (fastforce simp: list_all_iff)
  from parse_packed [OF this, of 0 pre rest "[]"] q outc
  show ?thesis
    using False by (simp add: parseName_def canonical_name_def concat_Split Let_def)
qed

lemma get16_put16: "get16 (pre @ put16 w @ rest) (length pre) = w"
  by (simp add: get16_def put16_def nth_append be16_put16)

lemma BuildQuery_Inr:
  assumes "BuildQuery qid name qtype = Inr msg"
  obtains q where "packName name = Inr q"
    "msg = (put16 qid @ put16 0x0100 @ put16 1 @ replicate 6 0) @ q @ put16 qtype @ put16 1"
  using assms
  by (auto simp: BuildQuery_def HeaderLen_def Let_def set16_def put16_def numeral_eq_Suc split: sum.splits)

section \<open>Tables\<close>

lemma find_order_irrelevant:
  assumes "mset xs = mset ys" and "\<And>x y. x \<in> set xs \<Longrightarrow> y \<in> set xs \<Longrightarrow> P x \<Longrightarrow> P y \<Longrightarrow> x = y"
  shows "find P xs = find P ys"
proof -
  have set: "set xs = set ys" using assms(1) by (rule mset_eq_setD)
  show ?thesis
  proof (cases "find P xs")
    case None
    then have "find P ys = None" using set by (simp add: find_None_iff)
    with None show ?thesis by simp
  next
    case (Some x)
    then have x: "x \<in> set xs" "P x" by (auto simp: find_Some_iff)
    with set obtain y where y: "find P ys = Some y" by (fastforce simp: find_None_iff)
    then have "y \<in> set xs" "P y" using set by (auto simp: find_Some_iff)
    with x assms(2) Some y show ?thesis by auto
  qed
qed

text \<open>No mnemonic is changed by trimming or upper-casing.\<close>

definition mnemonic :: "string \<Rightarrow> bool" where
  "mnemonic n \<longleftrightarrow> n \<noteq> [] \<and> graphic (hd n) \<and> graphic (last n) \<and> ToUpper n = n"

lemma mnemonic_norm: "mnemonic n \<Longrightarrow> ToUpper (TrimSpace n) = n"
  by (simp add: mnemonic_def TrimSpace_graphic)

lemma tables_mnemonic:
  "list_all (\<lambda>(r, n). mnemonic n) rcodeNames" "list_all (\<lambda>(n, t). mnemonic n) typeNames"
  by (simp_all add: rcodeNames_def typeNames_def mnemonic_def graphic_def upc_def)

lemma tables_distinct:
  "distinct (map fst rcodeNames)" "distinct (map snd rcodeNames)"
  "distinct (map fst typeNames)" "distinct (map snd typeNames)"
  by code_simp+

lemma find_distinct:
  assumes "distinct (map f xs)" "x \<in> set xs"
  shows "find (\<lambda>y. f y = f x) xs = Some x"
  using assms by (induction xs) force+

lemma ParseRCode_String: "r \<in> fst ` set rcodeNames \<Longrightarrow> ParseRCode (RCode_String r) = Inr r"
proof -
  assume "r \<in> fst ` set rcodeNames"
  then obtain n where n: "(r, n) \<in> set rcodeNames" by auto
  then have "map_of rcodeNames r = Some n" using tables_distinct by simp
  moreover have "find (\<lambda>y. snd y = n) rcodeNames = Some (r, n)"
    using find_distinct [OF tables_distinct(2) n] by simp
  moreover have "ToUpper (TrimSpace n) = n"
    using n tables_mnemonic(1) by (auto simp: list_all_iff intro: mnemonic_norm)
  ultimately show ?thesis
    by (simp add: ParseRCode_def ParseRCode_over_def RCode_String_def split_beta')
qed

lemma ParseType_String: "t \<in> snd ` set typeNames \<Longrightarrow> ParseType (TypeString t) = Inr t"
proof -
  assume "t \<in> snd ` set typeNames"
  then obtain n where n: "(n, t) \<in> set typeNames" by auto
  then have "map_of typeNames n = Some t" using tables_distinct by simp
  moreover have "find (\<lambda>y. snd y = t) typeNames = Some (n, t)"
    using find_distinct [OF tables_distinct(4) n] by simp
  moreover have "ToUpper (TrimSpace n) = n"
    using n tables_mnemonic(2) by (auto simp: list_all_iff intro: mnemonic_norm)
  ultimately show ?thesis
    by (simp add: ParseType_def TypeString_def TypeString_over_def split_beta')
qed

lemma ParseRCode_over_perm:
  assumes "mset tbl = mset rcodeNames"
  shows "ParseRCode_over tbl s = ParseRCode s"
proof -
  let ?P = "\<lambda>(code, name). name = ToUpper (TrimSpace s)"
  have "find ?P tbl = find ?P rcodeNames"
    using tables_distinct(2) mset_eq_setD [OF assms]
    by (intro find_order_irrelevant [OF assms]) (fastforce simp: distinct_map inj_on_def)
  then show ?thesis by (simp add: ParseRCode_def ParseRCode_over_def)
qed

lemma TypeString_over_perm:
  assumes "mset tbl = mset typeNames"
  shows "TypeString_over tbl t = TypeString t"
proof -
  let ?P = "\<lambda>(name, v). v = t"
  have "find ?P tbl = find ?P typeNames"
    using tables_distinct(4) mset_eq_setD [OF assms]
    by (intro find_order_irrelevant [OF assms]) (fastforce simp: distinct_map inj_on_def)
  then show ?thesis by (simp add: TypeString_def TypeString_over_def)
qed

section \<open>Properties\<close>

lemma ErrorResponse_facts:
  assumes "ErrorResponse req rc = Some resp"
  shows "\<exists>hdr. ParseHeader req = Inr hdr \<and> \<not> h_QR hdr \<and>
    ParseHeader resp = Inr \<lparr>h_ID = h_ID hdr, h_QR = True, h_Opcode = h_Opcode hdr, h_AA = False,
       h_TC = False, h_RD = h_RD hdr, h_RA = True, h_RCode = rc AND 0x0f,
       h_QDCount = (if h_QDCount hdr = 0 then 0 else 1), h_ANCount = 0, h_NSCount = 0, h_ARCount = 0\<rparr> \<and>
    (h_QDCount hdr \<noteq> 0 \<longrightarrow> ParseQuestion resp = ParseQuestion req) \<and>
    length resp \<le> length req \<and> drop 12 resp = take (length resp - 12) (drop 12 req)"
proof -
  from assms obtain hdr fin where hdr: "ParseHeader req = Inr hdr" "\<not> h_QR hdr"
    and fin: "echo_end req hdr = Some fin"
    and resp: "resp = rewrite_header (take fin req) (reply_flags (h_Opcode hdr) (h_RD hdr) rc)
                 (if h_QDCount hdr = 0 then 0 else 1)"
    by (auto simp: ErrorResponse_eq split: sum.splits if_splits)
  have b: "12 \<le> fin" "fin \<le> length req" using echo_end_bounds [OF hdr(1) fin] by auto
  have "drop 12 resp = take (length resp - 12) (drop 12 req)"
    using b by (intro nth_equalityI) (auto simp: resp nth_rewrite_header)
  then show ?thesis
    using hdr b resp ParseHeader_rewrite [OF b hdr(1)] ParseQuestion_rewrite [OF hdr(1) _ fin]
    by (intro exI [of _ hdr]) auto
qed

text \<open>
  C16. An error response is exactly the reply the code promises: the same transaction id,
  QR and RA set, opcode and RD preserved, AA and TC cleared, the low four bits of the
  response code, one question if and only if the request had one, no other section; the
  bytes after the header are those of the request, so the echoed question parses to the
  request's question; and the reply is never longer than the request, so the balancer
  cannot be used to amplify traffic.
\<close>

theorem ErrorResponse_spec:
  assumes "ErrorResponse req rc = Some resp"
  shows "\<exists>hdr. ParseHeader req = Inr hdr \<and> \<not> h_QR hdr \<and>
    ParseHeader resp = Inr \<lparr>h_ID = h_ID hdr, h_QR = True, h_Opcode = h_Opcode hdr, h_AA = False,
       h_TC = False, h_RD = h_RD hdr, h_RA = True, h_RCode = rc AND 0x0f,
       h_QDCount = (if h_QDCount hdr = 0 then 0 else 1), h_ANCount = 0, h_NSCount = 0, h_ARCount = 0\<rparr> \<and>
    (h_QDCount hdr \<noteq> 0 \<longrightarrow> ParseQuestion resp = ParseQuestion req) \<and>
    length resp \<le> length req \<and> drop 12 resp = take (length resp - 12) (drop 12 req)"
  using assms by (rule ErrorResponse_facts)

theorem ErrorResponse_spec_witness:
  "\<exists>resp. ErrorResponse [0x12, 0x34, 1, 0, 0, 1, 0, 0, 0, 0, 0, 0, 1, 97, 0, 0, 1, 0, 1] 2 = Some resp
     \<and> length resp \<le> 19"
proof -
  have h: "ErrorResponse [0x12, 0x34, 1, 0, 0, 1, 0, 0, 0, 0, 0, 0, 1, 97, 0, 0, 1, 0, 1] 2 =
    Some [0x12, 0x34, 0x81, 0x82, 0, 1, 0, 0, 0, 0, 0, 0, 1, 97, 0, 0, 1, 0, 1]"
    by code_simp
  from ErrorResponse_spec [OF h] h show ?thesis by auto
qed

text \<open>
  The balancer stays silent on exactly these requests: shorter than a header, a
  message that is itself a response, or one that announces a question which does not
  parse. Every other request gets an error response.
\<close>

lemma ErrorResponse_None_iff:
  "ErrorResponse req rc = None \<longleftrightarrow>
     length req < 12 \<or> bit (get16 req 2) 15 \<or> (get16 req 4 \<noteq> 0 \<and> (\<exists>e. ParseQuestion req = Inl e))"
proof (cases "ParseHeader req")
  case (Inl e)
  then show ?thesis
    by (auto simp: ErrorResponse_eq ParseHeader_def HeaderLen_def Let_def split: if_splits)
next
  case (Inr hdr)
  then have "12 \<le> length req" "h_QR hdr = bit (get16 req 2) 15" "h_QDCount hdr = get16 req 4"
    by (auto simp: ParseHeader_def HeaderLen_def Let_def u16_and_exp split: if_splits)
  with Inr show ?thesis
    by (auto simp: ErrorResponse_eq echo_end_def ParseQuestion_def split: sum.splits if_splits)
qed

lemma BuildQuery_facts:
  assumes "BuildQuery qid name qtype = Inr msg" and "list_all plain_char name"
  shows "ParseQuestion msg = Inr \<lparr>q_Name = canonical_name name, q_Type = qtype, q_Class = 1\<rparr> \<and>
    ID msg = qid \<and> get16 msg 2 = 0x0100 \<and> get16 msg 4 = 1 \<and> length msg \<le> 12 + 255 + 4"
proof -
  from assms(1) obtain q where q: "packName name = Inr q"
    and msg: "msg = (put16 qid @ put16 0x0100 @ put16 1 @ replicate 6 0) @ q @ put16 qtype @ put16 1"
    by (rule BuildQuery_Inr)
  let ?pre = "put16 qid @ put16 0x0100 @ put16 1 @ replicate 6 0 :: bytes"
  have pre: "length ?pre = 12" by simp
  have f: "get16 msg 0 = qid" "get16 msg 2 = 0x0100" "get16 msg 4 = 1"
    using get16_put16 [of "[]" qid] get16_put16 [of "put16 qid" "0x0100"]
      get16_put16 [of "put16 qid @ put16 0x0100" 1]
    by (simp_all add: msg)
  have name: "parseName msg HeaderLen = Inr (canonical_name name, 12 + length q)"
    using parseName_packName [OF q assms(2), of ?pre "put16 qtype @ put16 1"] pre
    by (simp add: msg HeaderLen_def)
  have "get16 msg (12 + length q) = qtype" "get16 msg (14 + length q) = 1"
    using get16_put16 [of "?pre @ q" qtype "put16 1"] get16_put16 [of "?pre @ q @ put16 qtype" 1 "[]"]
    by (simp_all add: msg)
  then show ?thesis
    using f name packName_length [OF q] pre
    by (simp add: ParseQuestion_def ParseHeader_def ID_def HeaderLen_def msg Let_def)
qed

text \<open>
  C18. A health probe says what it was asked to say: a query built for a name of printable
  characters without backslashes parses back to that name with its trailing dot, the
  requested type and class IN, under the requested transaction id, as a query with RD set
  and one question.
\<close>

theorem BuildQuery_roundtrip:
  assumes "BuildQuery qid name qtype = Inr msg" and "list_all plain_char name"
  shows "ParseQuestion msg = Inr \<lparr>q_Name = canonical_name name, q_Type = qtype, q_Class = 1\<rparr> \<and>
    ID msg = qid \<and> get16 msg 2 = 0x0100 \<and> get16 msg 4 = 1 \<and> length msg \<le> 12 + 255 + 4"
  using assms by (rule BuildQuery_facts)

theorem BuildQuery_roundtrip_witness:
  "\<exists>msg. BuildQuery 7 ''dns.google.'' 1 = Inr msg \<and>
     ParseQuestion msg = Inr \<lparr>q_Name = ''dns.google.'', q_Type = 1, q_Class = 1\<rparr>"
proof -
  have h: "BuildQuery 7 ''dns.google.'' 1 = Inr [0, 7, 1, 0, 0, 1, 0, 0, 0, 0, 0, 0,
     3, 100, 110, 115, 6, 103, 111, 111, 103, 108, 101, 0, 0, 1, 0, 1]"
    by code_simp
  have p: "list_all plain_char ''dns.google.''" by code_simp
  have "canonical_name ''dns.google.'' = ''dns.google.''" by code_simp
  with BuildQuery_roundtrip [OF h p] h show ?thesis by auto
qed

text \<open>
  Reading a name never leaves the message: on success the offset just past the name
  lies inside it, and the name took at least one and at most 256 bytes.
\<close>

lemma parseName_stays_inside:
  assumes "parseName msg off = Inr (name, off')"
  shows "off < off' \<and> off' \<le> length msg \<and> off' - off \<le> 256"
  using parseName_bounds [OF assms] by auto

text \<open>
  The limit of 255 bytes is off by one: the loop does not count the root byte, so a
  name of 256 bytes on the wire is accepted although \<open>ErrNameTooLong\<close> (and
  \<open>packName\<close>) put the limit at 255.
\<close>

lemma parseName_accepts_256:
  "\<exists>msg name. parseName msg 12 = Inr (name, 12 + 256) \<and> length msg = 12 + 256"
proof -
  let ?l = "\<lambda>n. word_of_nat n # replicate n (97 :: byte)"
  let ?msg = "replicate 12 0 @ concat (map ?l [63, 63, 63, 62]) @ [0 :: byte]"
  have "map ?l [63, 63, 63, 62] = map pack_label (map (\<lambda>n. replicate n CHR ''a'') [63, 63, 63, 62])"
    by (simp add: byte_of_def)
  then have "?msg = replicate 12 0 @
      concat (map pack_label (map (\<lambda>n. replicate n CHR ''a'') [63, 63, 63, 62])) @ 0 # []"
    by simp
  moreover have "parseName_loop (replicate 12 0 @
      concat (map pack_label (map (\<lambda>n. replicate n CHR ''a'') [63, 63, 63, 62])) @ 0 # [])
      (length (replicate 12 (0::byte))) [] 0 =
    Inr (let s = [] @ concat (map (\<lambda>l. l @ ''.'') (map (\<lambda>n. replicate n CHR ''a'') [63, 63, 63, 62]))
         in if s = [] then ''.'' else s, 12 + 255 + 1)"
    by (subst parse_packed) (simp_all add: list_all_iff plain_char_def)
  ultimately show ?thesis by (intro exI [of _ ?msg]) (auto simp: parseName_def Let_def)
qed

text \<open>
  Go visits a map in an arbitrary order, and the code is insensitive to it: whatever
  order the tables are visited in, \<open>ParseRCode\<close> and \<open>TypeString\<close> give the same
  answer, and every mnemonic the tables print is read back as the value it stands for.
\<close>

lemma table_order_irrelevant:
  assumes "mset rtbl = mset rcodeNames" and "mset ttbl = mset typeNames"
  shows "ParseRCode_over rtbl s = ParseRCode s \<and> TypeString_over ttbl t = TypeString t \<and>
    (r \<in> fst ` set rcodeNames \<longrightarrow> ParseRCode_over rtbl (RCode_String r) = Inr r) \<and>
    (t \<in> snd ` set typeNames \<longrightarrow> ParseType (TypeString_over ttbl t) = Inr t)"
  using assms by (simp add: ParseRCode_over_perm TypeString_over_perm ParseRCode_String ParseType_String)

end
