(* ===== verification/Config.thy ===== *)
theory Config
  imports Dnsmsg
begin

text \<open>
  Package \<open>internal/config\<close>: the configuration document, its defaults, address
  normalisation, validation (which also resolves the derived fields), the preparation of
  one upstream for the management API, and the two YAML forms of an endpoint. YAML decoding is third-party code and
  is a parameter of \<open>Parse\<close>.
\<close>

section \<open>The configuration document\<close>

record listen_cfg =
  l_UDP :: string
  l_TCP :: string

record query_cfg =
  qc_Timeout :: duration
  qc_MaxAttempts :: int
  qc_MaxConcurrent :: int
  qc_RetryRCodes :: "string list"
  qc_retryRCodes :: "rcode \<Rightarrow> bool"

record probe_cfg =
  pr_Name :: string
  pr_Type :: string
  pr_RequireAnswer :: bool
  pr_qtype :: u16

record health_cfg =
  hc_Interval :: duration
  hc_Timeout :: duration
  hc_Rise :: int
  hc_Fall :: int
  hc_StartupTimeout :: duration
  hc_Probe :: probe_cfg
  hc_Passive :: bool

record fallback_cfg =
  fc_Enabled :: bool
  fc_Servers :: "string list"
  fc_Timeout :: duration
  fc_SummaryInterval :: duration

record admin_cfg =
  ad_Listen :: string
  ad_AllowControl :: bool

record log_cfg =
  lg_Level :: string
  lg_Queries :: bool

record endpoint_cfg =
  ec_Name :: string
  ec_Addr :: string

record upstream_cfg =
  uc_Name :: string
  uc_Weight :: int
  uc_Endpoints :: "endpoint_cfg list"

record config =
  c_Listen :: listen_cfg
  c_Strategy :: string
  c_Query :: query_cfg
  c_Health :: health_cfg
  c_Fallback :: fallback_cfg
  c_Admin :: admin_cfg
  c_Log :: log_cfg
  c_Upstreams :: "upstream_cfg list"

definition ShouldRetryRCode :: "query_cfg \<Rightarrow> rcode \<Rightarrow> bool" where
  "ShouldRetryRCode q r = qc_retryRCodes q r"

definition StrategyRandom :: string where "StrategyRandom = ''random''"
definition StrategyRoundRobin :: string where "StrategyRoundRobin = ''round-robin''"
definition StrategyFailover :: string where "StrategyFailover = ''failover''"
definition StrategyLeastLatency :: string where "StrategyLeastLatency = ''least-latency''"

definition validStrategies :: "string list" where
  "validStrategies = [StrategyRandom, StrategyRoundRobin, StrategyFailover, StrategyLeastLatency]"

fun contains :: "string list \<Rightarrow> string \<Rightarrow> bool" where
  "contains [] needle = False"
| "contains (s # ss) needle = (if s = needle then True else contains ss needle)"

definition ValidStrategy :: "string \<Rightarrow> bool" where
  "ValidStrategy name = contains validStrategies name"

definition second :: duration where "second = 1000000000"

definition Default :: config where
  "Default = \<lparr>
     c_Listen = \<lparr>l_UDP = '':53'', l_TCP = '':53''\<rparr>,
     c_Strategy = StrategyRandom,
     c_Query = \<lparr>qc_Timeout = 2 * second, qc_MaxAttempts = 3, qc_MaxConcurrent = 1024,
                qc_RetryRCodes = [''SERVFAIL'', ''REFUSED''], qc_retryRCodes = (\<lambda>_. False)\<rparr>,
     c_Health = \<lparr>hc_Interval = 10 * second, hc_Timeout = 2 * second, hc_Rise = 2, hc_Fall = 2,
                 hc_StartupTimeout = 3 * second,
                 hc_Probe = \<lparr>pr_Name = ''dns.google.'', pr_Type = ''A'', pr_RequireAnswer = False, pr_qtype = 0\<rparr>,
                 hc_Passive = True\<rparr>,
     c_Fallback = \<lparr>fc_Enabled = True, fc_Servers = [''8.8.8.8'', ''8.8.4.4''], fc_Timeout = 2 * second,
                   fc_SummaryInterval = 24 * 3600 * second\<rparr>,
     c_Admin = \<lparr>ad_Listen = ''127.0.0.1:8053'', ad_AllowControl = False\<rparr>,
     c_Log = \<lparr>lg_Level = ''info'', lg_Queries = False\<rparr>,
     c_Upstreams = []\<rparr>"

text \<open>
  \<open>Endpoint.UnmarshalYAML\<close>: whether the node is a scalar, and what decoding it as a string and
  as a mapping gives.
\<close>

definition Endpoint_UnmarshalYAML :: "bool \<Rightarrow> string result \<Rightarrow> endpoint_cfg result \<Rightarrow> endpoint_cfg \<Rightarrow> endpoint_cfg result" where
  "Endpoint_UnmarshalYAML scalar as_string as_mapping e =
     (if scalar then and_then as_string (\<lambda>s. Inr (e\<lparr>ec_Addr := s\<rparr>))
      else and_then as_mapping (\<lambda>r. Inr r))"

section \<open>Addresses\<close>

definition DefaultDNSPort :: string where "DefaultDNSPort = ''53''"

definition normaliseAddr :: "string \<Rightarrow> string result" where
  "normaliseAddr addr0 =
     (let addr = TrimSpace addr0 in
      if addr = [] then Inl (Errorf ''address must not be empty'' [])
      else case SplitHostPort addr of
        None \<Rightarrow>
          if ParseIP_ok addr then Inr (JoinHostPort addr DefaultDNSPort)
          else if contains_char CHR '':'' addr then
            Inl (Errorf ''%q is not a valid address; bracket IPv6 literals as [::1]:53'' [addr])
          else Inr (JoinHostPort addr DefaultDNSPort)
      | Some (host, port) \<Rightarrow>
          if host = [] then Inl (Errorf ''%q has no host part'' [addr])
          else if \<not> ParseUint16_ok port then Inl (Errorf ''%q has an invalid port'' [addr])
          else Inr (JoinHostPort host port))"

section \<open>Preparing one upstream\<close>

fun prepare_endpoints :: "nat \<Rightarrow> endpoint_cfg list \<Rightarrow> string list \<Rightarrow> endpoint_cfg list result" where
  "prepare_endpoints i [] seen = Inr []"
| "prepare_endpoints i (ep # eps) seen =
     (case normaliseAddr (ec_Addr ep) of
        Inl e \<Rightarrow> Inl (Wrapf ''endpoint %d: %w'' [dec_string (i + 1)] e)
      | Inr addr \<Rightarrow>
          if addr \<in> set seen then Inl (Errorf ''endpoint %s is listed twice'' [addr])
          else and_then (prepare_endpoints (i + 1) eps (addr # seen))
            (\<lambda>cleaned. Inr (ep\<lparr>ec_Addr := addr, ec_Name := (if ec_Name ep = [] then addr else ec_Name ep)\<rparr> # cleaned)))"

definition PrepareUpstream :: "upstream_cfg \<Rightarrow> upstream_cfg result" where
  "PrepareUpstream u0 =
     (let u = u0\<lparr>uc_Name := TrimSpace (uc_Name u0)\<rparr> in
      fail_if (uc_Name u = []) (Errorf ''name must not be empty'' []) (
      fail_if (\<exists>c \<in> set (uc_Name u). c \<in> set [CHR ''/'', CHR ''?'', CHR ''#'', CHR 0x5C])
        (Errorf ''name must not contain /, ?, # or backslash'' []) (
      let u = (if uc_Weight u = 0 then u\<lparr>uc_Weight := 1\<rparr> else u) in
      fail_if (uc_Weight u < 0) (Errorf ''weight must not be negative'' []) (
      fail_if (uc_Endpoints u = []) (Errorf ''at least one endpoint is required'' []) (
      and_then (prepare_endpoints 0 (uc_Endpoints u) [])
        (\<lambda>cleaned. Inr (u\<lparr>uc_Endpoints := cleaned\<rparr>)))))))"

section \<open>Validation\<close>

fun resolve_rcodes :: "string list \<Rightarrow> (rcode \<Rightarrow> bool) \<Rightarrow> (rcode \<Rightarrow> bool) result" where
  "resolve_rcodes [] m = Inr m"
| "resolve_rcodes (name # names) m =
     (case ParseRCode name of
        Inl e \<Rightarrow> Inl (Wrapf ''query.retry_rcodes: %w'' [] e)
      | Inr code \<Rightarrow> resolve_rcodes names (m(code := True)))"

definition validate_query :: "query_cfg \<Rightarrow> query_cfg result" where
  "validate_query q =
     fail_if (qc_Timeout q \<le> 0) (Errorf ''query.timeout must be positive'' []) (
     fail_if (qc_MaxAttempts q < 1) (Errorf ''query.max_attempts must be at least 1'' []) (
     fail_if (qc_MaxConcurrent q < 1) (Errorf ''query.max_concurrent must be at least 1'' []) (
     and_then (resolve_rcodes (qc_RetryRCodes q) (\<lambda>_. False))
       (\<lambda>m. Inr (q\<lparr>qc_retryRCodes := m\<rparr>)))))"

definition validate_health :: "health_cfg \<Rightarrow> health_cfg result" where
  "validate_health h =
     fail_if (hc_Interval h \<le> 0) (Errorf ''health.interval must be positive'' []) (
     fail_if (hc_Timeout h \<le> 0) (Errorf ''health.timeout must be positive'' []) (
     fail_if (hc_Rise h < 1) (Errorf ''health.rise must be at least 1'' []) (
     fail_if (hc_Fall h < 1) (Errorf ''health.fall must be at least 1'' []) (
     case ParseType (pr_Type (hc_Probe h)) of
       Inl e \<Rightarrow> Inl (Wrapf ''health.probe.type: %w'' [] e)
     | Inr qtype \<Rightarrow>
         let p = (hc_Probe h)\<lparr>pr_qtype := qtype\<rparr> in
         fail_if (pr_Name p = []) (Errorf ''health.probe.name must not be empty'' []) (
         let p = (if \<not> HasSuffix1 (pr_Name p) CHR ''.'' then p\<lparr>pr_Name := pr_Name p @ ''.''\<rparr> else p)
         in Inr (h\<lparr>hc_Probe := p\<rparr>))))))"

fun validate_servers :: "nat \<Rightarrow> string list \<Rightarrow> string list \<Rightarrow> string list result" where
  "validate_servers i [] seen = Inr []"
| "validate_servers i (raw # raws) seen =
     (case normaliseAddr raw of
        Inl e \<Rightarrow> Inl (Wrapf ''fallback.servers[%d]: %w'' [dec_string i] e)
      | Inr addr \<Rightarrow>
          if addr \<in> set seen then Inl (Errorf ''fallback.servers: duplicate resolver %s'' [addr])
          else and_then (validate_servers (i + 1) raws (addr # seen)) (\<lambda>addrs. Inr (addr # addrs)))"

definition validate_fallback :: "fallback_cfg \<Rightarrow> fallback_cfg result" where
  "validate_fallback f =
     (if fc_Enabled f then
        fail_if (fc_Servers f = [])
          (Errorf ''fallback.servers must list at least one resolver when fallback is enabled'' []) (
        fail_if (fc_Timeout f \<le> 0) (Errorf ''fallback.timeout must be positive'' []) (
        fail_if (fc_SummaryInterval f \<le> 0) (Errorf ''fallback.summary_interval must be positive'' []) (
        and_then (validate_servers 0 (fc_Servers f) []) (\<lambda>addrs. Inr (f\<lparr>fc_Servers := addrs\<rparr>)))))
      else Inr f)"

text \<open>
  The endpoints of one upstream; \<open>seenAddr\<close> maps every address met so far to its owner,
  newest first.
\<close>

fun validate_endpoints ::
  "string \<Rightarrow> nat \<Rightarrow> endpoint_cfg list \<Rightarrow> (string \<times> string) list \<Rightarrow>
     (endpoint_cfg list \<times> (string \<times> string) list) result" where
  "validate_endpoints name j [] seenAddr = Inr ([], seenAddr)"
| "validate_endpoints name j (ep # eps) seenAddr =
     (case normaliseAddr (ec_Addr ep) of
        Inl e \<Rightarrow> Inl (Wrapf ''upstreams[%s].endpoints[%d]: %w'' [name, dec_string j] e)
      | Inr addr \<Rightarrow>
          let ep = ep\<lparr>ec_Addr := addr, ec_Name := (if ec_Name ep = [] then addr else ec_Name ep)\<rparr> in
          case map_of seenAddr addr of
            Some owner \<Rightarrow> Inl (Errorf ''upstreams[%s]: address %s is already used by upstream %q; list every path to one Pi-hole under a single upstream so it is not weighted twice in selection'' [name, addr, owner])
          | None \<Rightarrow>
              and_then (validate_endpoints name (j + 1) eps ((addr, name) # seenAddr))
                (\<lambda>(eps', seen'). Inr (ep # eps', seen')))"

text \<open>The name and weight defaults of one upstream.\<close>

definition fill_upstream :: "nat \<Rightarrow> upstream_cfg \<Rightarrow> upstream_cfg" where
  "fill_upstream i u0 =
     (let u = (if uc_Name u0 = [] then u0\<lparr>uc_Name := ''upstream-'' @ dec_string (i + 1)\<rparr> else u0)
      in if uc_Weight u = 0 then u\<lparr>uc_Weight := 1\<rparr> else u)"

fun validate_upstreams ::
  "nat \<Rightarrow> upstream_cfg list \<Rightarrow> string list \<Rightarrow> (string \<times> string) list \<Rightarrow> upstream_cfg list result" where
  "validate_upstreams i [] seenName seenAddr = Inr []"
| "validate_upstreams i (u0 # us) seenName seenAddr =
     (let u = fill_upstream i u0 in
      if uc_Name u \<in> set seenName then Inl (Errorf ''upstreams: duplicate name %q'' [uc_Name u])
      else if uc_Weight u < 0 then Inl (Errorf ''upstreams[%s]: weight must not be negative'' [uc_Name u])
      else if uc_Endpoints u = [] then
        Inl (Errorf ''upstreams[%s]: at least one endpoint is required'' [uc_Name u])
      else and_then (validate_endpoints (uc_Name u) 0 (uc_Endpoints u) seenAddr)
        (\<lambda>(eps, seenAddr'). and_then (validate_upstreams (i + 1) us (uc_Name u # seenName) seenAddr')
           (\<lambda>us'. Inr (u\<lparr>uc_Endpoints := eps\<rparr> # us'))))"

definition Validate :: "config \<Rightarrow> config result" where
  "Validate c =
     fail_if (l_UDP (c_Listen c) = [] \<and> l_TCP (c_Listen c) = [])
       (Errorf ''listen: at least one of udp or tcp must be set'' []) (
     fail_if (\<not> contains validStrategies (c_Strategy c)) (Errorf ''strategy: %q is not one of %s'' [c_Strategy c]) (
     and_then (validate_query (c_Query c)) (\<lambda>q.
     and_then (validate_health (c_Health c)) (\<lambda>h.
     and_then (validate_fallback (c_Fallback c)) (\<lambda>f.
     fail_if (\<not> contains [''debug'', ''info'', ''warn'', ''error''] (lg_Level (c_Log c)))
       (Errorf ''log.level: %q is not one of debug, info, warn, error'' [lg_Level (c_Log c)]) (
     fail_if (c_Upstreams c = []) (Errorf ''upstreams: at least one upstream must be configured'' []) (
     and_then (validate_upstreams 0 (c_Upstreams c) [] []) (\<lambda>us.
     Inr (c\<lparr>c_Query := q, c_Health := h, c_Fallback := f, c_Upstreams := us\<rparr>)))))))))"

text \<open>
  \<open>Parse\<close>: \<open>decode\<close> is the YAML decoder with unknown keys refused; it layers a document
  over a configuration.
\<close>

definition Parse :: "('doc \<Rightarrow> config \<Rightarrow> config result) \<Rightarrow> 'doc \<Rightarrow> config result" where
  "Parse decode data =
     (case decode data Default of
        Inl e \<Rightarrow>
          if err_is e EOF then Inl (Errorf ''config is empty: at least one upstream must be configured'' [])
          else Inl (Wrapf ''parsing config: %w'' [] e)
      | Inr cfg \<Rightarrow> Validate cfg)"

section \<open>Normalised addresses\<close>

lemma graphic_digit: "is_digit c \<Longrightarrow> graphic c"
  by (simp add: is_digit_def graphic_def)

lemma port_chars:
  assumes "ParseUint16_ok p"
  shows "bracketless p" "CHR '':'' \<notin> set p" "p \<noteq> []" "graphic (last p)"
  using assms graphic_digit [of "last p"]
  by (auto simp: ParseUint16_ok_def bracketless_def list_all_iff is_digit_def)

lemma default_port_ok: "ParseUint16_ok DefaultDNSPort"
  by (simp add: ParseUint16_ok_def DefaultDNSPort_def is_digit_def)

text \<open>The two shapes a normalised address has.\<close>

lemma normaliseAddr_plain:
  assumes "trimmed h" "h \<noteq> []" "CHR '':'' \<notin> set h" "bracketless h" "ParseUint16_ok p"
  shows "normaliseAddr (h @ CHR '':'' # p) = Inr (h @ CHR '':'' # p)"
proof -
  have "trimmed (h @ CHR '':'' # p)"
    using assms port_chars [OF assms(5)] by (intro trimmed_with_port) auto
  then show ?thesis
    using assms port_chars [OF assms(5)]
    by (simp add: normaliseAddr_def TrimSpace_trimmed SplitHostPort_plain JoinHostPort_def contains_char_def)
qed

lemma trimmed_bracket:
  "ParseUint16_ok p \<Longrightarrow> trimmed (CHR ''['' # h @ CHR '']'' # CHR '':'' # p)"
  by (rule trimmed_graphic) (auto simp: graphic_def [of "CHR ''[''"] port_chars)

lemma normaliseAddr_bracket:
  assumes "CHR '':'' \<in> set h" "bracketless h" "ParseUint16_ok p"
  shows "normaliseAddr (CHR ''['' # h @ CHR '']'' # CHR '':'' # p) = Inr (CHR ''['' # h @ CHR '']'' # CHR '':'' # p)"
proof -
  have "h \<noteq> []" using assms(1) by auto
  then show ?thesis
    using assms port_chars [OF assms(3)] trimmed_bracket [OF assms(3), of h]
    by (simp add: normaliseAddr_def TrimSpace_trimmed SplitHostPort_bracket JoinHostPort_def
        contains_char_def Let_def)
qed

text \<open>Addresses whose normal form is stable: no brackets, or brackets around an IPv6 host.\<close>

definition stable_addr :: "string \<Rightarrow> bool" where
  "stable_addr a \<longleftrightarrow> bracketless (TrimSpace a) \<or>
     (\<exists>h p. SplitHostPort (TrimSpace a) = Some (h, p) \<and> CHR '':'' \<in> set h)"

lemma stable_plain:
  assumes "trimmed h" "h \<noteq> []" "bracketless h" "ParseUint16_ok p"
  shows "stable_addr (h @ CHR '':'' # p)"
proof -
  have "trimmed (h @ CHR '':'' # p)"
    using assms port_chars [OF assms(4)] by (intro trimmed_with_port) auto
  then show ?thesis
    using assms port_chars [OF assms(4)] by (auto simp: stable_addr_def TrimSpace_trimmed bracketless_def)
qed

lemma normaliseAddr_idem:
  assumes "normaliseAddr a = Inr b" "stable_addr a"
  shows "normaliseAddr b = Inr b \<and> stable_addr b"
proof -
  let ?t = "TrimSpace a"
  have t: "?t \<noteq> []" "trimmed ?t" using assms(1) by (auto simp: normaliseAddr_def Let_def split: if_splits)
  show ?thesis
  proof (cases "SplitHostPort ?t")
    case None
    then have br: "bracketless ?t" using assms(2) by (simp add: stable_addr_def)
    have b: "b = JoinHostPort ?t DefaultDNSPort" "ParseIP_ok ?t \<or> CHR '':'' \<notin> set ?t"
      using assms(1) None t by (auto simp: normaliseAddr_def Let_def contains_char_def split: if_splits)
    show ?thesis
    proof (cases "CHR '':'' \<in> set ?t")
      case True
      then have "b = CHR ''['' # ?t @ CHR '']'' # CHR '':'' # DefaultDNSPort"
        using b by (simp add: JoinHostPort_def contains_char_def)
      with True br default_port_ok show ?thesis
        by (auto simp: normaliseAddr_bracket stable_addr_def SplitHostPort_bracket port_chars
            TrimSpace_trimmed trimmed_bracket)
    next
      case False
      then have "b = ?t @ CHR '':'' # DefaultDNSPort"
        using b by (simp add: JoinHostPort_def contains_char_def)
      with False br t default_port_ok show ?thesis
        by (simp add: normaliseAddr_plain stable_plain)
    qed
  next
    case (Some hp)
    then obtain h p where sp: "SplitHostPort ?t = Some (h, p)" by (cases hp) auto
    then have b: "b = JoinHostPort h p" "h \<noteq> []" "ParseUint16_ok p"
      using assms(1) t by (auto simp: normaliseAddr_def Let_def split: if_splits)
    from sp show ?thesis
    proof (cases rule: SplitHostPort_SomeE)
      case plain
      then have "b = ?t" using b by (simp add: JoinHostPort_def contains_char_def)
      then show ?thesis using assms t by (auto simp: normaliseAddr_def stable_addr_def TrimSpace_trimmed)
    next
      case bracket
      then have "CHR '':'' \<in> set h" using assms(2) sp by (auto simp: stable_addr_def bracketless_def)
      then have "b = ?t" using b bracket by (simp add: JoinHostPort_def contains_char_def)
      then show ?thesis using assms t by (auto simp: normaliseAddr_def stable_addr_def TrimSpace_trimmed)
    qed
  qed
qed

section \<open>What validation establishes\<close>

text \<open>An address in normal form.\<close>

definition normal_addr :: "string \<Rightarrow> bool" where
  "normal_addr a \<longleftrightarrow> normaliseAddr a = Inr a"

definition all_addrs :: "upstream_cfg list \<Rightarrow> string list" where
  "all_addrs us = map ec_Addr (concat (map uc_Endpoints us))"

text \<open>The well-formed upstream lists: what the pool may be built from.\<close>

definition wf_upstreams :: "upstream_cfg list \<Rightarrow> bool" where
  "wf_upstreams us \<longleftrightarrow> distinct (map uc_Name us) \<and> distinct (all_addrs us) \<and>
     (\<forall>u \<in> set us. uc_Name u \<noteq> [] \<and> 1 \<le> uc_Weight u \<and> uc_Endpoints u \<noteq> [] \<and>
        (\<forall>e \<in> set (uc_Endpoints u). ec_Name e \<noteq> []))"

definition valid_config :: "config \<Rightarrow> bool" where
  "valid_config c \<longleftrightarrow>
     (l_UDP (c_Listen c) \<noteq> [] \<or> l_TCP (c_Listen c) \<noteq> []) \<and> ValidStrategy (c_Strategy c) \<and>
     0 < qc_Timeout (c_Query c) \<and> 1 \<le> qc_MaxAttempts (c_Query c) \<and> 1 \<le> qc_MaxConcurrent (c_Query c) \<and>
     (\<forall>r. qc_retryRCodes (c_Query c) r \<longleftrightarrow> (\<exists>n \<in> set (qc_RetryRCodes (c_Query c)). ParseRCode n = Inr r)) \<and>
     0 < hc_Interval (c_Health c) \<and> 0 < hc_Timeout (c_Health c) \<and> 1 \<le> hc_Rise (c_Health c) \<and> 1 \<le> hc_Fall (c_Health c) \<and>
     ParseType (pr_Type (hc_Probe (c_Health c))) = Inr (pr_qtype (hc_Probe (c_Health c))) \<and>
     HasSuffix1 (pr_Name (hc_Probe (c_Health c))) CHR ''.'' \<and>
     (fc_Enabled (c_Fallback c) \<longrightarrow> fc_Servers (c_Fallback c) \<noteq> [] \<and> distinct (fc_Servers (c_Fallback c)) \<and>
        0 < fc_Timeout (c_Fallback c) \<and> 0 < fc_SummaryInterval (c_Fallback c)) \<and>
     c_Upstreams c \<noteq> [] \<and> wf_upstreams (c_Upstreams c)"

lemma all_addrs_simps [simp]:
  "all_addrs [] = []" "all_addrs (u # us) = map ec_Addr (uc_Endpoints u) @ all_addrs us"
  by (simp_all add: all_addrs_def)

lemma wf_upstreams_simps [simp]:
  "wf_upstreams []"
  "wf_upstreams (u # us) \<longleftrightarrow> uc_Name u \<noteq> [] \<and> 1 \<le> uc_Weight u \<and> uc_Endpoints u \<noteq> [] \<and>
     (\<forall>e \<in> set (uc_Endpoints u). ec_Name e \<noteq> []) \<and> uc_Name u \<notin> uc_Name ` set us \<and>
     distinct (map ec_Addr (uc_Endpoints u)) \<and> set (map ec_Addr (uc_Endpoints u)) \<inter> set (all_addrs us) = {} \<and>
     wf_upstreams us"
  by (auto simp: wf_upstreams_def)

lemma fill_upstream [simp]:
  "uc_Name (fill_upstream i u) \<noteq> []" "uc_Endpoints (fill_upstream i u) = uc_Endpoints u"
  "uc_Weight (fill_upstream i u) \<noteq> 0"
  by (auto simp: fill_upstream_def Let_def)

lemma fill_upstream_id: "uc_Name u \<noteq> [] \<Longrightarrow> uc_Weight u \<noteq> 0 \<Longrightarrow> fill_upstream i u = u"
  by (simp add: fill_upstream_def)

lemma contains_iff: "contains xs x \<longleftrightarrow> x \<in> set xs"
  by (induction xs) auto

lemma resolve_rcodes_Inr:
  "resolve_rcodes names m = Inr m' \<Longrightarrow> m' r \<longleftrightarrow> m r \<or> (\<exists>n \<in> set names. ParseRCode n = Inr r)"
  by (induction names arbitrary: m) (auto split: sum.splits)

lemma validate_query_Inr:
  assumes "validate_query q = Inr q'"
  shows "0 < qc_Timeout q' \<and> 1 \<le> qc_MaxAttempts q' \<and> 1 \<le> qc_MaxConcurrent q' \<and>
    (\<forall>r. qc_retryRCodes q' r \<longleftrightarrow> (\<exists>n \<in> set (qc_RetryRCodes q'). ParseRCode n = Inr r)) \<and>
    validate_query q' = Inr q'"
  using assms by (auto simp: validate_query_def fail_if_Inr and_then_Inr resolve_rcodes_Inr)

lemma validate_health_Inr:
  assumes "validate_health h = Inr h'"
  shows "0 < hc_Interval h' \<and> 0 < hc_Timeout h' \<and> 1 \<le> hc_Rise h' \<and> 1 \<le> hc_Fall h' \<and>
    ParseType (pr_Type (hc_Probe h')) = Inr (pr_qtype (hc_Probe h')) \<and>
    HasSuffix1 (pr_Name (hc_Probe h')) CHR ''.'' \<and> validate_health h' = Inr h'"
proof -
  from assms obtain qt where qt: "ParseType (pr_Type (hc_Probe h)) = Inr qt"
    by (auto simp: validate_health_def fail_if_Inr split: sum.splits)
  show ?thesis
  proof (cases "HasSuffix1 (pr_Name (hc_Probe h)) CHR ''.''")
    case True
    with assms qt show ?thesis by (auto simp: validate_health_def fail_if_Inr Let_def)
  next
    case False
    moreover have "HasSuffix1 (n @ ''.'') CHR ''.''" for n by (simp add: HasSuffix1_def)
    ultimately show ?thesis using assms qt by (auto simp: validate_health_def fail_if_Inr Let_def)
  qed
qed

lemma validate_servers_Inr:
  "validate_servers i raws seen = Inr addrs \<Longrightarrow>
     distinct addrs \<and> set addrs \<inter> set seen = {} \<and> map normaliseAddr raws = map Inr addrs"
  by (induction i raws seen arbitrary: addrs rule: validate_servers.induct)
    (auto simp: and_then_Inr split: sum.splits if_splits, fastforce+)

lemma validate_endpoints_Inr:
  "validate_endpoints name j eps seen = Inr (eps', seen') \<Longrightarrow>
     distinct (map ec_Addr eps') \<and> set (map ec_Addr eps') \<inter> fst ` set seen = {} \<and>
     fst ` set seen' = set (map ec_Addr eps') \<union> fst ` set seen \<and>
     map (normaliseAddr \<circ> ec_Addr) eps = map (Inr \<circ> ec_Addr) eps' \<and>
     (\<forall>e \<in> set eps'. ec_Name e \<noteq> [])"
proof (induction name j eps seen arbitrary: eps' seen' rule: validate_endpoints.induct)
  case (2 name j ep eps seen)
  from "2.prems" obtain addr where addr: "normaliseAddr (ec_Addr ep) = Inr addr" by (auto split: sum.splits)
  with "2.prems" have nd: "map_of seen addr = None" by (auto simp: Let_def split: option.splits)
  then have "addr \<notin> fst ` set seen" by (simp add: map_of_eq_None_iff)
  moreover from "2.prems" addr nd obtain eps2
    where "validate_endpoints name (j + 1) eps ((addr, name) # seen) = Inr (eps2, seen')"
      and "eps' = ep\<lparr>ec_Addr := addr, ec_Name := (if ec_Name ep = [] then addr else ec_Name ep)\<rparr> # eps2"
    by (auto simp: Let_def and_then_Inr)
  moreover have "addr \<noteq> []" using addr
    by (auto simp: normaliseAddr_def Let_def JoinHostPort_def split: if_splits option.splits)
  ultimately show ?case using "2.IH" [OF addr refl nd] addr by auto
qed simp


lemma validate_upstreams_Inr:
  "validate_upstreams i us seenN seenA = Inr us' \<Longrightarrow>
     wf_upstreams us' \<and> set (map uc_Name us') \<inter> set seenN = {} \<and>
     set (all_addrs us') \<inter> fst ` set seenA = {} \<and> length us' = length us \<and>
     map (normaliseAddr \<circ> ec_Addr) (concat (map uc_Endpoints us)) = map Inr (all_addrs us')"
proof (induction i us seenN seenA arbitrary: us' rule: validate_upstreams.induct)
  case (1 i seenN seenA)
  then show ?case by (simp add: wf_upstreams_def all_addrs_def)
next
  case (2 i u0 us seenN seenA)
  define u where "u = fill_upstream i u0"
  from "2.prems" obtain eps seenA' us2
    where c: "uc_Name u \<notin> set seenN" "\<not> uc_Weight u < 0" "uc_Endpoints u \<noteq> []"
      and eps: "validate_endpoints (uc_Name u) 0 (uc_Endpoints u) seenA = Inr (eps, seenA')"
      and us2: "validate_upstreams (i + 1) us (uc_Name u # seenN) seenA' = Inr us2"
      and us': "us' = u\<lparr>uc_Endpoints := eps\<rparr> # us2"
    unfolding validate_upstreams.simps Let_def u_def by (auto simp: and_then_Inr split: if_splits)
  have IH: "wf_upstreams us2 \<and> set (map uc_Name us2) \<inter> set (uc_Name u # seenN) = {} \<and>
     set (all_addrs us2) \<inter> fst ` set seenA' = {} \<and> length us2 = length us \<and>
     map (normaliseAddr \<circ> ec_Addr) (concat (map uc_Endpoints us)) = map Inr (all_addrs us2)"
    using "2.IH" [OF u_def c us2] .
  note E = validate_endpoints_Inr [OF eps]
  have eq: "uc_Endpoints u = uc_Endpoints u0" "uc_Name u \<noteq> []" "uc_Weight u \<noteq> 0" by (simp_all add: u_def)
  have "eps \<noteq> []" using E c(3) by auto
  then show ?case using IH E eq c(1,2) by (auto simp: us' comp_def)
qed

lemma validate_servers_fix:
  "\<forall>a \<in> set addrs. normal_addr a \<Longrightarrow> distinct addrs \<Longrightarrow> set addrs \<inter> set seen = {} \<Longrightarrow>
     validate_servers i addrs seen = Inr addrs"
  by (induction i addrs seen rule: validate_servers.induct) (auto simp: normal_addr_def)

lemma validate_endpoints_fix:
  "\<forall>e \<in> set eps. normal_addr (ec_Addr e) \<and> ec_Name e \<noteq> [] \<Longrightarrow> distinct (map ec_Addr eps) \<Longrightarrow>
   set (map ec_Addr eps) \<inter> fst ` set seen = {} \<Longrightarrow>
     validate_endpoints name j eps seen = Inr (eps, rev (map (\<lambda>e. (ec_Addr e, name)) eps) @ seen)"
proof (induction name j eps seen rule: validate_endpoints.induct)
  case (2 name j ep eps seen)
  then have addr: "normaliseAddr (ec_Addr ep) = Inr (ec_Addr ep)" and nd: "map_of seen (ec_Addr ep) = None"
    by (auto simp: normal_addr_def map_of_eq_None_iff)
  from "2.IH" [OF addr refl nd] "2.prems" addr nd show ?case by simp
qed simp

lemma validate_upstreams_fix:
  "wf_upstreams us \<Longrightarrow> \<forall>a \<in> set (all_addrs us). normal_addr a \<Longrightarrow> set (map uc_Name us) \<inter> set seenN = {} \<Longrightarrow>
   set (all_addrs us) \<inter> fst ` set seenA = {} \<Longrightarrow> validate_upstreams i us seenN seenA = Inr us"
proof (induction us arbitrary: i seenN seenA)
  case (Cons u us)
  let ?s = "rev (map (\<lambda>e. (ec_Addr e, uc_Name u)) (uc_Endpoints u)) @ seenA"
  have u: "uc_Name u \<noteq> []" "1 \<le> uc_Weight u" "uc_Endpoints u \<noteq> []" "uc_Name u \<notin> set seenN"
    using Cons.prems by auto
  have "validate_endpoints (uc_Name u) 0 (uc_Endpoints u) seenA = Inr (uc_Endpoints u, ?s)"
    using Cons.prems by (intro validate_endpoints_fix) auto
  moreover have "validate_upstreams (i + 1) us (uc_Name u # seenN) ?s = Inr us"
    using Cons.prems by (intro Cons.IH) (auto simp: image_Un)
  ultimately show ?case using u by (simp add: fill_upstream_id)
qed simp

lemma Validate_Inr:
  assumes "Validate c = Inr c'"
  shows "valid_config c' \<and>
    c_Listen c' = c_Listen c \<and> c_Strategy c' = c_Strategy c \<and> c_Log c' = c_Log c \<and> c_Admin c' = c_Admin c \<and>
    validate_query (c_Query c) = Inr (c_Query c') \<and> validate_health (c_Health c) = Inr (c_Health c') \<and>
    validate_fallback (c_Fallback c) = Inr (c_Fallback c') \<and>
    validate_upstreams 0 (c_Upstreams c) [] [] = Inr (c_Upstreams c')"
proof -
  from assms obtain q h f us where
    g: "\<not> (l_UDP (c_Listen c) = [] \<and> l_TCP (c_Listen c) = [])" "contains validStrategies (c_Strategy c)"
      "c_Upstreams c \<noteq> []"
    and q: "validate_query (c_Query c) = Inr q" and h: "validate_health (c_Health c) = Inr h"
    and f: "validate_fallback (c_Fallback c) = Inr f"
    and us: "validate_upstreams 0 (c_Upstreams c) [] [] = Inr us"
    and c': "c' = c\<lparr>c_Query := q, c_Health := h, c_Fallback := f, c_Upstreams := us\<rparr>"
    by (auto simp: Validate_def fail_if_Inr and_then_Inr)
  have "fc_Enabled f \<longrightarrow> fc_Servers f \<noteq> [] \<and> distinct (fc_Servers f) \<and> 0 < fc_Timeout f \<and> 0 < fc_SummaryInterval f"
    using f by (auto simp: validate_fallback_def fail_if_Inr and_then_Inr dest!: validate_servers_Inr split: if_splits)
  moreover have "us \<noteq> []" "wf_upstreams us" using validate_upstreams_Inr [OF us] g(3) by auto
  ultimately have "valid_config c'"
    using g validate_query_Inr [OF q] validate_health_Inr [OF h]
    by (simp add: valid_config_def c' ValidStrategy_def)
  then show ?thesis using q h f us by (simp add: c')
qed

lemma validate_fallback_fix:
  assumes "validate_fallback f = Inr f'" "\<forall>a \<in> set (fc_Servers f). stable_addr a"
  shows "validate_fallback f' = Inr f'"
proof (cases "fc_Enabled f")
  case False
  with assms show ?thesis by (auto simp: validate_fallback_def)
next
  case True
  with assms(1) obtain addrs where v: "validate_servers 0 (fc_Servers f) [] = Inr addrs"
    and f': "f' = f\<lparr>fc_Servers := addrs\<rparr>" "fc_Servers f \<noteq> []" "\<not> fc_Timeout f \<le> 0" "\<not> fc_SummaryInterval f \<le> 0"
    by (auto simp: validate_fallback_def fail_if_Inr and_then_Inr)
  note V = validate_servers_Inr [OF v]
  have "\<forall>a \<in> set addrs. normal_addr a"
    using V assms(2) map_Inr_mem [of normaliseAddr "fc_Servers f" addrs] normaliseAddr_idem
    unfolding normal_addr_def by blast
  then have "validate_servers 0 addrs [] = Inr addrs" using V by (intro validate_servers_fix) auto
  moreover have "addrs \<noteq> []" using V f' by auto
  ultimately show ?thesis using True f' by (simp add: validate_fallback_def fail_if_def)
qed

lemma prepare_endpoints_Inr:
  "prepare_endpoints i eps seen = Inr eps' \<Longrightarrow>
     distinct (map ec_Addr eps') \<and> set (map ec_Addr eps') \<inter> set seen = {} \<and>
     map (normaliseAddr \<circ> ec_Addr) eps = map (Inr \<circ> ec_Addr) eps' \<and> (\<forall>e \<in> set eps'. ec_Name e \<noteq> [])"
proof (induction i eps seen arbitrary: eps' rule: prepare_endpoints.induct)
  case (2 i ep eps seen)
  from "2.prems" obtain addr where addr: "normaliseAddr (ec_Addr ep) = Inr addr" by (auto split: sum.splits)
  with "2.prems" have nd: "addr \<notin> set seen" by (auto split: if_splits)
  from "2.prems" addr nd obtain eps2
    where "prepare_endpoints (i + 1) eps (addr # seen) = Inr eps2"
      and "eps' = ep\<lparr>ec_Addr := addr, ec_Name := (if ec_Name ep = [] then addr else ec_Name ep)\<rparr> # eps2"
    by (auto simp: and_then_Inr)
  moreover have "addr \<noteq> []" using addr
    by (auto simp: normaliseAddr_def Let_def JoinHostPort_def split: if_splits option.splits)
  ultimately show ?case using "2.IH" [OF addr nd] addr nd by auto
qed simp

lemma PrepareUpstream_Inr:
  assumes "PrepareUpstream u = Inr u'"
  shows "wf_upstreams [u'] \<and> uc_Name u' = TrimSpace (uc_Name u) \<and>
    map (normaliseAddr \<circ> ec_Addr) (uc_Endpoints u) = map (Inr \<circ> ec_Addr) (uc_Endpoints u')"
proof -
  from assms obtain eps where eps: "prepare_endpoints 0 (uc_Endpoints u) [] = Inr eps"
    and u': "u' = (if uc_Weight u = 0 then u\<lparr>uc_Name := TrimSpace (uc_Name u), uc_Weight := 1\<rparr>
                    else u\<lparr>uc_Name := TrimSpace (uc_Name u)\<rparr>)\<lparr>uc_Endpoints := eps\<rparr>"
      "TrimSpace (uc_Name u) \<noteq> []" "uc_Weight u = 0 \<or> \<not> uc_Weight u < 0" "uc_Endpoints u \<noteq> []"
    by (auto simp: PrepareUpstream_def fail_if_Inr and_then_Inr Let_def split: if_splits)
  from prepare_endpoints_Inr [OF eps] have "eps \<noteq> []" using u'(4) by auto
  with prepare_endpoints_Inr [OF eps] u' show ?thesis by auto
qed

section \<open>A configuration of one Pi-hole, and an address that is not stable\<close>

definition home_config :: config where
  "home_config = Default\<lparr>c_Upstreams := [
     \<lparr>uc_Name = ''pihole-1'', uc_Weight = 0, uc_Endpoints = [\<lparr>ec_Name = [], ec_Addr = ''192.168.1.10''\<rparr>]\<rparr>]\<rparr>"

lemmas normalise_eval =
  Let_def normaliseAddr_def TrimSpace_graphic graphic_def SplitHostPort_def contains_char_def JoinHostPort_def
  DefaultDNSPort_def ParseIP_ok_def ipv6_ok_def ipv6_run_def hex_group_def is_hex_def is_digit_def
  before_last_def after_last_def

lemma home_addrs:
  "normaliseAddr ''192.168.1.10'' = Inr ''192.168.1.10:53''"
  "normaliseAddr ''8.8.8.8'' = Inr ''8.8.8.8:53''"
  "normaliseAddr ''8.8.4.4'' = Inr ''8.8.4.4:53''"
  by (simp_all add: normalise_eval)

lemma home_names:
  "ParseRCode ''SERVFAIL'' = Inr 2" "ParseRCode ''REFUSED'' = Inr 5" "ParseType ''A'' = Inr 1"
  by code_simp+

lemma home_valid: "\<exists>c'. Validate home_config = Inr c'"
  by (simp add: Validate_def home_config_def Default_def fail_if_Inr and_then_Inr validStrategies_def
     validate_query_def validate_health_def validate_fallback_def home_addrs home_names second_def fill_upstream_def HasSuffix1_def Let_def)

lemma home_stable: "\<forall>a \<in> set (all_addrs (c_Upstreams home_config)) \<union> set (fc_Servers (c_Fallback home_config)). stable_addr a"
  by (simp add: home_config_def Default_def all_addrs_def stable_addr_def bracketless_def TrimSpace_graphic graphic_def)

definition home_upstream :: upstream_cfg where
  "home_upstream = \<lparr>uc_Name = ''pihole-2'', uc_Weight = 0, uc_Endpoints = [\<lparr>ec_Name = [], ec_Addr = ''192.168.1.10''\<rparr>]\<rparr>"

lemma home_prepared:
  "PrepareUpstream home_upstream = Inr \<lparr>uc_Name = ''pihole-2'', uc_Weight = 1,
     uc_Endpoints = [\<lparr>ec_Name = ''192.168.1.10:53'', ec_Addr = ''192.168.1.10:53''\<rparr>]\<rparr>"
  by (simp add: PrepareUpstream_def home_upstream_def fail_if_Inr and_then_Inr home_addrs TrimSpace_graphic graphic_def Let_def)

lemma unstable_addr:
  "normaliseAddr ''[pi'' = Inr ''[pi:53''" "\<exists>e. normaliseAddr ''[pi:53'' = Inl e"
  by (simp_all add: normalise_eval)

section \<open>Properties\<close>

text \<open>
  C17. A configuration that validates is well formed: at least one listener, a known
  strategy, positive timeouts, thresholds and limits of at least one, the derived retry
  codes and probe type are exactly those the texts name, and the upstreams have distinct
  non-empty names, weights of at least one, at least one endpoint each, and no address is
  used twice anywhere.
\<close>

theorem Validate_establishes:
  assumes "Validate c = Inr c'"
  shows "valid_config c' \<and> length (c_Upstreams c') = length (c_Upstreams c) \<and>
    map (normaliseAddr \<circ> ec_Addr) (concat (map uc_Endpoints (c_Upstreams c))) = map Inr (all_addrs (c_Upstreams c'))"
  using Validate_Inr [OF assms] validate_upstreams_Inr by blast

theorem Validate_establishes_witness: "\<exists>c'. Validate home_config = Inr c' \<and> valid_config c' \<and> length (c_Upstreams c') = 1"
proof -
  from home_valid obtain c' where c: "Validate home_config = Inr c'" by blast
  from Validate_establishes [OF c] c show ?thesis by (simp add: home_config_def)
qed

text \<open>
  Validation is idempotent on configurations whose addresses are stable.
\<close>

lemma Validate_idempotent:
  assumes "Validate c = Inr c'"
    and "\<forall>a \<in> set (all_addrs (c_Upstreams c)) \<union> set (fc_Servers (c_Fallback c)). stable_addr a"
  shows "Validate c' = Inr c'"
proof -
  note V = Validate_Inr [OF assms(1)]
  from V have "validate_upstreams 0 (c_Upstreams c) [] [] = Inr (c_Upstreams c')" by blast
  note U = validate_upstreams_Inr [OF this]
  have "normal_addr b" if b: "b \<in> set (all_addrs (c_Upstreams c'))" for b
  proof -
    let ?es = "concat (map uc_Endpoints (c_Upstreams c))"
    have "map (normaliseAddr \<circ> ec_Addr) ?es = map Inr (all_addrs (c_Upstreams c'))" using U by blast
    from map_Inr_mem [OF this b] obtain e where "e \<in> set ?es" "(normaliseAddr \<circ> ec_Addr) e = Inr b" by blast
    then show ?thesis
      using assms(2) normaliseAddr_idem [of "ec_Addr e" b] by (simp add: all_addrs_def normal_addr_def)
  qed
  then have us: "validate_upstreams 0 (c_Upstreams c') [] [] = Inr (c_Upstreams c')"
    using U by (intro validate_upstreams_fix) auto
  have f: "validate_fallback (c_Fallback c') = Inr (c_Fallback c')"
    using V assms(2) validate_fallback_fix by blast
  have qh: "validate_query (c_Query c') = Inr (c_Query c')" "validate_health (c_Health c') = Inr (c_Health c')"
    using V validate_query_Inr validate_health_Inr by blast+
  have "c_Listen c' = c_Listen c" "c_Strategy c' = c_Strategy c" "c_Log c' = c_Log c"
    using V by blast+
  moreover have "c_Upstreams c' \<noteq> []" using V by (simp add: valid_config_def)
  ultimately show ?thesis
    using assms(1) us f qh
    by (simp add: Validate_def fail_if_Inr and_then_Inr contains_iff del: contains.simps) blast
qed

text \<open>
  An upstream accepted from the management API also passes the validation of the
  configuration file, unchanged, when its addresses are stable: what the API lets in can be
  saved and read back.
\<close>

lemma PrepareUpstream_validates:
  assumes "PrepareUpstream u = Inr u'" "\<forall>e \<in> set (uc_Endpoints u). stable_addr (ec_Addr e)"
  shows "validate_upstreams i [u'] [] [] = Inr [u']"
proof -
  note P = PrepareUpstream_Inr [OF assms(1)]
  have "normal_addr b" if b: "b \<in> set (all_addrs [u'])" for b
  proof -
    have "map (normaliseAddr \<circ> ec_Addr) (uc_Endpoints u) = map Inr (map ec_Addr (uc_Endpoints u'))" using P by simp
    moreover have "b \<in> set (map ec_Addr (uc_Endpoints u'))" using b by simp
    ultimately have "\<exists>e \<in> set (uc_Endpoints u). (normaliseAddr \<circ> ec_Addr) e = Inr b" by (rule map_Inr_mem)
    then obtain e where "e \<in> set (uc_Endpoints u)" "normaliseAddr (ec_Addr e) = Inr b" by auto
    then show ?thesis using assms(2) normaliseAddr_idem unfolding normal_addr_def by blast
  qed
  moreover have "wf_upstreams [u']" using P by blast
  ultimately show ?thesis by (intro validate_upstreams_fix) (blast | simp)+
qed

text \<open>
  Without that condition it fails: the API accepts the address \<open>[pi\<close> and stores it as
  \<open>[pi:53\<close>, and from then on no configuration holding the stored upstream validates, so the
  file the balancer has just written keeps it from starting.
\<close>

lemma PrepareUpstream_unloadable:
  "\<exists>u u'. PrepareUpstream u = Inr u' \<and> (\<forall>c us vs. \<exists>e. Validate (c\<lparr>c_Upstreams := us @ u' # vs\<rparr>) = Inl e)"
proof -
  let ?e = "\<lambda>a. \<lparr>ec_Name = ''lan'', ec_Addr = a\<rparr>"
  let ?u = "\<lambda>a. \<lparr>uc_Name = ''pi'', uc_Weight = 1, uc_Endpoints = [?e a]\<rparr>"
  have "PrepareUpstream (?u ''[pi'') = Inr (?u ''[pi:53'')"
    by (simp add: PrepareUpstream_def fail_if_Inr and_then_Inr unstable_addr TrimSpace_graphic graphic_def Let_def)
  moreover have "\<exists>e. Validate c = Inl e" if c: "?u ''[pi:53'' \<in> set (c_Upstreams c)" for c
  proof (cases "Validate c")
    case (Inr c')
    then have "map (normaliseAddr \<circ> ec_Addr) (concat (map uc_Endpoints (c_Upstreams c))) = map Inr (all_addrs (c_Upstreams c'))"
      using Validate_Inr validate_upstreams_Inr by blast
    moreover have "?e ''[pi:53'' \<in> set (concat (map uc_Endpoints (c_Upstreams c)))" using c by force
    ultimately have "\<exists>b. (normaliseAddr \<circ> ec_Addr) (?e ''[pi:53'') = Inr b" by (rule map_Inr_source)
    then show ?thesis using unstable_addr(2) by auto
  qed simp
  then have "\<exists>e. Validate (c\<lparr>c_Upstreams := us @ ?u ''[pi:53'' # vs\<rparr>) = Inl e" for c us vs by simp
  ultimately show ?thesis by blast
qed

end
