(* ===== verification/GoFloat.thy ===== *)
theory GoFloat
  imports Complex_Main Prelude
begin

text \<open>
  Go's \<open>float64\<close> arithmetic on the numbers this program computes with: non-negative, and
  far from the subnormal and the overflow range. A float is the rational it denotes, and
  each operation rounds the exact result to the nearest number with a 53-bit significand,
  ties to even. Every operation is rounded on its own, as the amd64 compiler does; the
  language lets other targets fuse a product into a following sum.
\<close>

section \<open>Rounding\<close>

fun bit_len :: "nat \<Rightarrow> nat" where
  "bit_len n = (if n = 0 then 0 else Suc (bit_len (n div 2)))"

declare bit_len.simps [simp del]

text \<open>Powers of two with an integer exponent.\<close>

definition pow2 :: "int \<Rightarrow> rat" where
  "pow2 e = (if 0 \<le> e then 2 ^ nat e else 1 / 2 ^ nat (- e))"

text \<open>The binary exponent of a positive rational: \<open>pow2 (exponent x) \<le> x < 2 * pow2 (exponent x)\<close>.\<close>

definition exponent :: "rat \<Rightarrow> int" where
  "exponent x = (case quotient_of x of (a, b) \<Rightarrow>
     let e = int (bit_len (nat a)) - int (bit_len (nat b))
     in if x < pow2 e then e - 1 else e)"

definition round_even :: "rat \<Rightarrow> int" where
  "round_even x = (let f = \<lfloor>x\<rfloor>; d = x - of_int f in
     if d < 1 / 2 then f else if 1 / 2 < d then f + 1 else if even f then f else f + 1)"

definition f64 :: "rat \<Rightarrow> rat" where
  "f64 x = (if x \<le> 0 then 0
     else let ulp = pow2 (exponent x - 52) in of_int (round_even (x / ulp)) * ulp)"

section \<open>Rounding error\<close>

lemma bit_len_bounds: "0 < n \<Longrightarrow> 2 ^ (bit_len n - 1) \<le> n \<and> n < 2 ^ bit_len n \<and> 0 < bit_len n"
proof (induction n rule: bit_len.induct)
  case (1 n)
  show ?case
  proof (cases "n div 2 = 0")
    case True
    with 1 have "n = 1" by simp
    then show ?thesis by (simp add: bit_len.simps)
  next
    case False
    with 1 have IH: "2 ^ (bit_len (n div 2) - 1) \<le> n div 2" "n div 2 < 2 ^ bit_len (n div 2)" "0 < bit_len (n div 2)"
      by simp_all
    then obtain k where k: "bit_len (n div 2) = Suc k" by (cases "bit_len (n div 2)") auto
    with IH have "2 ^ k \<le> n div 2" "n div 2 < 2 * 2 ^ k" by simp_all
    then have "2 * 2 ^ k \<le> n" "n < 4 * 2 ^ k" by linarith+
    then show ?thesis using "1.prems" k by (simp add: bit_len.simps [of n])
  qed
qed

lemma pow2_pos [simp]: "0 < pow2 e"
  by (simp add: pow2_def)

lemma pow2_diff: "pow2 (int a - int b) = 2 ^ a / 2 ^ b"
proof (cases "b \<le> a")
  case True
  then have "(2 :: rat) ^ a = 2 ^ (a - b) * 2 ^ b" by (simp flip: power_add)
  with True show ?thesis by (simp add: pow2_def nat_diff_distrib)
next
  case False
  then have "(2 :: rat) ^ b = 2 ^ (b - a) * 2 ^ a" by (simp flip: power_add)
  with False show ?thesis by (simp add: pow2_def nat_diff_distrib)
qed

lemma pow2_add1: "pow2 (e + 1) = 2 * pow2 e"
proof -
  obtain a b where "e = int a - int b" by (metis int_diff_cases)
  then have "e + 1 = int (Suc a) - int b" by simp
  then show ?thesis using \<open>e = _\<close> by (simp only: pow2_diff) simp
qed

lemma pow2_sub52: "pow2 (e - 52) * 2 ^ 52 = pow2 e"
proof -
  obtain a b where "e = int a - int b" by (metis int_diff_cases)
  then have "e - 52 = int a - int (b + 52)" by simp
  then show ?thesis using \<open>e = _\<close> by (simp only: pow2_diff power_add) simp
qed

lemma of_nat_2pow:
  "(2 :: rat) ^ k \<le> of_nat m \<longleftrightarrow> 2 ^ k \<le> m" "(of_nat m :: rat) < 2 * 2 ^ k \<longleftrightarrow> m < 2 * 2 ^ k"
proof -
  have "(2 :: rat) ^ k = of_nat (2 ^ k)" "(2 :: rat) * 2 ^ k = of_nat (2 * 2 ^ k)" by simp_all
  then show "(2 :: rat) ^ k \<le> of_nat m \<longleftrightarrow> 2 ^ k \<le> m" "(of_nat m :: rat) < 2 * 2 ^ k \<longleftrightarrow> m < 2 * 2 ^ k"
    by (simp_all only: of_nat_le_iff of_nat_less_iff)
qed

lemma exponent_bounds:
  assumes "0 < x"
  shows "pow2 (exponent x) \<le> x" "x < 2 * pow2 (exponent x)"
proof -
  obtain a b where q: "quotient_of x = (a, b)" by (cases "quotient_of x")
  then have b: "0 < b" and x: "x = of_int a / of_int b"
    by (auto intro: quotient_of_denom_pos quotient_of_div)
  have a: "0 < a" using assms b x by (simp add: zero_less_divide_iff)
  define m n where "m = nat a" and "n = nat b"
  have mn: "0 < m" "0 < n" "x = of_nat m / of_nat n"
    using a b x by (simp_all add: m_def n_def)
  obtain k where k: "bit_len m = Suc k" using bit_len_bounds [OF mn(1)] by (cases "bit_len m") auto
  obtain l where l: "bit_len n = Suc l" using bit_len_bounds [OF mn(2)] by (cases "bit_len n") auto
  have "2 ^ k \<le> m" "m < 2 * 2 ^ k" using bit_len_bounds [OF mn(1)] k by simp_all
  then have M: "(2 :: rat) ^ k \<le> of_nat m" "(of_nat m :: rat) < 2 * 2 ^ k"
    by (simp_all only: of_nat_2pow)
  have "2 ^ l \<le> n" "n < 2 * 2 ^ l" using bit_len_bounds [OF mn(2)] l by simp_all
  then have N: "(2 :: rat) ^ l \<le> of_nat n" "(of_nat n :: rat) < 2 * 2 ^ l"
    by (simp_all only: of_nat_2pow)
  let ?e = "int (bit_len m) - int (bit_len n)"
  have e: "pow2 ?e = 2 ^ k / 2 ^ l" using k l by (simp add: pow2_diff)
  have "of_nat m / of_nat n < 2 * 2 ^ k / (2 :: rat) ^ l"
    using M N mn by (intro frac_less) simp_all
  then have up: "x < 2 * pow2 ?e" using mn(3) e by simp
  have "2 ^ k / (2 * 2 ^ l) \<le> (of_nat m / of_nat n :: rat)"
    using M N mn by (intro frac_le) simp_all
  then have lo: "pow2 (?e - 1) \<le> x" using mn(3) e pow2_add1 [of "?e - 1"] by simp
  have ex: "exponent x = (if x < pow2 ?e then ?e - 1 else ?e)"
    by (simp add: exponent_def q m_def n_def Let_def)
  show "pow2 (exponent x) \<le> x" "x < 2 * pow2 (exponent x)"
    using up lo ex pow2_add1 [of "?e - 1"] by auto
qed

lemma round_even_error: "\<bar>of_int (round_even x) - x\<bar> \<le> 1 / 2"
  using floor_correct [of x] by (auto simp: round_even_def Let_def abs_if) linarith+

text \<open>The relative error of one rounding is at most \<open>2 ^ -53\<close>.\<close>

lemma f64_error:
  assumes "0 \<le> x"
  shows "\<bar>f64 x - x\<bar> \<le> x / 2 ^ 53"
proof (cases "x = 0")
  case False
  then have x: "0 < x" using assms by simp
  define u where "u = pow2 (exponent x - 52)"
  have u: "0 < u" by (simp add: u_def)
  have "u * 2 ^ 52 \<le> x" unfolding u_def pow2_sub52 by (rule exponent_bounds(1) [OF x])
  then have "u / 2 \<le> x / 2 ^ 53" by (simp add: field_simps)
  moreover have "\<bar>f64 x - x\<bar> = \<bar>of_int (round_even (x / u)) - x / u\<bar> * u"
    using x u by (simp add: f64_def u_def [symmetric] Let_def abs_if field_simps)
  moreover have "\<dots> \<le> 1 / 2 * u" using round_even_error u by (intro mult_right_mono) simp_all
  ultimately show ?thesis by simp
qed (simp add: f64_def)

lemma f64_bounds:
  assumes "0 \<le> x"
  shows "x * (1 - 1 / 2 ^ 53) \<le> f64 x" "f64 x \<le> x * (1 + 1 / 2 ^ 53)" "0 \<le> f64 x"
proof -
  show lo: "x * (1 - 1 / 2 ^ 53) \<le> f64 x" "f64 x \<le> x * (1 + 1 / 2 ^ 53)"
    using abs_le_D1 [OF f64_error [OF assms]] abs_le_D2 [OF f64_error [OF assms]]
    unfolding distrib_left right_diff_distrib mult_1_right times_divide_eq_right by linarith+
  have "0 \<le> x * (1 - 1 / 2 ^ 53)" using assms by (intro mult_nonneg_nonneg) simp_all
  with lo show "0 \<le> f64 x" by simp
qed

end
