(* ===== verification/Pool.thy ===== *)
theory Pool
  imports Config GoFloat
begin

text \<open>
  Package \<open>internal/pool\<close>: the upstream Pi-holes, the health of every path to them, and
  the plan of endpoints to try for one query. Endpoints and upstreams are Go pointers that
  queries in flight keep after the pool has dropped them, so the model has an explicit
  heap: \<open>p_eps\<close> and \<open>p_ups\<close> map an address to an object, and the pool's own slices
  are lists of addresses. The locks serialise the operations; the two halves of a report
  (the locked update and the store of the verdict) are one step here.
\<close>

section \<open>Endpoints, upstreams, the pool\<close>

record endpoint =
  e_Name :: string
  e_Addr :: string
  e_Upstream :: nat
  e_up :: bool
  e_successes :: int
  e_failures :: int
  e_latencyEWMA :: duration
  e_lastChange :: "instant option"
  e_lastErr :: "goerr option"
  e_totalQueries :: u64
  e_totalFails :: u64

record upstream =
  u_Name :: string
  u_Weight :: int
  u_Endpoints :: "nat list"
  u_drained :: bool

record pool =
  p_eps :: "nat \<Rightarrow> endpoint"
  p_ups :: "nat \<Rightarrow> upstream"
  p_enext :: nat
  p_unext :: nat
  p_upstreams :: "nat list"
  p_endpoints :: "nat list"
  p_strategy :: string
  p_rise :: int
  p_fall :: int
  p_passive :: bool
  p_rr :: u64

text \<open>The reason handed to the state change callback, and the call itself.\<close>

datatype reason = Recovered | InitialProbe | Because "goerr option"

type_synonym change = "nat \<times> bool \<times> reason"

definition Healthy :: "pool \<Rightarrow> nat \<Rightarrow> bool" where
  "Healthy p e = e_up (p_eps p e)"

definition Latency :: "pool \<Rightarrow> nat \<Rightarrow> duration" where
  "Latency p e = e_latencyEWMA (p_eps p e)"

definition Upstream_Healthy :: "pool \<Rightarrow> nat \<Rightarrow> bool" where
  "Upstream_Healthy p u = list_ex (Healthy p) (u_Endpoints (p_ups p u))"

definition Active :: "pool \<Rightarrow> nat \<Rightarrow> nat option" where
  "Active p u = find (Healthy p) (u_Endpoints (p_ups p u))"

definition Drained :: "pool \<Rightarrow> nat \<Rightarrow> bool" where
  "Drained p u = u_drained (p_ups p u)"

definition SetDrained :: "nat \<Rightarrow> bool \<Rightarrow> pool \<Rightarrow> pool" where
  "SetDrained u v p = p\<lparr>p_ups := (p_ups p)(u := (p_ups p u)\<lparr>u_drained := v\<rparr>)\<rparr>"

section \<open>Membership\<close>

text \<open>The literal \<open>&Endpoint{Name: ec.Name, Addr: ec.Addr, Upstream: u}\<close>.\<close>

definition fresh_endpoint :: "nat \<Rightarrow> endpoint_cfg \<Rightarrow> endpoint" where
  "fresh_endpoint u ec = \<lparr>e_Name = ec_Name ec, e_Addr = ec_Addr ec, e_Upstream = u, e_up = False,
     e_successes = 0, e_failures = 0, e_latencyEWMA = 0, e_lastChange = None, e_lastErr = None,
     e_totalQueries = 0, e_totalFails = 0\<rparr>"

fun new_endpoints :: "nat \<Rightarrow> endpoint_cfg list \<Rightarrow> pool \<Rightarrow> pool" where
  "new_endpoints u [] p = p"
| "new_endpoints u (ec # ecs) p =
     new_endpoints u ecs (p\<lparr>
       p_eps := (p_eps p)(p_enext p := fresh_endpoint u ec),
       p_ups := (p_ups p)(u := (p_ups p u)\<lparr>u_Endpoints := u_Endpoints (p_ups p u) @ [p_enext p]\<rparr>),
       p_enext := p_enext p + 1\<rparr>)"

definition buildUpstream :: "upstream_cfg \<Rightarrow> pool \<Rightarrow> nat \<times> pool" where
  "buildUpstream uc p =
     (let u = p_unext p;
          p1 = p\<lparr>p_ups := (p_ups p)(u := \<lparr>u_Name = uc_Name uc, u_Weight = uc_Weight uc, u_Endpoints = [],
                   u_drained = False\<rparr>), p_unext := u + 1\<rparr>
      in (u, new_endpoints u (uc_Endpoints uc) p1))"

definition append_upstream :: "upstream_cfg \<Rightarrow> pool \<Rightarrow> nat \<times> pool" where
  "append_upstream uc p =
     (case buildUpstream uc p of (u, p1) \<Rightarrow>
        (u, p1\<lparr>p_upstreams := p_upstreams p1 @ [u],
                p_endpoints := p_endpoints p1 @ u_Endpoints (p_ups p1 u)\<rparr>))"

text \<open>An unallocated address holds nothing the program can reach.\<close>

definition nil_endpoint :: endpoint where
  "nil_endpoint = \<lparr>e_Name = [], e_Addr = [], e_Upstream = 0, e_up = False, e_successes = 0, e_failures = 0,
     e_latencyEWMA = 0, e_lastChange = None, e_lastErr = None, e_totalQueries = 0, e_totalFails = 0\<rparr>"

definition New :: "config \<Rightarrow> pool" where
  "New cfg =
     fold (\<lambda>uc p. snd (append_upstream uc p)) (c_Upstreams cfg)
       \<lparr>p_eps = (\<lambda>_. nil_endpoint), p_ups = (\<lambda>_. \<lparr>u_Name = [], u_Weight = 0, u_Endpoints = [], u_drained = False\<rparr>),
        p_enext = 0, p_unext = 0, p_upstreams = [], p_endpoints = [], p_strategy = c_Strategy cfg,
        p_rise = hc_Rise (c_Health cfg), p_fall = hc_Fall (c_Health cfg), p_passive = hc_Passive (c_Health cfg),
        p_rr = 0\<rparr>"

fun address_conflict :: "pool \<Rightarrow> nat list \<Rightarrow> endpoint_cfg list \<Rightarrow> string option" where
  "address_conflict p [] ecs = None"
| "address_conflict p (e # es) ecs =
     (case find (\<lambda>ec. e_Addr (p_eps p e) = ec_Addr ec) ecs of
        Some ec \<Rightarrow> Some (ec_Addr ec)
      | None \<Rightarrow> address_conflict p es ecs)"

fun add_conflict :: "pool \<Rightarrow> upstream_cfg \<Rightarrow> nat list \<Rightarrow> goerr option" where
  "add_conflict p uc [] = None"
| "add_conflict p uc (u # us) =
     (if u_Name (p_ups p u) = uc_Name uc then Some (Wrapf ''%w: %s'' [uc_Name uc] (Sentinel ErrDuplicateName))
      else case address_conflict p (u_Endpoints (p_ups p u)) (uc_Endpoints uc) of
        Some a \<Rightarrow> Some (Errorf ''address %s is already used by upstream %q'' [a, u_Name (p_ups p u)])
      | None \<Rightarrow> add_conflict p uc us)"

definition Add :: "upstream_cfg \<Rightarrow> pool \<Rightarrow> (nat \<times> pool) result" where
  "Add uc p =
     (case add_conflict p uc (p_upstreams p) of
        Some err \<Rightarrow> Inl err
      | None \<Rightarrow> Inr (append_upstream uc p))"

definition index_of :: "pool \<Rightarrow> string \<Rightarrow> nat" where
  "index_of p name = length (takeWhile (\<lambda>u. u_Name (p_ups p u) \<noteq> name) (p_upstreams p))"

definition Remove :: "string \<Rightarrow> pool \<Rightarrow> pool result" where
  "Remove name p =
     (let idx = index_of p name in
      if idx = length (p_upstreams p) then Inl (Wrapf ''%w: %s'' [name] (Sentinel ErrNotFound))
      else if length (p_upstreams p) = 1 then Inl (Sentinel ErrLastUpstream)
      else let removed = p_upstreams p ! idx in
        Inr (p\<lparr>p_upstreams := take idx (p_upstreams p) @ drop (idx + 1) (p_upstreams p),
               p_endpoints := filter (\<lambda>e. e_Upstream (p_eps p e) \<noteq> removed) (p_endpoints p)\<rparr>))"

definition SetStrategy :: "string \<Rightarrow> pool \<Rightarrow> pool result" where
  "SetStrategy name p =
     (if \<not> ValidStrategy name then Inl (Errorf ''pool: unknown strategy %q'' [name])
      else Inr (p\<lparr>p_strategy := name\<rparr>))"

definition Lookup :: "pool \<Rightarrow> string \<Rightarrow> nat option" where
  "Lookup p name = find (\<lambda>u. u_Name (p_ups p u) = name) (p_upstreams p)"

definition HealthyUpstreams :: "pool \<Rightarrow> nat" where
  "HealthyUpstreams p = length (filter (\<lambda>u. Upstream_Healthy p u \<and> \<not> Drained p u) (p_upstreams p))"

section \<open>Selection\<close>

definition hour :: duration where "hour = 3600 * second"

definition effectiveLatency :: "pool \<Rightarrow> nat \<Rightarrow> duration" where
  "effectiveLatency p u =
     (case Active p u of
        None \<Rightarrow> hour
      | Some e \<Rightarrow> let l = Latency p e in if 0 < l then l else hour)"

definition weight_of :: "pool \<Rightarrow> nat \<Rightarrow> int" where
  "weight_of p u = u_Weight (p_ups p u)"

fun pick_index :: "pool \<Rightarrow> int \<Rightarrow> nat \<Rightarrow> nat list \<Rightarrow> nat" where
  "pick_index p n i [] = i - 1"
| "pick_index p n i (u # us) =
     (let n' = wrap64 (n - weight_of p u) in if n' < 0 then i else pick_index p n' (i + 1) us)"

definition total_weight :: "pool \<Rightarrow> nat list \<Rightarrow> int" where
  "total_weight p ups = fold (\<lambda>u t. wrap64 (t + weight_of p u)) ups 0"

definition weightedPick :: "pool \<Rightarrow> nat list \<Rightarrow> rng \<Rightarrow> nat \<times> rng" where
  "weightedPick p ups r =
     (if total_weight p ups \<le> 0 then IntN (length ups) r
      else case IntN (nat (total_weight p ups)) r of (n, r') \<Rightarrow> (pick_index p (int n) 0 ups, r'))"

text \<open>
  The rotation by \<open>int(p.rr.Add(1)-1) % n\<close>: Go's \<open>%\<close> truncates towards zero, and an index
  below zero panics.
\<close>

definition rotate_by :: "int \<Rightarrow> 'a list \<Rightarrow> 'a list option" where
  "rotate_by c xs =
     (let n = int (length xs); start = c smod n;
          idx = map (\<lambda>i. (start + int i) smod n) [0..<length xs]
      in if list_ex (\<lambda>i. i < 0) idx then None else Some (map (\<lambda>i. xs ! nat i) idx))"

definition orderLocked :: "nat list \<Rightarrow> pool \<Rightarrow> rng \<Rightarrow> (nat list \<times> pool \<times> rng) option" where
  "orderLocked healthy p r =
     (if length healthy < 2 then Some (healthy, p, r)
      else if p_strategy p = StrategyFailover then Some (healthy, p, r)
      else if p_strategy p = StrategyRoundRobin then
        (let p' = p\<lparr>p_rr := p_rr p + 1\<rparr> in
         map_option (\<lambda>rotated. (rotated, p', r)) (rotate_by (int_of_u64 (p_rr p' - 1)) healthy))
      else if p_strategy p = StrategyLeastLatency then
        Some (sort_key (effectiveLatency p) healthy, p, r)
      else
        (case Shuffle healthy r of (out, r1) \<Rightarrow>
         case weightedPick p out r1 of (i, r2) \<Rightarrow>
           Some (if 0 < i then swap_at 0 i out else out, p, r2)))"

definition active_paths :: "pool \<Rightarrow> nat list \<Rightarrow> nat list" where
  "active_paths p us = List.map_filter (Active p) us"

definition secondary_paths :: "pool \<Rightarrow> nat list \<Rightarrow> nat list" where
  "secondary_paths p us =
     concat (map (\<lambda>u. filter (\<lambda>e. Some e \<noteq> Active p u \<and> Healthy p e) (u_Endpoints (p_ups p u))) us)"

definition down_paths :: "pool \<Rightarrow> nat list \<Rightarrow> nat list" where
  "down_paths p us = concat (map (\<lambda>u. filter (\<lambda>e. \<not> Healthy p e) (u_Endpoints (p_ups p u))) us)"

definition all_paths :: "pool \<Rightarrow> nat list \<Rightarrow> nat list" where
  "all_paths p us = concat (map (\<lambda>u. u_Endpoints (p_ups p u)) us)"

definition Plan :: "pool \<Rightarrow> rng \<Rightarrow> (nat list \<times> pool \<times> rng) option" where
  "Plan p r =
     (let drained = filter (Drained p) (p_upstreams p);
          healthy = filter (\<lambda>u. \<not> Drained p u \<and> Upstream_Healthy p u) (p_upstreams p);
          down = filter (\<lambda>u. \<not> Drained p u \<and> \<not> Upstream_Healthy p u) (p_upstreams p)
      in case orderLocked healthy p r of
           None \<Rightarrow> None
         | Some (ordered, p', r1) \<Rightarrow>
             case Shuffle (secondary_paths p ordered) r1 of (secondary, r2) \<Rightarrow>
             case Shuffle (down_paths p ordered @ all_paths p down) r2 of (lastResort, r3) \<Rightarrow>
               let plan = active_paths p ordered @ secondary @ lastResort in
               if plan = [] then
                 (case Shuffle (all_paths p drained) r3 of (plan', r4) \<Rightarrow> Some (plan', p', r4))
               else Some (plan, p', r3))"

section \<open>Health reports\<close>

text \<open>The moving average: \<open>time.Duration(float64(old)*(1-ewmaAlpha) + float64(new)*ewmaAlpha)\<close>.\<close>

definition ewma_mix :: "duration \<Rightarrow> duration \<Rightarrow> duration" where
  "ewma_mix old new = \<lfloor>f64 (f64 (f64 (of_int old) * f64 (4 / 5)) + f64 (f64 (of_int new) * f64 (1 / 5)))\<rfloor>"

definition record_latency :: "bool \<Rightarrow> duration \<Rightarrow> endpoint \<Rightarrow> endpoint" where
  "record_latency ok latency e =
     (if ok \<and> 0 < latency then
        (if e_latencyEWMA e = 0 then e\<lparr>e_latencyEWMA := latency\<rparr>
         else e\<lparr>e_latencyEWMA := ewma_mix (e_latencyEWMA e) latency\<rparr>)
      else e)"

text \<open>The locked part of a report on one endpoint: the new object, and the flip if any.\<close>

definition record_endpoint ::
  "int \<Rightarrow> int \<Rightarrow> instant \<Rightarrow> bool \<Rightarrow> goerr option \<Rightarrow> endpoint \<Rightarrow> endpoint \<times> (bool \<times> reason) option" where
  "record_endpoint rise fall now ok err e =
     (if ok then
        let e1 = e\<lparr>e_failures := 0, e_successes := wrap64 (e_successes e + 1)\<rparr> in
        if \<not> e_up e1 \<and> rise \<le> e_successes e1
        then (e1\<lparr>e_lastChange := Some now, e_lastErr := None\<rparr>, Some (True, Recovered))
        else (e1, None)
      else
        let e1 = e\<lparr>e_successes := 0, e_failures := wrap64 (e_failures e + 1),
                   e_lastErr := (if err = None then e_lastErr e else err)\<rparr> in
        if e_up e1 \<and> fall \<le> e_failures e1
        then (e1\<lparr>e_lastChange := Some now\<rparr>, Some (False, Because (e_lastErr e1)))
        else (e1, None))"

definition pool_record ::
  "nat \<Rightarrow> bool \<Rightarrow> duration \<Rightarrow> goerr option \<Rightarrow> bool \<Rightarrow> instant \<Rightarrow> pool \<Rightarrow> pool \<times> change option" where
  "pool_record e ok latency err affectsHealth now p =
     (let e0 = record_latency ok latency (p_eps p e) in
      if \<not> affectsHealth then (p\<lparr>p_eps := (p_eps p)(e := e0)\<rparr>, None)
      else case record_endpoint (p_rise p) (p_fall p) now ok err e0 of
        (e1, None) \<Rightarrow> (p\<lparr>p_eps := (p_eps p)(e := e1)\<rparr>, None)
      | (e1, Some (newUp, why)) \<Rightarrow>
          (p\<lparr>p_eps := (p_eps p)(e := e1\<lparr>e_up := newUp\<rparr>)\<rparr>, Some (e, newUp, why)))"

definition ReportProbe :: "nat \<Rightarrow> bool \<Rightarrow> duration \<Rightarrow> goerr option \<Rightarrow> instant \<Rightarrow> pool \<Rightarrow> pool \<times> change option" where
  "ReportProbe e ok latency err now p = pool_record e ok latency err True now p"

definition count_query :: "bool \<Rightarrow> endpoint \<Rightarrow> endpoint" where
  "count_query ok e =
     (let e1 = e\<lparr>e_totalQueries := e_totalQueries e + 1\<rparr>
      in if \<not> ok then e1\<lparr>e_totalFails := e_totalFails e1 + 1\<rparr> else e1)"

definition ReportQuery :: "nat \<Rightarrow> bool \<Rightarrow> duration \<Rightarrow> goerr option \<Rightarrow> instant \<Rightarrow> pool \<Rightarrow> pool \<times> change option" where
  "ReportQuery e ok latency err now p =
     pool_record e ok latency err (p_passive p) now
       (p\<lparr>p_eps := (p_eps p)(e := count_query ok (p_eps p e))\<rparr>)"

definition SetInitial :: "nat \<Rightarrow> bool \<Rightarrow> duration \<Rightarrow> goerr option \<Rightarrow> instant \<Rightarrow> pool \<Rightarrow> pool \<times> change option" where
  "SetInitial e up latency err now p =
     (let e0 = p_eps p e;
          e1 = (if up then e0\<lparr>e_successes := p_rise p, e_failures := 0, e_latencyEWMA := latency, e_lastErr := None\<rparr>
                else e0\<lparr>e_successes := 0, e_failures := p_fall p, e_lastErr := (if err = None then e_lastErr e0 else err)\<rparr>);
          e2 = e1\<lparr>e_lastChange := Some now\<rparr>;
          p' = p\<lparr>p_eps := (p_eps p)(e := e2\<lparr>e_up := up\<rparr>)\<rparr>
      in (p', if e_up e2 \<noteq> up
              then Some (e, up, if \<not> up \<and> err \<noteq> None then Because err else InitialProbe)
              else None))"

section \<open>Status\<close>

record endpoint_status =
  es_Name :: string
  es_Addr :: string
  es_Healthy :: bool
  es_LatencyMS :: rat
  es_Queries :: u64
  es_Failures :: u64
  es_LastChange :: "instant option"
  es_LastError :: "goerr option"
  es_ConsecFails :: int
  es_ConsecOKs :: int
  es_IsPreferred :: bool
  es_UpstreamName :: string

record upstream_status =
  us_Name :: string
  us_Weight :: int
  us_Healthy :: bool
  us_Drained :: bool
  us_Endpoints :: "endpoint_status list"

definition endpoint_view :: "pool \<Rightarrow> nat \<Rightarrow> nat \<Rightarrow> endpoint_status" where
  "endpoint_view p u i =
     (let e = p_eps p i in
      \<lparr>es_Name = e_Name e, es_Addr = e_Addr e, es_Healthy = e_up e,
       es_LatencyMS = f64 (f64 (of_int (e_latencyEWMA e)) / f64 1000000),
       es_Queries = e_totalQueries e, es_Failures = e_totalFails e, es_LastChange = e_lastChange e,
       es_LastError = e_lastErr e, es_ConsecFails = e_failures e, es_ConsecOKs = e_successes e,
       es_IsPreferred = (Active p u = Some i), es_UpstreamName = u_Name (p_ups p u)\<rparr>)"

definition Status :: "pool \<Rightarrow> upstream_status list" where
  "Status p = map (\<lambda>u. \<lparr>us_Name = u_Name (p_ups p u), us_Weight = weight_of p u, us_Healthy = Upstream_Healthy p u,
     us_Drained = Drained p u, us_Endpoints = map (endpoint_view p u) (u_Endpoints (p_ups p u))\<rparr>) (p_upstreams p)"


section \<open>The heap, and the configuration it represents\<close>

text \<open>The configuration entries the pool's members stand for: the abstraction of a pool.\<close>

definition endpoint_entry :: "endpoint \<Rightarrow> endpoint_cfg" where
  "endpoint_entry e = \<lparr>ec_Name = e_Name e, ec_Addr = e_Addr e\<rparr>"

definition upstream_entry :: "pool \<Rightarrow> nat \<Rightarrow> upstream_cfg" where
  "upstream_entry p u = \<lparr>uc_Name = u_Name (p_ups p u), uc_Weight = u_Weight (p_ups p u),
     uc_Endpoints = map (\<lambda>e. endpoint_entry (p_eps p e)) (u_Endpoints (p_ups p u))\<rparr>"

definition pool_entries :: "pool \<Rightarrow> upstream_cfg list" where
  "pool_entries p = map (upstream_entry p) (p_upstreams p)"

text \<open>
  The shape of the heap: the members are distinct allocated objects, the flat endpoint list
  is the concatenation of the members' own, and every endpoint points back at its owner.
\<close>

definition heap_ok :: "pool \<Rightarrow> bool" where
  "heap_ok p \<longleftrightarrow> distinct (p_upstreams p) \<and> (\<forall>u \<in> set (p_upstreams p). u < p_unext p) \<and>
     p_endpoints p = all_paths p (p_upstreams p) \<and> distinct (p_endpoints p) \<and>
     (\<forall>e \<in> set (p_endpoints p). e < p_enext p) \<and>
     (\<forall>u \<in> set (p_upstreams p). \<forall>e \<in> set (u_Endpoints (p_ups p u)). e_Upstream (p_eps p e) = u)"

definition pool_wf :: "pool \<Rightarrow> bool" where
  "pool_wf p \<longleftrightarrow> heap_ok p \<and> wf_upstreams (pool_entries p) \<and> p_upstreams p \<noteq> [] \<and> ValidStrategy (p_strategy p)"

lemma new_endpoints_frame [frame_simps]:
  "p_unext (new_endpoints u ecs p) = p_unext p" "p_upstreams (new_endpoints u ecs p) = p_upstreams p"
  "p_endpoints (new_endpoints u ecs p) = p_endpoints p" "p_strategy (new_endpoints u ecs p) = p_strategy p"
  "p_rise (new_endpoints u ecs p) = p_rise p" "p_fall (new_endpoints u ecs p) = p_fall p"
  "p_passive (new_endpoints u ecs p) = p_passive p" "p_rr (new_endpoints u ecs p) = p_rr p"
  "p_enext (new_endpoints u ecs p) = p_enext p + length ecs"
  by (induction u ecs p rule: new_endpoints.induct) simp_all

lemma new_endpoints_old: "i < p_enext p \<Longrightarrow> p_eps (new_endpoints u ecs p) i = p_eps p i"
  by (induction u ecs p rule: new_endpoints.induct) simp_all

lemma new_endpoints_ups:
  "p_ups (new_endpoints u ecs p) = (p_ups p)(u := (p_ups p u)\<lparr>u_Endpoints :=
     u_Endpoints (p_ups p u) @ [p_enext p ..< p_enext p + length ecs]\<rparr>)"
proof (induction u ecs p rule: new_endpoints.induct)
  case (2 u ec ecs p)
  have "[p_enext p ..< p_enext p + length (ec # ecs)] = p_enext p # [p_enext p + 1 ..< p_enext p + 1 + length ecs]"
    by (simp add: upt_conv_Cons del: upt_Suc)
  then show ?case using 2 by (simp add: fun_eq_iff del: upt_Suc)
qed simp

lemma new_endpoints_nth:
  "i < length ecs \<Longrightarrow> p_eps (new_endpoints u ecs p) (p_enext p + i) = fresh_endpoint u (ecs ! i)"
proof (induction u ecs p arbitrary: i rule: new_endpoints.induct)
  case (2 u ec ecs p)
  show ?case
  proof (cases i)
    case (Suc j)
    with "2.prems" "2.IH" [of j] show ?thesis by simp
  qed (simp add: new_endpoints_old)
qed simp

lemma append_upstream_fst [simp]: "fst (append_upstream uc p) = p_unext p"
  by (simp add: append_upstream_def buildUpstream_def Let_def)

lemma append_upstream_frame [frame_simps]:
  "p_unext (snd (append_upstream uc p)) = p_unext p + 1"
  "p_enext (snd (append_upstream uc p)) = p_enext p + length (uc_Endpoints uc)"
  "p_upstreams (snd (append_upstream uc p)) = p_upstreams p @ [p_unext p]"
  "p_endpoints (snd (append_upstream uc p)) = p_endpoints p @ [p_enext p ..< p_enext p + length (uc_Endpoints uc)]"
  "p_strategy (snd (append_upstream uc p)) = p_strategy p"
  "p_rise (snd (append_upstream uc p)) = p_rise p" "p_fall (snd (append_upstream uc p)) = p_fall p"
  "p_passive (snd (append_upstream uc p)) = p_passive p" "p_rr (snd (append_upstream uc p)) = p_rr p"
  "u \<noteq> p_unext p \<Longrightarrow> p_ups (snd (append_upstream uc p)) u = p_ups p u"
  "u_Endpoints (p_ups (snd (append_upstream uc p)) (p_unext p)) = [p_enext p ..< p_enext p + length (uc_Endpoints uc)]"
  "e < p_enext p \<Longrightarrow> p_eps (snd (append_upstream uc p)) e = p_eps p e"
  by (simp_all add: append_upstream_def buildUpstream_def Let_def frame_simps new_endpoints_ups new_endpoints_old)

lemma append_upstream_fresh:
  assumes "i < length (uc_Endpoints uc)"
  shows "p_eps (snd (append_upstream uc p)) (p_enext p + i) = fresh_endpoint (p_unext p) (uc_Endpoints uc ! i)"
  using new_endpoints_nth [OF assms, of "p_unext p" "p\<lparr>p_ups := _, p_unext := _\<rparr>"]
  by (simp add: append_upstream_def buildUpstream_def Let_def)

lemma upstream_entry_new: "upstream_entry (snd (append_upstream uc p)) (p_unext p) = uc"
proof -
  have "map (\<lambda>e. endpoint_entry (p_eps (snd (append_upstream uc p)) e)) [p_enext p ..< p_enext p + length (uc_Endpoints uc)]
      = uc_Endpoints uc"
    by (rule nth_equalityI) (simp_all add: append_upstream_fresh fresh_endpoint_def endpoint_entry_def)
  then show ?thesis
    by (simp add: upstream_entry_def frame_simps)
      (simp add: append_upstream_def buildUpstream_def Let_def frame_simps new_endpoints_ups)
qed

lemma upstream_entry_cong:
  "p_ups p' u = p_ups p u \<Longrightarrow> (\<And>e. e \<in> set (u_Endpoints (p_ups p u)) \<Longrightarrow> endpoint_entry (p_eps p' e) = endpoint_entry (p_eps p e)) \<Longrightarrow>
     upstream_entry p' u = upstream_entry p u"
  by (simp add: upstream_entry_def)

lemma heap_ok_endpoint:
  "heap_ok p \<Longrightarrow> u \<in> set (p_upstreams p) \<Longrightarrow> e \<in> set (u_Endpoints (p_ups p u)) \<Longrightarrow> e < p_enext p"
  by (auto simp: heap_ok_def all_paths_def)

lemma append_upstream_entries:
  assumes "heap_ok p"
  shows "pool_entries (snd (append_upstream uc p)) = pool_entries p @ [uc]"
proof -
  have "upstream_entry (snd (append_upstream uc p)) u = upstream_entry p u" if "u \<in> set (p_upstreams p)" for u
    using assms that heap_ok_endpoint [OF assms that]
    by (intro upstream_entry_cong) (auto simp: frame_simps heap_ok_def)
  then show ?thesis by (simp add: pool_entries_def frame_simps upstream_entry_new)
qed

lemma append_upstream_heap_ok:
  assumes "heap_ok p"
  shows "heap_ok (snd (append_upstream uc p))"
proof -
  let ?q = "snd (append_upstream uc p)"
  have old: "p_ups ?q u = p_ups p u" if "u \<in> set (p_upstreams p)" for u
    using assms that by (auto simp: frame_simps heap_ok_def)
  then have "all_paths ?q (p_upstreams ?q) = all_paths p (p_upstreams p) @ [p_enext p ..< p_enext p + length (uc_Endpoints uc)]"
    by (simp add: all_paths_def frame_simps cong: map_cong)
  moreover have "e_Upstream (p_eps ?q e) = u" if "u \<in> set (p_upstreams ?q)" "e \<in> set (u_Endpoints (p_ups ?q u))" for u e
  proof (cases "u = p_unext p")
    case True
    with that obtain i where "e = p_enext p + i" "i < length (uc_Endpoints uc)"
      by (auto simp: frame_simps) (metis add_diff_inverse_nat add_less_cancel_left not_le)
    with True show ?thesis by (simp add: append_upstream_fresh fresh_endpoint_def)
  next
    case False
    with that have u: "u \<in> set (p_upstreams p)" "e \<in> set (u_Endpoints (p_ups p u))"
      by (auto simp: frame_simps)
    with assms heap_ok_endpoint [OF assms u] show ?thesis by (simp add: frame_simps heap_ok_def)
  qed
  moreover have "x < p_enext p" if "x \<in> set (p_endpoints p)" for x using assms that by (simp add: heap_ok_def)
  moreover have "u < p_unext p" if "u \<in> set (p_upstreams p)" for u using assms that by (simp add: heap_ok_def)
  ultimately show ?thesis using assms
    by (simp add: heap_ok_def frame_simps) (fastforce dest: leD)
qed

lemma append_upstream_wf:
  assumes "pool_wf p" "wf_upstreams (pool_entries p @ [uc])"
  shows "pool_wf (snd (append_upstream uc p))"
  using assms by (simp add: pool_wf_def append_upstream_heap_ok append_upstream_entries frame_simps)

section \<open>Every operation keeps the pool well formed\<close>

lemma New_entries:
  "heap_ok (New cfg) \<and> pool_entries (New cfg) = c_Upstreams cfg \<and> p_strategy (New cfg) = c_Strategy cfg \<and>
   p_rise (New cfg) = hc_Rise (c_Health cfg) \<and> p_fall (New cfg) = hc_Fall (c_Health cfg) \<and>
   p_passive (New cfg) = hc_Passive (c_Health cfg) \<and> p_rr (New cfg) = 0"
proof -
  let ?f = "fold (\<lambda>uc p. snd (append_upstream uc p))"
  have "heap_ok (?f ucs p) \<and> pool_entries (?f ucs p) = pool_entries p @ ucs \<and> p_strategy (?f ucs p) = p_strategy p \<and>
      p_rise (?f ucs p) = p_rise p \<and> p_fall (?f ucs p) = p_fall p \<and> p_passive (?f ucs p) = p_passive p \<and>
      p_rr (?f ucs p) = p_rr p" if "heap_ok p" for ucs p
    using that
    by (induction ucs arbitrary: p) (simp_all add: append_upstream_heap_ok append_upstream_entries frame_simps)
  moreover define p0 where "p0 = New (cfg\<lparr>c_Upstreams := []\<rparr>)"
  moreover have "heap_ok p0" by (simp add: p0_def New_def heap_ok_def all_paths_def)
  moreover have "New cfg = ?f (c_Upstreams cfg) p0" by (simp add: p0_def New_def)
  moreover have "pool_entries p0 = [] \<and> p_strategy p0 = c_Strategy cfg \<and> p_rise p0 = hc_Rise (c_Health cfg) \<and>
      p_fall p0 = hc_Fall (c_Health cfg) \<and> p_passive p0 = hc_Passive (c_Health cfg) \<and> p_rr p0 = 0"
    by (simp add: p0_def New_def pool_entries_def)
  ultimately show ?thesis by simp
qed

lemma New_wf [inv_intros]: "valid_config cfg \<Longrightarrow> pool_wf (New cfg)"
  using New_entries [of cfg] by (auto simp: pool_wf_def valid_config_def pool_entries_def)

lemma find_SomeD: "find P xs = Some x \<Longrightarrow> x \<in> set xs \<and> P x"
  by (induction xs) (auto split: if_splits)

lemma address_conflict_None:
  "address_conflict p es ecs = None \<longleftrightarrow> (\<forall>e \<in> set es. e_Addr (p_eps p e) \<notin> ec_Addr ` set ecs)"
proof (induction p es ecs rule: address_conflict.induct)
  case (2 p e es ecs)
  show ?case
  proof (cases "find (\<lambda>ec. e_Addr (p_eps p e) = ec_Addr ec) ecs")
    case None
    then have "e_Addr (p_eps p e) \<notin> ec_Addr ` set ecs" by (auto simp: find_None_iff)
    with None 2 show ?thesis by simp
  next
    case (Some ec)
    with find_SomeD [OF this] show ?thesis by auto
  qed
qed simp

lemma add_conflict_None:
  "add_conflict p uc us = None \<longleftrightarrow>
     (\<forall>u \<in> set us. u_Name (p_ups p u) \<noteq> uc_Name uc \<and>
        (\<forall>e \<in> set (u_Endpoints (p_ups p u)). e_Addr (p_eps p e) \<notin> ec_Addr ` set (uc_Endpoints uc)))"
proof (induction p uc us rule: add_conflict.induct)
  case (2 p uc u us)
  then show ?case
    using address_conflict_None [of p "u_Endpoints (p_ups p u)" "uc_Endpoints uc"]
    by (cases "address_conflict p (u_Endpoints (p_ups p u)) (uc_Endpoints uc)") simp_all
qed simp

text \<open>In terms of the entries: the name is free and none of the addresses is in use.\<close>

lemma all_addrs_append [simp]: "all_addrs (us @ vs) = all_addrs us @ all_addrs vs"
  by (simp add: all_addrs_def)

lemma wf_upstreams_snoc:
  "wf_upstreams (us @ [uc]) \<longleftrightarrow> wf_upstreams us \<and> wf_upstreams [uc] \<and> uc_Name uc \<notin> uc_Name ` set us \<and>
     set (all_addrs us) \<inter> ec_Addr ` set (uc_Endpoints uc) = {}"
  unfolding wf_upstreams_def all_addrs_append by auto

lemma entries_names: "uc_Name ` set (pool_entries p) = (\<lambda>u. u_Name (p_ups p u)) ` set (p_upstreams p)"
  by (simp add: pool_entries_def image_image upstream_entry_def)

lemma all_addrs_entries: "all_addrs (map (upstream_entry p) us) = map (\<lambda>e. e_Addr (p_eps p e)) (all_paths p us)"
  by (induction us) (simp_all add: all_paths_def upstream_entry_def endpoint_entry_def)

lemma add_conflict_entries:
  "add_conflict p uc (p_upstreams p) = None \<longleftrightarrow>
     uc_Name uc \<notin> uc_Name ` set (pool_entries p) \<and>
     set (all_addrs (pool_entries p)) \<inter> ec_Addr ` set (uc_Endpoints uc) = {}"
  unfolding add_conflict_None entries_names pool_entries_def [symmetric] all_addrs_entries [of p "p_upstreams p", folded pool_entries_def]
  by (auto simp: all_paths_def disjoint_iff image_iff eq_commute [of "uc_Name uc"])

lemma Add_Inr:
  "Add uc p = Inr (u, p') \<longleftrightarrow>
     uc_Name uc \<notin> uc_Name ` set (pool_entries p) \<and>
     set (all_addrs (pool_entries p)) \<inter> ec_Addr ` set (uc_Endpoints uc) = {} \<and> append_upstream uc p = (u, p')"
proof (cases "add_conflict p uc (p_upstreams p)")
  case None
  then show ?thesis using add_conflict_entries [of p uc] by (simp add: Add_def)
next
  case (Some err)
  then have "\<not> (uc_Name uc \<notin> uc_Name ` set (pool_entries p) \<and>
     set (all_addrs (pool_entries p)) \<inter> ec_Addr ` set (uc_Endpoints uc) = {})"
    using add_conflict_entries [of p uc] by simp
  then show ?thesis using Some by (auto simp: Add_def)
qed

lemma Add_wf [inv_intros]:
  assumes "pool_wf p" "wf_upstreams [uc]" "Add uc p = Inr (u, p')"
  shows "pool_wf p' \<and> pool_entries p' = pool_entries p @ [uc]"
proof -
  have p': "p' = snd (append_upstream uc p)" "wf_upstreams (pool_entries p @ [uc])"
    using assms by (auto simp: Add_Inr wf_upstreams_snoc pool_wf_def)
  then show ?thesis using assms(1) append_upstream_wf append_upstream_entries by (auto simp: pool_wf_def)
qed

text \<open>What a removal leaves: the same objects, without the first member of that name.\<close>

lemma index_of_split:
  assumes "index_of p name \<noteq> length (p_upstreams p)"
  shows "p_upstreams p = take (index_of p name) (p_upstreams p) @ p_upstreams p ! index_of p name # drop (index_of p name + 1) (p_upstreams p)"
    "u_Name (p_ups p (p_upstreams p ! index_of p name)) = name" "index_of p name < length (p_upstreams p)"
proof -
  have "index_of p name \<le> length (p_upstreams p)" by (simp add: index_of_def length_takeWhile_le)
  with assms show lt: "index_of p name < length (p_upstreams p)" by simp
  then show "p_upstreams p = take (index_of p name) (p_upstreams p) @ p_upstreams p ! index_of p name # drop (index_of p name + 1) (p_upstreams p)"
    by (simp add: id_take_nth_drop)
  from lt show "u_Name (p_ups p (p_upstreams p ! index_of p name)) = name"
    using nth_length_takeWhile [of "\<lambda>u. u_Name (p_ups p u) \<noteq> name" "p_upstreams p"] by (simp add: index_of_def)
qed

lemma Remove_Inr:
  assumes "pool_wf p" "Remove name p = Inr p'"
  shows "\<exists>us u vs. p_upstreams p = us @ u # vs \<and> u_Name (p_ups p u) = name \<and> us @ vs \<noteq> [] \<and>
    p' = p\<lparr>p_upstreams := us @ vs, p_endpoints := all_paths p (us @ vs)\<rparr>"
proof -
  let ?i = "index_of p name"
  define us u vs where "us = take ?i (p_upstreams p)" and "u = p_upstreams p ! ?i" and "vs = drop (?i + 1) (p_upstreams p)"
  from assms(2) have ne: "?i \<noteq> length (p_upstreams p)" "length (p_upstreams p) \<noteq> 1"
    and p': "p' = p\<lparr>p_upstreams := us @ vs, p_endpoints := filter (\<lambda>e. e_Upstream (p_eps p e) \<noteq> u) (p_endpoints p)\<rparr>"
    by (auto simp: Remove_def Let_def us_def u_def vs_def split: if_splits)
  note sp = index_of_split [OF ne(1), folded us_def u_def vs_def]
  have h: "heap_ok p" using assms(1) by (simp add: pool_wf_def)
  have d: "distinct (us @ u # vs)" "set (us @ u # vs) = set (p_upstreams p)" using h sp(1) by (simp_all add: heap_ok_def)
  have own: "e_Upstream (p_eps p e) = w" if "w \<in> set (us @ u # vs)" "e \<in> set (u_Endpoints (p_ups p w))" for w e
    using h that unfolding d(2) by (simp add: heap_ok_def)
  have keep: "filter (\<lambda>e. e_Upstream (p_eps p e) \<noteq> u) (all_paths p ws) = all_paths p ws"
    if "u \<notin> set ws" "set ws \<subseteq> set (us @ u # vs)" for ws
    using that own unfolding filter_id_conv all_paths_def by (simp add: subset_iff) blast
  have "filter (\<lambda>e. e_Upstream (p_eps p e) \<noteq> u) (all_paths p [u]) = []"
    using own by (simp add: all_paths_def filter_empty_conv)
  then have "filter (\<lambda>e. e_Upstream (p_eps p e) \<noteq> u) (all_paths p (us @ [u] @ vs)) = all_paths p us @ all_paths p vs"
    using d(1) keep [of us] keep [of vs] by (simp add: all_paths_def subset_iff)
  then have "filter (\<lambda>e. e_Upstream (p_eps p e) \<noteq> u) (p_endpoints p) = all_paths p (us @ vs)"
    using h sp(1) by (simp add: heap_ok_def all_paths_def)
  moreover have "us @ vs \<noteq> []" using ne(2) arg_cong [OF sp(1), of length] by auto
  ultimately show ?thesis using sp(1,2) p' by (intro exI [of _ us] exI [of _ u] exI [of _ vs]) simp
qed

lemma entries_upd_members [simp]:
  "upstream_entry (p\<lparr>p_upstreams := us, p_endpoints := es\<rparr>) = upstream_entry p"
  "all_paths (p\<lparr>p_upstreams := us, p_endpoints := es\<rparr>) = all_paths p"
  by (simp_all add: fun_eq_iff upstream_entry_def all_paths_def)

lemma wf_upstreams_remove: "wf_upstreams (us @ u # vs) \<Longrightarrow> wf_upstreams (us @ vs)"
  unfolding wf_upstreams_def all_addrs_append by auto

lemma all_paths_append [simp]: "all_paths p (us @ vs) = all_paths p us @ all_paths p vs"
  by (simp add: all_paths_def)

lemma filter_distinct_key:
  assumes "distinct (map f (xs @ y # ys))" "f y = k"
  shows "filter (\<lambda>x. f x \<noteq> k) (xs @ y # ys) = xs @ ys"
proof -
  have "filter (\<lambda>x. f x \<noteq> k) zs = zs" if "f y \<notin> f ` set zs" for zs
    using that assms(2) by (intro filter_True) (metis imageI)
  from this [of xs] this [of ys] assms show ?thesis by simp
qed

lemma Remove_wf [inv_intros]:
  assumes "pool_wf p" "Remove name p = Inr p'"
  shows "pool_wf p' \<and> pool_entries p' = filter (\<lambda>uc. uc_Name uc \<noteq> name) (pool_entries p)"
proof -
  from Remove_Inr [OF assms] obtain us u vs where sp: "p_upstreams p = us @ u # vs" "u_Name (p_ups p u) = name"
    "us @ vs \<noteq> []" and p': "p' = p\<lparr>p_upstreams := us @ vs, p_endpoints := all_paths p (us @ vs)\<rparr>" by blast
  have ent: "pool_entries p = map (upstream_entry p) us @ upstream_entry p u # map (upstream_entry p) vs"
    "pool_entries p' = map (upstream_entry p) us @ map (upstream_entry p) vs"
    by (simp_all add: pool_entries_def sp(1) p')
  have w: "wf_upstreams (pool_entries p)" "heap_ok p" using assms(1) by (simp_all add: pool_wf_def)
  have "distinct (map uc_Name (pool_entries p))" using w(1) unfolding wf_upstreams_def by blast
  moreover have "uc_Name (upstream_entry p u) = name" using sp(2) by (simp add: upstream_entry_def)
  ultimately have "filter (\<lambda>uc. uc_Name uc \<noteq> name) (pool_entries p) = pool_entries p'"
    unfolding ent by (rule filter_distinct_key)
  moreover have "wf_upstreams (pool_entries p')" using wf_upstreams_remove w(1) unfolding ent .
  moreover have "p_endpoints p = all_paths p us @ all_paths p [u] @ all_paths p vs"
    using w(2) sp(1) by (simp add: heap_ok_def all_paths_def)
  then have "heap_ok p'" using w(2) sp(1) unfolding heap_ok_def p' by auto
  moreover have "p_upstreams p' \<noteq> []" "p_strategy p' = p_strategy p" using sp(3) p' by simp_all
  ultimately show ?thesis using assms(1) by (simp add: pool_wf_def)
qed

text \<open>Operations that touch only the health of endpoints, the drain flags, the strategy or the counter.\<close>

lemma pool_wf_cong:
  assumes "p_upstreams p' = p_upstreams p" "p_endpoints p' = p_endpoints p" "p_enext p' = p_enext p" "p_unext p' = p_unext p"
    and "\<And>u. (p_ups p' u)\<lparr>u_drained := False\<rparr> = (p_ups p u)\<lparr>u_drained := False\<rparr>"
    and "\<And>e. endpoint_entry (p_eps p' e) = endpoint_entry (p_eps p e) \<and> e_Upstream (p_eps p' e) = e_Upstream (p_eps p e)"
    and "ValidStrategy (p_strategy p')"
    and "pool_wf p"
  shows "pool_wf p' \<and> pool_entries p' = pool_entries p"
proof -
  have u: "u_Endpoints (p_ups p' u) = u_Endpoints (p_ups p u)" "u_Name (p_ups p' u) = u_Name (p_ups p u)"
    "u_Weight (p_ups p' u) = u_Weight (p_ups p u)" for u
    using arg_cong [OF assms(5) [of u], of u_Endpoints] arg_cong [OF assms(5) [of u], of u_Name]
      arg_cong [OF assms(5) [of u], of u_Weight] by simp_all
  then have "upstream_entry p' = upstream_entry p" "all_paths p' = all_paths p"
    using assms(6) by (simp_all add: fun_eq_iff upstream_entry_def all_paths_def)
  then show ?thesis using assms u unfolding pool_wf_def heap_ok_def pool_entries_def by auto
qed

text \<open>What no report on an endpoint changes.\<close>

definition same_identity :: "endpoint \<Rightarrow> endpoint \<Rightarrow> bool" where
  "same_identity e e' \<longleftrightarrow> e_Name e' = e_Name e \<and> e_Addr e' = e_Addr e \<and> e_Upstream e' = e_Upstream e"

lemma record_latency_frame [frame_simps]:
  "e_up (record_latency ok l e) = e_up e" "e_successes (record_latency ok l e) = e_successes e"
  "e_failures (record_latency ok l e) = e_failures e" "e_lastErr (record_latency ok l e) = e_lastErr e"
  "e_totalQueries (record_latency ok l e) = e_totalQueries e" "e_totalFails (record_latency ok l e) = e_totalFails e"
  "same_identity e (record_latency ok l e)"
  by (simp_all add: record_latency_def same_identity_def)

lemma record_endpoint_frame [frame_simps]:
  "same_identity e (fst (record_endpoint rise fall now ok err e))"
  "e_totalQueries (fst (record_endpoint rise fall now ok err e)) = e_totalQueries e"
  "e_totalFails (fst (record_endpoint rise fall now ok err e)) = e_totalFails e"
  "e_up (fst (record_endpoint rise fall now ok err e)) = e_up e"
  by (simp_all add: record_endpoint_def same_identity_def Let_def)

text \<open>One report, as the object it writes and the call it makes.\<close>

definition reported :: "int \<Rightarrow> int \<Rightarrow> bool \<Rightarrow> duration \<Rightarrow> goerr option \<Rightarrow> bool \<Rightarrow> instant \<Rightarrow> endpoint \<Rightarrow> endpoint" where
  "reported rise fall ok l err aff now e =
     (if \<not> aff then record_latency ok l e
      else let r = record_endpoint rise fall now ok err (record_latency ok l e)
        in (fst r)\<lparr>e_up := (case snd r of None \<Rightarrow> e_up e | Some (newUp, why) \<Rightarrow> newUp)\<rparr>)"

lemma fst_pool_record:
  "fst (pool_record e ok l err aff now p) =
     p\<lparr>p_eps := (p_eps p)(e := reported (p_rise p) (p_fall p) ok l err aff now (p_eps p e))\<rparr>"
proof -
  let ?r = "record_endpoint (p_rise p) (p_fall p) now ok err (record_latency ok l (p_eps p e))"
  have "(fst ?r)\<lparr>e_up := e_up (p_eps p e)\<rparr> = fst ?r"
    using record_endpoint_frame(4) [of "p_rise p" "p_fall p" now ok err "record_latency ok l (p_eps p e)"]
    by (cases "fst ?r") (simp add: frame_simps)
  then show ?thesis by (simp add: pool_record_def reported_def Let_def split_beta split: option.splits)
qed

lemma reported_frame [frame_simps]:
  "same_identity e (reported rise fall ok l err aff now e)"
  "e_totalQueries (reported rise fall ok l err aff now e) = e_totalQueries e"
  "e_totalFails (reported rise fall ok l err aff now e) = e_totalFails e"
proof -
  let ?l = "record_latency ok l e"
  have "same_identity e (fst (record_endpoint rise fall now ok err ?l))"
    using record_endpoint_frame(1) [of ?l rise fall now ok err] record_latency_frame(7) [of e ok l]
    by (simp add: same_identity_def)
  then show "same_identity e (reported rise fall ok l err aff now e)"
    using record_latency_frame(7) [of e ok l] by (simp add: reported_def same_identity_def Let_def)
qed (simp_all add: reported_def frame_simps Let_def)

lemma pool_record_frame:
  "\<exists>e'. fst (pool_record e ok l err aff now p) = p\<lparr>p_eps := (p_eps p)(e := e')\<rparr> \<and> same_identity (p_eps p e) e'"
  unfolding fst_pool_record using reported_frame(1) by blast

lemma ReportProbe_frame:
  "\<exists>e'. fst (ReportProbe e ok l err now p) = p\<lparr>p_eps := (p_eps p)(e := e')\<rparr> \<and> same_identity (p_eps p e) e'"
  using pool_record_frame unfolding ReportProbe_def by blast

lemma ReportQuery_frame:
  "\<exists>e'. fst (ReportQuery e ok l err now p) = p\<lparr>p_eps := (p_eps p)(e := e')\<rparr> \<and> same_identity (p_eps p e) e'"
proof -
  let ?q = "p\<lparr>p_eps := (p_eps p)(e := count_query ok (p_eps p e))\<rparr>"
  from pool_record_frame [of e ok l err "p_passive p" now ?q] obtain e' where
    "fst (ReportQuery e ok l err now p) = ?q\<lparr>p_eps := (p_eps ?q)(e := e')\<rparr>" "same_identity (p_eps ?q e) e'"
    unfolding ReportQuery_def by blast
  moreover have "same_identity (p_eps p e) (count_query ok (p_eps p e))"
    by (simp add: count_query_def same_identity_def Let_def)
  ultimately show ?thesis by (intro exI [of _ e']) (simp add: same_identity_def)
qed

lemma SetInitial_frame:
  "\<exists>e'. fst (SetInitial e up l err now p) = p\<lparr>p_eps := (p_eps p)(e := e')\<rparr> \<and> same_identity (p_eps p e) e'"
  unfolding SetInitial_def Let_def fst_conv by (rule exI, rule conjI, rule refl) (simp add: same_identity_def)

lemma endpoint_update_wf [inv_intros]:
  assumes "pool_wf p" "\<exists>e'. p' = p\<lparr>p_eps := (p_eps p)(e := e')\<rparr> \<and> same_identity (p_eps p e) e'"
  shows "pool_wf p' \<and> pool_entries p' = pool_entries p"
  using assms by (intro pool_wf_cong) (auto simp: same_identity_def endpoint_entry_def pool_wf_def)

lemma SetDrained_wf [inv_intros]: "pool_wf p \<Longrightarrow> pool_wf (SetDrained u v p) \<and> pool_entries (SetDrained u v p) = pool_entries p"
  by (rule pool_wf_cong [of _ p]) (simp_all add: SetDrained_def pool_wf_def)

lemma SetStrategy_wf [inv_intros]:
  "pool_wf p \<Longrightarrow> SetStrategy name p = Inr p' \<Longrightarrow> pool_wf p' \<and> pool_entries p' = pool_entries p"
  by (rule pool_wf_cong [of _ p]) (auto simp: SetStrategy_def split: if_splits)

lemma orderLocked_pool:
  "orderLocked healthy p r = Some (out, p', r') \<Longrightarrow> p' = p \<or> p' = p\<lparr>p_rr := p_rr p + 1\<rparr>"
  by (auto simp: orderLocked_def Let_def split: if_splits prod.splits)

lemma Plan_pool: "Plan p r = Some (plan, p', r') \<Longrightarrow> p' = p \<or> p' = p\<lparr>p_rr := p_rr p + 1\<rparr>"
  by (auto simp: Plan_def Let_def split: if_splits prod.splits option.splits dest!: orderLocked_pool)

lemma Plan_wf [inv_intros]:
  assumes "pool_wf p" "Plan p r = Some (plan, p', r')"
  shows "pool_wf p' \<and> pool_entries p' = pool_entries p"
  using assms(1) Plan_pool [OF assms(2)] by (intro pool_wf_cong) (auto simp: pool_wf_def)

end
