(* ===== verification/Pool_Plan.thy ===== *)
theory Pool_Plan
  imports Pool
begin

text \<open>
  Selection in package \<open>internal/pool\<close>: every strategy permutes the healthy upstreams, the
  plan lists each eligible path once in three tiers, and what each strategy puts first.
\<close>

section \<open>Selection orders\<close>

lemma mset_concat_map:
  assumes "mset us = mset vs"
  shows "mset (concat (map f us)) = mset (concat (map f vs))"
proof -
  have "mset (map (mset \<circ> f) us) = mset (map (mset \<circ> f) vs)" unfolding mset_map assms ..
  then show ?thesis by (simp add: mset_concat sum_mset_sum_list [symmetric])
qed

lemma mset_partition: "mset (filter P xs) + mset (filter (\<lambda>x. \<not> P x) xs) = mset xs"
  by (induction xs) simp_all

text \<open>What every selection strategy promises the plan: a permutation of the candidates.\<close>

locale selection =
  fixes order :: "nat list \<Rightarrow> pool \<Rightarrow> rng \<Rightarrow> (nat list \<times> pool \<times> rng) option"
  assumes permutes: "order us p r = Some (out, p', r') \<Longrightarrow> mset out = mset us"
begin

lemma same_set: "order us p r = Some (out, p', r') \<Longrightarrow> set out = set us"
  using permutes by (metis set_mset_mset)

lemma distinct_iff: "order us p r = Some (out, p', r') \<Longrightarrow> distinct out \<longleftrightarrow> distinct us"
  using permutes by (metis mset_eq_imp_distinct_iff)

lemma perm_concat: "order us p r = Some (out, p', r') \<Longrightarrow> mset (concat (map f out)) = mset (concat (map f us))"
  by (rule mset_concat_map, rule permutes)

end

lemma smod_nonneg: "0 \<le> c \<Longrightarrow> 0 < n \<Longrightarrow> c smod n = c mod (n :: int)"
  by (simp add: signed_modulo_int_def sgn_if)

lemma rotate_by_nonneg:
  assumes "0 \<le> c" "xs \<noteq> []"
  shows "rotate_by c xs = Some (rotate (nat (c mod int (length xs))) xs)"
proof -
  let ?n = "int (length xs)"
  have n: "0 < ?n" using assms(2) by simp
  define k where "k = nat (c mod ?n)"
  have k: "c mod ?n = int k" using n by (simp add: k_def)
  have idx: "(c smod ?n + int i) smod ?n = int ((k + i) mod length xs)" for i
    using assms(1) n by (simp add: smod_nonneg k zmod_int)
  have "map (\<lambda>i. xs ! nat (int ((k + i) mod length xs))) [0..<length xs] = rotate k xs"
    by (rule nth_equalityI) (simp_all add: nth_rotate)
  then show ?thesis by (simp add: rotate_by_def idx Let_def list_ex_iff comp_def flip: k_def)
qed

lemma rotate_by_negative:
  assumes "c < 0" "xs \<noteq> []"
  shows "rotate_by c xs = (if int (length xs) dvd c then Some xs else None)"
proof (cases "int (length xs) dvd c")
  case True
  then have "c smod int (length xs) = 0" by (simp add: signed_modulo_int_def)
  moreover have k: "int i smod int (length xs) = int i" if "i < length xs" for i
    using that assms(2) smod_nonneg [of "int i" "int (length xs)"] by simp
  moreover from k have "map (\<lambda>i. xs ! nat (int i smod int (length xs))) [0..<length xs] = map ((!) xs) [0..<length xs]"
    by (intro map_cong) simp_all
  ultimately show ?thesis using True by (simp add: rotate_by_def Let_def list_ex_iff map_nth comp_def)
next
  case False
  let ?n = "int (length xs)"
  have n: "0 < ?n" using assms(2) by simp
  have "c smod ?n = - (- c mod ?n)" using assms(1) n by (simp add: signed_modulo_int_def sgn_if)
  moreover have "0 < - c mod ?n" using n False by (metis dvd_minus_iff dvd_eq_mod_eq_0 order_le_less pos_mod_sign)
  moreover have "- c mod ?n < ?n" using n by simp
  ultimately have "(c smod ?n + int 0) smod ?n < 0" by (simp add: signed_modulo_int_def sgn_if)
  then show ?thesis using False assms(2) by (auto simp: rotate_by_def Let_def list_ex_iff intro!: bexI [of _ 0])
qed

lemma mset_rotate: "mset (rotate n xs) = mset xs"
proof (induction n)
  case (Suc n)
  then show ?case by (cases "rotate n xs") simp_all
qed simp

lemma rotate_by_mset: "rotate_by c xs = Some ys \<Longrightarrow> mset ys = mset xs"
proof (cases "xs = []")
  case False
  assume "rotate_by c xs = Some ys"
  then show ?thesis using rotate_by_nonneg [OF _ False, of c] rotate_by_negative [OF _ False, of c]
    by (cases "0 \<le> c") (auto simp: mset_rotate split: if_splits)
qed (simp add: rotate_by_def)

lemma pick_index_less: "us \<noteq> [] \<Longrightarrow> pick_index p n i us < i + length us"
proof (induction p n i us rule: pick_index.induct)
  case (2 p n i u us)
  show ?case
  proof (cases "us = []")
    case False
    then show ?thesis using "2.IH" [OF refl] by (simp add: Let_def)
  qed (simp add: Let_def)
qed simp

lemma weightedPick_less: "ups \<noteq> [] \<Longrightarrow> fst (weightedPick p ups r) < length ups"
  using IntN_less [of "length ups" r] pick_index_less [of ups p _ 0]
  by (simp add: weightedPick_def split_beta)

text \<open>The strategy switch meets the contract, whatever the strategy.\<close>

lemma orderLocked_mset:
  assumes "orderLocked us p r = Some (out, p', r')"
  shows "mset out = mset us"
proof (cases "length us < 2 \<or> p_strategy p \<in> {StrategyFailover, StrategyRoundRobin, StrategyLeastLatency}")
  case True
  with assms show ?thesis
    by (auto simp: orderLocked_def Let_def dest!: rotate_by_mset split: if_splits)
next
  case False
  define out1 r1 i where "out1 = fst (Shuffle us r)" and "r1 = snd (Shuffle us r)" and "i = fst (weightedPick p out1 r1)"
  have "out = (if 0 < i then swap_at 0 i out1 else out1)"
    using assms False by (auto simp: orderLocked_def Let_def out1_def r1_def i_def split_beta)
  moreover have "length out1 = length us" "mset out1 = mset us" by (simp_all add: out1_def)
  moreover from this have "out1 \<noteq> []" using False by auto
  moreover have "i < length out1" unfolding i_def by (rule weightedPick_less) fact
  moreover have "us \<noteq> []" using False by auto
  ultimately show ?thesis using mset_swap_at [of 0 out1 i] by simp
qed

interpretation order: selection orderLocked
  by unfold_locales (rule orderLocked_mset)

section \<open>The plan\<close>

definition undrained :: "pool \<Rightarrow> nat list" where
  "undrained p = filter (\<lambda>u. \<not> Drained p u) (p_upstreams p)"

definition healthy_members :: "pool \<Rightarrow> nat list" where
  "healthy_members p = filter (\<lambda>u. \<not> Drained p u \<and> Upstream_Healthy p u) (p_upstreams p)"

definition down_members :: "pool \<Rightarrow> nat list" where
  "down_members p = filter (\<lambda>u. \<not> Drained p u \<and> \<not> Upstream_Healthy p u) (p_upstreams p)"

text \<open>The preferred path of a healthy upstream.\<close>

definition preferred :: "pool \<Rightarrow> nat \<Rightarrow> nat" where
  "preferred p u = the (Active p u)"

lemma Upstream_Healthy_Active: "Upstream_Healthy p u \<longleftrightarrow> (\<exists>e. Active p u = Some e)"
  using find_None_iff [of "Healthy p" "u_Endpoints (p_ups p u)"]
  by (auto simp: Upstream_Healthy_def Active_def list_ex_iff)

lemma Active_SomeD: "Active p u = Some e \<Longrightarrow> e \<in> set (u_Endpoints (p_ups p u)) \<and> Healthy p e"
  unfolding Active_def by (rule find_SomeD)

lemma active_paths_map: "\<forall>u \<in> set us. Upstream_Healthy p u \<Longrightarrow> active_paths p us = map (preferred p) us"
  by (induction us) (auto simp: active_paths_def preferred_def List.map_filter_def Upstream_Healthy_Active)

lemma split_by_find:
  assumes "distinct es" "find P es = Some a"
  shows "mset es = {#a#} + mset (filter (\<lambda>e. Some e \<noteq> Some a \<and> P e) es) + mset (filter (\<lambda>e. \<not> P e) es)"
proof -
  have a: "a \<in> set es" "P a" using find_SomeD [OF assms(2)] by blast+
  have "mset es = mset (filter P es) + mset (filter (\<lambda>e. \<not> P e) es)"
    by (rule mset_partition [symmetric])
  moreover have "mset (filter P es) = mset (a # filter (\<lambda>e. Some e \<noteq> Some a \<and> P e) es)"
    using a assms(1) by (intro iffD1 [OF set_eq_iff_mset_eq_distinct]) auto
  ultimately show ?thesis by (simp del: mset_filter)
qed

text \<open>The three tiers of a list of healthy upstreams are all their paths, each once.\<close>

lemma paths_Cons [simp]:
  "secondary_paths p (u # us) =
     filter (\<lambda>e. Some e \<noteq> Active p u \<and> Healthy p e) (u_Endpoints (p_ups p u)) @ secondary_paths p us"
  "down_paths p (u # us) = filter (\<lambda>e. \<not> Healthy p e) (u_Endpoints (p_ups p u)) @ down_paths p us"
  "all_paths p (u # us) = u_Endpoints (p_ups p u) @ all_paths p us"
  "secondary_paths p [] = []" "down_paths p [] = []" "all_paths p [] = []"
  by (simp_all add: secondary_paths_def down_paths_def all_paths_def)

lemma tiers_mset:
  assumes "\<forall>u \<in> set us. Upstream_Healthy p u \<and> distinct (u_Endpoints (p_ups p u))"
  shows "mset (map (preferred p) us) + mset (secondary_paths p us) + mset (down_paths p us) = mset (all_paths p us)"
  using assms
proof (induction us)
  case (Cons u us)
  then obtain a where a: "Active p u = Some a" using Upstream_Healthy_Active by auto
  then have "mset (u_Endpoints (p_ups p u)) = {#a#} +
      mset (filter (\<lambda>e. Some e \<noteq> Active p u \<and> Healthy p e) (u_Endpoints (p_ups p u))) +
      mset (filter (\<lambda>e. \<not> Healthy p e) (u_Endpoints (p_ups p u)))"
    using Cons.prems split_by_find [of "u_Endpoints (p_ups p u)" "Healthy p" a] by (simp add: Active_def)
  moreover have "mset (map (preferred p) us) + mset (secondary_paths p us) + mset (down_paths p us) = mset (all_paths p us)"
    using Cons by simp
  moreover have "preferred p u = a" using a by (simp add: preferred_def)
  ultimately show ?case unfolding paths_Cons mset_append list.map mset.simps by (simp add: add.assoc del: mset_filter mset_map)
qed simp

lemma Plan_cases:
  assumes "Plan p r = Some (plan, p', r')"
  obtains ordered sec last r1 where
    "orderLocked (healthy_members p) p r = Some (ordered, p', r1)" "mset ordered = mset (healthy_members p)"
    "mset sec = mset (secondary_paths p ordered)" "mset last = mset (down_paths p ordered) + mset (all_paths p (down_members p))"
    "map (preferred p) ordered @ sec @ last \<noteq> [] \<Longrightarrow> plan = map (preferred p) ordered @ sec @ last"
    "map (preferred p) ordered @ sec @ last = [] \<Longrightarrow> mset plan = mset (all_paths p (filter (Drained p) (p_upstreams p)))"
proof -
  from assms obtain ordered r1 where o: "orderLocked (healthy_members p) p r = Some (ordered, p', r1)"
    by (auto simp: Plan_def Let_def healthy_members_def split: option.splits prod.splits if_splits)
  define sec r2 where "sec = fst (Shuffle (secondary_paths p ordered) r1)" and "r2 = snd (Shuffle (secondary_paths p ordered) r1)"
  define last r3 where "last = fst (Shuffle (down_paths p ordered @ all_paths p (down_members p)) r2)"
    and "r3 = snd (Shuffle (down_paths p ordered @ all_paths p (down_members p)) r2)"
  have m: "mset ordered = mset (healthy_members p)" by (rule order.permutes [OF o])
  then have "\<forall>u \<in> set ordered. Upstream_Healthy p u" using order.same_set [OF o] by (simp add: healthy_members_def)
  then have "Plan p r = (let plan = map (preferred p) ordered @ sec @ last in
      if plan = [] then (case Shuffle (all_paths p (filter (Drained p) (p_upstreams p))) r3 of (plan', r4) \<Rightarrow> Some (plan', p', r4))
      else Some (plan, p', r3))"
    unfolding Plan_def Let_def healthy_members_def [symmetric] down_members_def [symmetric] o option.case prod.case split_beta
      sec_def r2_def last_def r3_def by (simp only: active_paths_map fst_conv snd_conv)
  then show thesis using assms
    by (intro that [OF o m, of sec last]) (auto simp: sec_def last_def split_beta split: if_splits)
qed

lemma members_split:
  "set (healthy_members p) \<union> set (down_members p) = set (undrained p)"
  "mset (healthy_members p) + mset (down_members p) = mset (undrained p)"
proof -
  have "healthy_members p = filter (Upstream_Healthy p) (undrained p)" "down_members p = filter (\<lambda>u. \<not> Upstream_Healthy p u) (undrained p)"
    by (simp_all add: healthy_members_def down_members_def undrained_def conj_commute)
  then show "set (healthy_members p) \<union> set (down_members p) = set (undrained p)"
    "mset (healthy_members p) + mset (down_members p) = mset (undrained p)"
    by (auto simp: mset_partition simp del: mset_filter)
qed

lemma mset_all_paths: "mset us = mset vs \<Longrightarrow> mset (all_paths p us) = mset (all_paths p vs)"
  unfolding all_paths_def by (rule mset_concat_map)

lemma wf_endpoints:
  assumes "pool_wf p" "u \<in> set (p_upstreams p)"
  shows "distinct (u_Endpoints (p_ups p u))" "u_Endpoints (p_ups p u) \<noteq> []" "1 \<le> weight_of p u"
proof -
  have "distinct (all_paths p (p_upstreams p))" using assms(1) unfolding pool_wf_def heap_ok_def by auto
  then show "distinct (u_Endpoints (p_ups p u))" using assms(2) by (auto simp: all_paths_def distinct_concat_iff)
  have "upstream_entry p u \<in> set (pool_entries p)" using assms(2) by (simp add: pool_entries_def)
  then have "uc_Endpoints (upstream_entry p u) \<noteq> []" "1 \<le> uc_Weight (upstream_entry p u)"
    using assms(1) unfolding pool_wf_def wf_upstreams_def by blast+
  then show "u_Endpoints (p_ups p u) \<noteq> []" "1 \<le> weight_of p u" by (simp_all add: upstream_entry_def weight_of_def)
qed

lemma Plan_mset:
  assumes "pool_wf p" "Plan p r = Some (plan, p', r')"
  shows "mset plan = mset (all_paths p (if undrained p = [] then p_upstreams p else undrained p))"
proof -
  from Plan_cases [OF assms(2)] obtain ordered sec last where
    o: "mset ordered = mset (healthy_members p)"
    "mset sec = mset (secondary_paths p ordered)" "mset last = mset (down_paths p ordered) + mset (all_paths p (down_members p))"
    and ne: "map (preferred p) ordered @ sec @ last \<noteq> [] \<Longrightarrow> plan = map (preferred p) ordered @ sec @ last"
    and em: "map (preferred p) ordered @ sec @ last = [] \<Longrightarrow> mset plan = mset (all_paths p (filter (Drained p) (p_upstreams p)))"
    by metis
  have "set ordered = set (healthy_members p)" using o(1) by (metis set_mset_mset)
  then have "\<forall>u \<in> set ordered. Upstream_Healthy p u \<and> distinct (u_Endpoints (p_ups p u))"
    using wf_endpoints(1) [OF assms(1)] by (auto simp: healthy_members_def)
  from tiers_mset [OF this] have
    all: "mset (map (preferred p) ordered @ sec @ last) = mset (all_paths p (healthy_members p @ down_members p))"
    using o mset_all_paths [OF o(1), of p] by (simp add: ac_simps)
  also have "\<dots> = mset (all_paths p (undrained p))" using members_split(2) by (intro mset_all_paths) simp
  finally have all: "mset (map (preferred p) ordered @ sec @ last) = mset (all_paths p (undrained p))" .
  show ?thesis
  proof (cases "undrained p = []")
    case True
    then have "filter (Drained p) (p_upstreams p) = p_upstreams p" by (auto simp: undrained_def filter_empty_conv)
    with True all em show ?thesis by (simp add: all_paths_def)
  next
    case False
    then obtain u where "u \<in> set (undrained p)" by (cases "undrained p") auto
    then have "all_paths p (undrained p) \<noteq> []"
      using wf_endpoints(2) [OF assms(1), of u] by (auto simp: all_paths_def undrained_def)
    then have "map (preferred p) ordered @ sec @ last \<noteq> []" using all by (metis mset_zero_iff)
    with ne all False show ?thesis by simp
  qed
qed

section \<open>Strategies\<close>

text \<open>Round robin: the list of first choices of consecutive plans.\<close>

fun first_choices :: "nat \<Rightarrow> pool \<Rightarrow> rng \<Rightarrow> nat list option" where
  "first_choices 0 p r = Some []"
| "first_choices (Suc n) p r =
     (case Plan p r of
        None \<Rightarrow> None
      | Some (plan, p', r') \<Rightarrow> map_option (\<lambda>es. hd plan # es) (first_choices n p' r'))"

lemma members_upd_rr [simp]:
  "healthy_members (p\<lparr>p_rr := c\<rparr>) = healthy_members p" "preferred (p\<lparr>p_rr := c\<rparr>) = preferred p"
  by (simp_all add: healthy_members_def preferred_def Active_def Healthy_def [abs_def] Drained_def Upstream_Healthy_def fun_eq_iff)

lemma hd_Plan:
  assumes "Plan p r = Some (plan, p', r')" "healthy_members p \<noteq> []"
    and "orderLocked (healthy_members p) p r = Some (ordered, q, r1)"
  shows "hd plan = preferred p (hd ordered) \<and> p' = q"
proof -
  from Plan_cases [OF assms(1)] obtain ordered' sec last r1' where
    o: "orderLocked (healthy_members p) p r = Some (ordered', p', r1')" "mset ordered' = mset (healthy_members p)"
    and ne: "map (preferred p) ordered' @ sec @ last \<noteq> [] \<Longrightarrow> plan = map (preferred p) ordered' @ sec @ last" by metis
  have "ordered' = ordered" "p' = q" using o(1) assms(3) by simp_all
  moreover have "ordered' \<noteq> []" using o(2) assms(2) by auto
  ultimately show ?thesis using ne by (simp add: hd_map)
qed

lemma int_of_u64_small: "uint w < 2 ^ 63 \<Longrightarrow> int_of_u64 w = uint w"
  using order_trans [OF _ uint_ge_0 [of w], of "- (2 ^ 63)"]
  by (simp add: int_of_u64_def sint_uint signed_take_bit_int_eq_self_iff)

lemma int_of_u64_big:
  assumes "2 ^ 63 \<le> uint w"
  shows "int_of_u64 w = uint w - 2 ^ 64"
proof -
  have "(uint w + 2 ^ 63) mod 2 ^ 64 = (uint w + 2 ^ 63 - 2 ^ 64) mod 2 ^ 64" by (rule minus_mod_self2 [symmetric])
  also have "\<dots> = uint w + 2 ^ 63 - 2 ^ 64"
    using assms uint_lt2p [of w] by (intro mod_pos_pos_trivial) simp_all
  finally show ?thesis
    by (simp add: int_of_u64_def sint_uint signed_take_bit_eq_take_bit_shift take_bit_eq_mod)
qed

lemma Plan_None_iff: "Plan p r = None \<longleftrightarrow> orderLocked (healthy_members p) p r = None"
  by (auto simp: Plan_def Let_def split_beta simp flip: healthy_members_def split: option.splits)

lemma round_robin_Plan:
  assumes "p_strategy p = StrategyRoundRobin" "2 \<le> length (healthy_members p)" "uint (p_rr p) < 2 ^ 63"
  shows "\<exists>plan r'. Plan p r = Some (plan, p\<lparr>p_rr := p_rr p + 1\<rparr>, r') \<and>
    hd plan = preferred p (healthy_members p ! nat (uint (p_rr p) mod int (length (healthy_members p))))"
proof -
  let ?h = "healthy_members p" and ?q = "p\<lparr>p_rr := p_rr p + 1\<rparr>"
  let ?k = "nat (uint (p_rr p) mod int (length ?h))"
  have ne: "?h \<noteq> []" using assms(2) by auto
  have o: "orderLocked ?h p r = Some (rotate ?k ?h, ?q, r)"
    using assms ne rotate_by_nonneg [of "uint (p_rr p)" ?h]
    by (simp add: orderLocked_def Let_def int_of_u64_small StrategyFailover_def StrategyRoundRobin_def)
  then obtain plan q r' where P: "Plan p r = Some (plan, q, r')"
    using Plan_None_iff [of p r] by (cases "Plan p r") auto
  moreover have "?k < length ?h" using ne pos_mod_bound [of "int (length ?h)"] by (simp add: nat_less_iff)
  ultimately show ?thesis using hd_Plan [OF P ne o] ne by (simp add: hd_rotate_conv_nth)
qed

lemma first_choices_round_robin:
  assumes "p_strategy p = StrategyRoundRobin" "2 \<le> length (healthy_members p)" "uint (p_rr p) + int m \<le> 2 ^ 63"
  shows "first_choices m p r = Some (map (\<lambda>i. preferred p (healthy_members p ! ((unat (p_rr p) + i) mod length (healthy_members p)))) [0..<m])"
  using assms
proof (induction m arbitrary: p r)
  case (Suc m)
  let ?q = "p\<lparr>p_rr := p_rr p + 1\<rparr>" and ?n = "length (healthy_members p)"
  from Suc.prems round_robin_Plan [of p r] obtain plan r' where P: "Plan p r = Some (plan, ?q, r')"
    "hd plan = preferred p (healthy_members p ! nat (uint (p_rr p) mod int ?n))" by auto
  have rr: "uint (p_rr p + 1) = uint (p_rr p) + 1"
    using Suc.prems(3) by (simp add: uint_word_ariths(1))
  then have "first_choices m ?q r' = Some (map (\<lambda>i. preferred p (healthy_members p ! ((unat (p_rr p) + 1 + i) mod ?n))) [0..<m])"
    using Suc.prems Suc.IH [of ?q r'] by (simp add: nat_add_distrib flip: nat_uint_eq)
  moreover have "nat (uint (p_rr p) mod int ?n) = unat (p_rr p) mod ?n"
    by (metis nat_int of_nat_unat zmod_int)
  moreover have "map f [0..<Suc m] = f 0 # map (\<lambda>i. f (1 + i)) [0..<m]" for f :: "nat \<Rightarrow> nat"
    by (simp add: map_upt_Suc del: upt_Suc)
  ultimately show ?case using P by (simp add: add.assoc del: upt_Suc)
qed simp

lemma rotation_of_list:
  "xs \<noteq> [] \<Longrightarrow> map (\<lambda>i. xs ! ((k + i) mod length xs)) [0..<length xs] = rotate k xs"
  by (rule nth_equalityI) (simp_all add: nth_rotate)

text \<open>The weighted draw. Without overflow it compares the draw with the running sums of the weights.\<close>

definition weights :: "pool \<Rightarrow> nat list \<Rightarrow> int" where
  "weights p us = sum_list (map (weight_of p) us)"

lemma weights_nonneg: "\<forall>u \<in> set us. 0 \<le> weight_of p u \<Longrightarrow> 0 \<le> weights p us"
  by (induction us) (simp_all add: weights_def)

lemma total_weight_eq:
  assumes "\<forall>u \<in> set us. 0 \<le> weight_of p u" "weights p us < 2 ^ 63"
  shows "total_weight p us = weights p us"
proof -
  have "fold (\<lambda>u t. wrap64 (t + weight_of p u)) us t = t + weights p us" if "0 \<le> t" "t + weights p us < 2 ^ 63" for t
    using that assms(1)
  proof (induction us arbitrary: t)
    case (Cons u us)
    have "0 \<le> weights p us" using Cons.prems by (intro weights_nonneg) simp
    then have "wrap64 (t + weight_of p u) = t + weight_of p u"
      using Cons.prems by (intro wrap64_id) (simp_all add: weights_def)
    then show ?case using Cons by (simp add: weights_def add.assoc)
  qed (simp add: weights_def)
  from this [of 0] assms show ?thesis by (simp add: total_weight_def)
qed

lemma pick_index_ge: "us \<noteq> [] \<Longrightarrow> i \<le> pick_index p n i us"
proof (induction p n i us rule: pick_index.induct)
  case (2 p n i u us)
  then show ?case by (cases "us = []") (auto simp: Let_def)
qed simp

lemma pick_index_iff:
  assumes "\<forall>u \<in> set us. 0 \<le> weight_of p u" "0 \<le> n" "n < weights p us" "weights p us < 2 ^ 63" "j < length us"
  shows "pick_index p n i us = i + j \<longleftrightarrow> weights p (take j us) \<le> n \<and> n < weights p (take (Suc j) us)"
  using assms
proof (induction us arbitrary: n i j)
  case (Cons u us)
  let ?w = "weight_of p u"
  have W: "0 \<le> weights p us" "weights p (u # us) = ?w + weights p us" "0 \<le> ?w"
    using Cons.prems(1) weights_nonneg [of us p] by (simp_all add: weights_def)
  then have wr: "wrap64 (n - ?w) = n - ?w" using Cons.prems by (intro wrap64_id) simp_all
  have tk: "weights p (take (Suc k) (u # us)) = ?w + weights p (take k us)" for k by (simp add: weights_def)
  have nn: "0 \<le> weights p (take k us)" for k
    using Cons.prems(1) by (intro weights_nonneg) (auto dest: in_set_takeD)
  show ?case
  proof (cases "n < ?w")
    case True
    then have "pick_index p n i (u # us) = i" by (simp add: wr)
    then show ?thesis
    proof (cases j)
      case 0
      with True Cons.prems(2) \<open>pick_index p n i (u # us) = i\<close> show ?thesis by (simp add: weights_def del: pick_index.simps)
    next
      case (Suc k)
      with True nn [of k] tk [of k] \<open>pick_index p n i (u # us) = i\<close> show ?thesis by (simp del: pick_index.simps)
    qed
  next
    case False
    then have pk: "pick_index p n i (u # us) = pick_index p (n - ?w) (i + 1) us" by (simp add: wr)
    show ?thesis
    proof (cases j)
      case 0
      have "us \<noteq> []" using False Cons.prems(3) by (auto simp: weights_def)
      from pick_index_ge [OF this, of "i + 1" p "n - ?w"] 0 False show ?thesis by (simp add: pk weights_def del: pick_index.simps)
    next
      case (Suc k)
      then show ?thesis using Cons.IH [of "n - ?w" k "i + 1"] Cons.prems False W tk pk by (auto simp del: pick_index.simps)
    qed
  qed
qed simp

lemma weightedPick_single:
  assumes "\<forall>u \<in> set us. 0 \<le> weight_of p u" "weights p us < 2 ^ 63" "int d < weights p us"
  shows "fst (weightedPick p us [d]) = pick_index p (int d) 0 us"
proof -
  have "d mod nat (weights p us) = d" using assms(3) by (intro mod_less) simp
  then show ?thesis using total_weight_eq [OF assms(1,2)] assms(3) by (simp add: weightedPick_def)
qed

lemma weightedPick_count:
  assumes "\<forall>u \<in> set us. 1 \<le> weight_of p u" "weights p us < 2 ^ 63" "j < length us"
  shows "card {d. int d < weights p us \<and> fst (weightedPick p us [d]) = j} = nat (weight_of p (us ! j))"
proof -
  have nn: "\<forall>u \<in> set us. 0 \<le> weight_of p u" using assms(1) by auto
  have step: "weights p (take (Suc j) us) = weights p (take j us) + weight_of p (us ! j)"
    using assms(3) by (simp add: weights_def take_Suc_conv_app_nth)
  have le: "weights p (take (Suc j) us) \<le> weights p us"
    using append_take_drop_id [of "Suc j" us] weights_nonneg [of "drop (Suc j) us" p] nn
    by (metis (no_types, lifting) add_increasing2 in_set_dropD map_append order_refl sum_list.append weights_def)
  have lo: "0 \<le> weights p (take j us)" using nn by (intro weights_nonneg) (auto dest: in_set_takeD)
  have "{d. int d < weights p us \<and> fst (weightedPick p us [d]) = j} =
      {d. weights p (take j us) \<le> int d \<and> int d < weights p (take (Suc j) us)}"
  proof (intro Collect_cong iffI)
    fix d
    assume d: "int d < weights p us \<and> fst (weightedPick p us [d]) = j"
    then have "fst (weightedPick p us [d]) = pick_index p (int d) 0 us"
      using assms(2) nn weightedPick_single by blast
    then show "weights p (take j us) \<le> int d \<and> int d < weights p (take (Suc j) us)"
      using d pick_index_iff [OF nn, of "int d" j 0] assms(2,3) by simp
  next
    fix d
    assume d: "weights p (take j us) \<le> int d \<and> int d < weights p (take (Suc j) us)"
    then have dw: "int d < weights p us" using le by simp
    then have "fst (weightedPick p us [d]) = pick_index p (int d) 0 us"
      using assms(2) nn weightedPick_single by blast
    then show "int d < weights p us \<and> fst (weightedPick p us [d]) = j"
      using d dw pick_index_iff [OF nn, of "int d" j 0] assms(2,3) by simp
  qed
  also have "\<dots> = {nat (weights p (take j us)) ..< nat (weights p (take (Suc j) us))}"
    using lo step assms(1,3) by (auto simp: nat_le_iff zless_nat_eq_int_zless)
  finally show ?thesis using lo step by (simp add: nat_diff_distrib')
qed

text \<open>A shuffle takes one draw per element but the first.\<close>

lemma Shuffle_from_draws:
  "length r = i \<Longrightarrow> Shuffle_from i xs (r @ s) = (fst (Shuffle_from i xs r), s)"
proof (induction i arbitrary: xs r)
  case (Suc i)
  then obtain d r' where "r = d # r'" "length r' = i" by (cases r) auto
  with Suc.IH show ?case by simp
qed simp

lemma Shuffle_draws: "length r = length xs - 1 \<Longrightarrow> Shuffle xs (r @ s) = (fst (Shuffle xs r), s)"
  by (simp add: Shuffle_def Shuffle_from_draws)

lemma hd_swap_at: "xs \<noteq> [] \<Longrightarrow> 0 < i \<Longrightarrow> hd (swap_at 0 i xs) = xs ! i"
  by (cases xs; cases i) (simp_all add: swap_at_def)

lemma random_order_head:
  assumes "p_strategy p = StrategyRandom" "2 \<le> length us" "length r = length us - 1"
  shows "\<exists>out p' r'. orderLocked us p (r @ [d]) = Some (out, p', r') \<and>
     hd out = fst (Shuffle us r) ! fst (weightedPick p (fst (Shuffle us r)) [d])"
proof -
  let ?out = "fst (Shuffle us r)" and ?i = "fst (weightedPick p (fst (Shuffle us r)) [d])"
  have "0 < length ?out" using assms(2) by (cases us) auto
  then have ne: "?out \<noteq> []" by (metis length_greater_0_conv)
  then have i: "?i < length ?out" by (rule weightedPick_less)
  have "orderLocked us p (r @ [d]) = Some (if 0 < ?i then swap_at 0 ?i ?out else ?out, p, snd (weightedPick p ?out [d]))"
    using assms Shuffle_draws [OF assms(3), of "[d]"]
    by (simp add: orderLocked_def split_beta StrategyRandom_def StrategyFailover_def StrategyRoundRobin_def StrategyLeastLatency_def)
  moreover have "hd (if 0 < ?i then swap_at 0 ?i ?out else ?out) = ?out ! ?i"
    using ne by (simp add: hd_swap_at hd_conv_nth)
  ultimately show ?thesis by blast
qed

section \<open>A pool of two Pi-holes, for the witnesses\<close>

definition pair_config :: config where
  "pair_config = Default\<lparr>c_Upstreams := [
     \<lparr>uc_Name = ''pihole-1'', uc_Weight = 3, uc_Endpoints = [\<lparr>ec_Name = ''lan'', ec_Addr = ''10.0.1.1:53''\<rparr>,
        \<lparr>ec_Name = ''vpn'', ec_Addr = ''10.0.1.2:53''\<rparr>]\<rparr>,
     \<lparr>uc_Name = ''pihole-2'', uc_Weight = 1, uc_Endpoints = [\<lparr>ec_Name = ''lan'', ec_Addr = ''10.0.2.1:53''\<rparr>]\<rparr>]\<rparr>"

text \<open>Every path but the second one of the first Pi-hole has answered its initial probe.\<close>

definition pair_pool :: "string \<Rightarrow> pool" where
  "pair_pool strategy = fold (\<lambda>(e, ok) p. fst (SetInitial e ok 5 None 0 p)) [(0, True), (1, False), (2, True)]
     (New (pair_config\<lparr>c_Strategy := strategy\<rparr>))"

lemmas pair_eval = pair_pool_def pair_config_def Default_def New_def append_upstream_def buildUpstream_def
  fresh_endpoint_def SetInitial_def Let_def

lemma pair_pool_eval:
  "p_upstreams (pair_pool s) = [0, 1]" "p_strategy (pair_pool s) = s" "p_rr (pair_pool s) = 0"
  "u_Endpoints (p_ups (pair_pool s) 0) = [0, 1]" "u_Endpoints (p_ups (pair_pool s) 1) = [2]"
  "\<not> u_drained (p_ups (pair_pool s) 0)" "\<not> u_drained (p_ups (pair_pool s) 1)"
  "u_Weight (p_ups (pair_pool s) 0) = 3" "u_Weight (p_ups (pair_pool s) 1) = 1"
  "e_up (p_eps (pair_pool s) 0)" "\<not> e_up (p_eps (pair_pool s) 1)" "e_up (p_eps (pair_pool s) 2)"
  by (simp_all add: pair_eval)

lemma pair_healthy: "healthy_members (pair_pool s) = [0, 1]"
  using pair_pool_eval [of s]
  by (simp add: healthy_members_def Drained_def Upstream_Healthy_def Healthy_def)

lemma pair_preferred: "preferred (pair_pool s) 0 = 0" "preferred (pair_pool s) 1 = 2"
  using pair_pool_eval [of s] by (simp_all add: preferred_def Active_def Healthy_def)

lemma SetInitial_wf: "pool_wf p \<Longrightarrow> pool_wf (fst (SetInitial e up l err now p))"
  using endpoint_update_wf [OF _ SetInitial_frame] by blast

lemma pair_pool_wf:
  assumes "ValidStrategy s"
  shows "pool_wf (pair_pool s)"
proof -
  have "pool_entries (New (pair_config\<lparr>c_Strategy := s\<rparr>)) = c_Upstreams pair_config" "heap_ok (New (pair_config\<lparr>c_Strategy := s\<rparr>))"
    "p_strategy (New (pair_config\<lparr>c_Strategy := s\<rparr>)) = s"
    using New_entries [of "pair_config\<lparr>c_Strategy := s\<rparr>"] by simp_all
  moreover have "wf_upstreams (c_Upstreams pair_config)" "c_Upstreams pair_config \<noteq> []" by (simp_all add: pair_config_def)
  ultimately have "pool_wf (New (pair_config\<lparr>c_Strategy := s\<rparr>))"
    using assms unfolding pool_wf_def by (metis Nil_is_map_conv pool_entries_def)
  then show ?thesis by (simp add: pair_pool_def SetInitial_wf)
qed

lemma pair_Plan_total:
  assumes "s = StrategyFailover \<or> s = StrategyLeastLatency"
  shows "\<exists>plan p' r'. Plan (pair_pool s) [] = Some (plan, p', r')"
proof -
  have "orderLocked (healthy_members (pair_pool s)) (pair_pool s) [] \<noteq> None"
    using assms pair_pool_eval(2) [of s]
    by (auto simp: orderLocked_def StrategyFailover_def StrategyLeastLatency_def StrategyRoundRobin_def)
  then show ?thesis using Plan_None_iff [of "pair_pool s" "[]"] by (cases "Plan (pair_pool s) []") auto
qed

lemma first_minimum:
  "\<exists>vs v ws. x # xs = vs @ v # ws \<and> hd (sort_key f (x # xs)) = v \<and> (\<forall>w \<in> set vs. f v < f w) \<and> (\<forall>w \<in> set ws. f v \<le> f w)"
    for f :: "'a \<Rightarrow> 'b :: linorder"
proof (induction xs arbitrary: x)
  case (Cons y ys)
  from this [of y] obtain vs v ws where v: "y # ys = vs @ v # ws" "hd (sort_key f (y # ys)) = v"
    "\<forall>w \<in> set vs. f v < f w" "\<forall>w \<in> set ws. f v \<le> f w" by blast
  obtain zs where zs: "sort_key f (y # ys) = v # zs"
    using v(2) length_sort [of f "y # ys"] by (cases "sort_key f (y # ys)") (simp_all del: length_sort)
  have s: "sort_key f (x # y # ys) = insort_key f x (v # zs)" using zs by simp
  show ?case
  proof (cases "f x \<le> f v")
    case True
    then have "hd (sort_key f (x # y # ys)) = x" unfolding s by simp
    moreover have "\<forall>w \<in> set (y # ys). f x \<le> f w" using True v unfolding v(1) by fastforce
    ultimately show ?thesis by (intro exI [of _ "[]"] exI [of _ x] exI [of _ "y # ys"]) simp
  next
    case False
    then have "hd (sort_key f (x # y # ys)) = v" unfolding s by simp
    then show ?thesis using False v by (intro exI [of _ "x # vs"] exI [of _ v] exI [of _ ws]) simp
  qed
next
  case Nil
  show ?case by (intro exI [of _ "[]"] exI [of _ x]) simp
qed

section \<open>Properties\<close>

lemma distinct_all_paths_filter: "distinct (all_paths p us) \<Longrightarrow> distinct (all_paths p (filter P us))"
  by (induction us) (auto simp: all_paths_def)

text \<open>
  C7. A plan tries every path the operator has left in rotation exactly once: it is a
  rearrangement without repetition of all the paths of the upstreams that are not drained,
  or of every path of the pool when all of them are drained, and it is never empty.
\<close>

theorem Plan_every_path_once:
  assumes "pool_wf p" "Plan p r = Some (plan, p', r')"
  shows "distinct plan \<and> plan \<noteq> [] \<and>
    set plan = (\<Union>u \<in> (if undrained p = [] then set (p_upstreams p) else set (undrained p)). set (u_Endpoints (p_ups p u)))"
proof -
  let ?us = "if undrained p = [] then p_upstreams p else undrained p"
  have m: "mset plan = mset (all_paths p ?us)" by (rule Plan_mset [OF assms])
  have "distinct (all_paths p (p_upstreams p))" using assms(1) unfolding pool_wf_def heap_ok_def by auto
  then have "distinct plan" using m distinct_all_paths_filter [of p "p_upstreams p" "\<lambda>u. \<not> Drained p u"]
    by (simp add: undrained_def split: if_splits) (metis mset_eq_imp_distinct_iff)+
  moreover have "set plan = (\<Union>u \<in> set ?us. set (u_Endpoints (p_ups p u)))"
    using arg_cong [OF m, of set_mset] by (simp add: all_paths_def)
  moreover have "?us \<noteq> []" using assms(1) by (simp add: pool_wf_def)
  then obtain u where u: "u \<in> set ?us" by (metis last_in_set)
  then have "u \<in> set (p_upstreams p)" by (auto simp: undrained_def split: if_splits)
  from wf_endpoints(2) [OF assms(1) this] u calculation(2) have "\<exists>e. e \<in> set plan" by (metis UN_I last_in_set)
  ultimately show ?thesis by auto
qed

theorem Plan_every_path_once_witness:
  "\<exists>plan. (\<exists>p' r'. Plan (pair_pool StrategyFailover) [] = Some (plan, p', r')) \<and> distinct plan \<and> set plan = {0, 1, 2}"
proof -
  let ?p = "pair_pool StrategyFailover"
  from pair_Plan_total [of StrategyFailover] obtain plan p' r' where P: "Plan ?p [] = Some (plan, p', r')" by auto
  have wf: "pool_wf ?p" by (rule pair_pool_wf) (simp add: ValidStrategy_def validStrategies_def)
  have "undrained ?p = [0, 1]" using pair_pool_eval [of StrategyFailover] by (simp add: undrained_def Drained_def)
  with Plan_every_path_once [OF wf P] P show ?thesis using pair_pool_eval [of StrategyFailover] by auto
qed



text \<open>
  C11. What the deterministic strategies select. Failover sends the query to the first
  healthy upstream of the configuration; least latency to one whose preferred path has the
  smallest measured latency, an unmeasured path counting as an hour, and among equals to the
  first of the configuration.
\<close>

theorem Plan_selects:
  assumes "Plan p r = Some (plan, p', r')" "healthy_members p = u # us"
  shows "(p_strategy p = StrategyFailover \<longrightarrow> hd plan = preferred p u) \<and>
    (p_strategy p = StrategyLeastLatency \<longrightarrow> (\<exists>vs v ws. u # us = vs @ v # ws \<and> hd plan = preferred p v \<and>
       (\<forall>w \<in> set vs. effectiveLatency p v < effectiveLatency p w) \<and>
       (\<forall>w \<in> set ws. effectiveLatency p v \<le> effectiveLatency p w)))"
proof (intro conjI impI)
  have ne: "healthy_members p \<noteq> []" using assms(2) by simp
  { assume "p_strategy p = StrategyFailover"
    then have "orderLocked (healthy_members p) p r = Some (u # us, p, r)" using assms(2) by (simp add: orderLocked_def)
    from hd_Plan [OF assms(1) ne this] show "hd plan = preferred p u" by simp }
  { let ?k = "effectiveLatency p"
    assume "p_strategy p = StrategyLeastLatency"
    then have "orderLocked (healthy_members p) p r = Some (sort_key ?k (u # us), p, r)"
      using assms(2) by (simp add: orderLocked_def StrategyLeastLatency_def StrategyFailover_def StrategyRoundRobin_def)
    from hd_Plan [OF assms(1) ne this] have h: "hd plan = preferred p (hd (sort_key ?k (u # us)))" by simp
    from first_minimum [of u us ?k] h show "\<exists>vs v ws. u # us = vs @ v # ws \<and> hd plan = preferred p v \<and>
       (\<forall>w \<in> set vs. ?k v < ?k w) \<and> (\<forall>w \<in> set ws. ?k v \<le> ?k w)" by metis }
qed

theorem Plan_selects_witness:
  "(\<exists>plan p' r'. Plan (pair_pool StrategyFailover) [] = Some (plan, p', r') \<and> hd plan = 0)"
proof -
  let ?p = "pair_pool StrategyFailover"
  from pair_Plan_total [of StrategyFailover] obtain plan p' r' where P: "Plan ?p [] = Some (plan, p', r')" by auto
  from Plan_selects [OF P pair_healthy] show ?thesis
    using P pair_preferred [of StrategyFailover] pair_pool_eval(2) [of StrategyFailover] by simp
qed

text \<open>
  C12. Round robin is fair: while the same two or more upstreams stay healthy and the
  counter has not passed \<open>2 ^ 63\<close>, as many consecutive plans as there are healthy upstreams
  all succeed, and their first choices are the preferred paths of these upstreams in
  rotation, each exactly once.
\<close>

theorem round_robin_fair:
  assumes "p_strategy p = StrategyRoundRobin" "2 \<le> length (healthy_members p)"
    and "uint (p_rr p) + int (length (healthy_members p)) \<le> 2 ^ 63"
  shows "first_choices (length (healthy_members p)) p r =
    Some (rotate (unat (p_rr p)) (map (preferred p) (healthy_members p)))"
proof -
  have ne: "healthy_members p \<noteq> []" using assms(2) by auto
  have "map (\<lambda>i. preferred p (healthy_members p ! ((unat (p_rr p) + i) mod length (healthy_members p)))) [0..<length (healthy_members p)]
      = map (preferred p) (rotate (unat (p_rr p)) (healthy_members p))"
    using rotation_of_list [OF ne, of "unat (p_rr p)"] by (metis (no_types, lifting) map_map comp_apply map_eq_conv)
  then show ?thesis using first_choices_round_robin [OF assms] by (simp add: rotate_map)
qed

theorem round_robin_fair_witness:
  "first_choices 2 (pair_pool StrategyRoundRobin) [] = Some [0, 2]"
  using round_robin_fair [of "pair_pool StrategyRoundRobin" "[]"] pair_pool_eval [of StrategyRoundRobin]
    pair_healthy [of StrategyRoundRobin] pair_preferred [of StrategyRoundRobin]
  by (simp add: numeral_2_eq_2)

text \<open>
  Past \<open>2 ^ 63\<close> the counter reads as a negative number, and Go's remainder keeps the
  sign: the rotation indexes below zero and the plan panics, unless the number of healthy
  upstreams happens to divide the counter.
\<close>

lemma round_robin_panics:
  assumes "p_strategy p = StrategyRoundRobin" "2 \<le> length (healthy_members p)" "2 ^ 63 \<le> uint (p_rr p)"
  shows "Plan p r = None \<longleftrightarrow> \<not> int (length (healthy_members p)) dvd (2 ^ 64 - uint (p_rr p))"
proof -
  have ne: "healthy_members p \<noteq> []" using assms(2) by auto
  have c: "int_of_u64 (p_rr p) = uint (p_rr p) - 2 ^ 64" by (rule int_of_u64_big [OF assms(3)])
  have "uint (p_rr p) - 2 ^ 64 < 0" using uint_lt2p [of "p_rr p"] by simp
  then have "Plan p r = None \<longleftrightarrow> \<not> int (length (healthy_members p)) dvd (uint (p_rr p) - 2 ^ 64)"
    using assms ne rotate_by_negative [OF _ ne, of "uint (p_rr p) - 2 ^ 64"] c
    by (simp add: Plan_None_iff orderLocked_def Let_def StrategyFailover_def StrategyRoundRobin_def)
  then show ?thesis by (metis dvd_minus_iff minus_diff_eq)
qed

text \<open>
  C13. The random strategy draws in proportion to the weights: whatever the shuffle before
  it did, of the equally likely values of the final draw exactly as many put a healthy
  upstream first as its weight says.
\<close>

theorem random_proportional:
  assumes "p_strategy p = StrategyRandom" "distinct us" "2 \<le> length us" "length r = length us - 1"
    and "\<forall>u \<in> set us. 1 \<le> weight_of p u" "weights p us < 2 ^ 63" "u \<in> set us"
  shows "card {d. int d < weights p us \<and> (\<exists>out p' r'. orderLocked us p (r @ [d]) = Some (u # out, p', r'))} = nat (weight_of p u)"
proof -
  let ?out = "fst (Shuffle us r)"
  have d: "distinct ?out" using assms(2) by (metis mset_Shuffle mset_eq_imp_distinct_iff)
  have w: "weights p ?out = weights p us" unfolding weights_def
    by (metis mset_Shuffle mset_map sum_mset_sum_list)
  obtain j where j: "j < length ?out" "?out ! j = u" using assms(7) by (metis in_set_conv_nth set_Shuffle)
  have "(\<exists>out p' r'. orderLocked us p (r @ [d]) = Some (u # out, p', r')) \<longleftrightarrow> fst (weightedPick p ?out [d]) = j" for d
  proof -
    from random_order_head [OF assms(1,3,4), of d] obtain out p' r' where
      o: "orderLocked us p (r @ [d]) = Some (out, p', r')" "hd out = ?out ! fst (weightedPick p ?out [d])" by blast
    have "out \<noteq> []" using order.permutes [OF o(1)] assms(3) by auto
    then have "(\<exists>out p' r'. orderLocked us p (r @ [d]) = Some (u # out, p', r')) \<longleftrightarrow> hd out = u"
      unfolding o(1) by (cases out) auto
    moreover have "?out \<noteq> []" using j(1) by (metis less_nat_zero_code list.size(3))
    ultimately show ?thesis using j d weightedPick_less [of ?out p "[d]"] o(2) by (metis nth_eq_iff_index_eq)
  qed
  then show ?thesis using weightedPick_count [of ?out p j] assms(5,6) w j by simp
qed

theorem random_proportional_witness:
  "card {d. int d < 4 \<and> (\<exists>out p' r'. orderLocked [0, 1] (pair_pool StrategyRandom) ([7] @ [d]) = Some (0 # out, p', r'))} = 3"
proof -
  have "weights (pair_pool StrategyRandom) [0, 1] = 4" "\<forall>u \<in> set [0, 1]. 1 \<le> weight_of (pair_pool StrategyRandom) u"
    "weight_of (pair_pool StrategyRandom) 0 = 3"
    using pair_pool_eval(8,9) [of StrategyRandom] by (simp_all add: weights_def weight_of_def)
  then show ?thesis
    using random_proportional [of "pair_pool StrategyRandom" "[0, 1]" "[7]" 0] pair_pool_eval(2) [of StrategyRandom] by simp
qed

end
