(* ===== verification/Pool_Health.thy ===== *)
theory Pool_Health
  imports Pool_Plan
begin

text \<open>
  Health in package \<open>internal/pool\<close>: the invariant of the pool over any sequence of
  operations, the rise and fall thresholds as a refinement of a verdict computed from the
  history alone, the state change callback, the moving average of the latency, and reports
  that arrive for endpoints the pool has dropped.
\<close>

section \<open>Sequences of operations\<close>

text \<open>
  Every operation another package can call. An upstream is added the way package control
  does it, through \<open>PrepareUpstream\<close>; a failing operation changes nothing.
\<close>

datatype pool_op =
    OpAdd upstream_cfg | OpRemove string | OpStrategy string | OpDrain nat bool | OpPlan rng
  | OpProbe nat bool duration "goerr option" instant
  | OpQuery nat bool duration "goerr option" instant
  | OpInitial nat bool duration "goerr option" instant

fun pool_step :: "pool_op \<Rightarrow> pool \<Rightarrow> pool" where
  "pool_step (OpAdd uc) p =
     (case PrepareUpstream uc of
        Inl _ \<Rightarrow> p
      | Inr uc' \<Rightarrow> (case Add uc' p of Inl _ \<Rightarrow> p | Inr (_, p') \<Rightarrow> p'))"
| "pool_step (OpRemove name) p = (case Remove name p of Inl _ \<Rightarrow> p | Inr p' \<Rightarrow> p')"
| "pool_step (OpStrategy name) p = (case SetStrategy name p of Inl _ \<Rightarrow> p | Inr p' \<Rightarrow> p')"
| "pool_step (OpDrain u v) p = SetDrained u v p"
| "pool_step (OpPlan r) p = (case Plan p r of None \<Rightarrow> p | Some (_, p', _) \<Rightarrow> p')"
| "pool_step (OpProbe e ok l err now) p = fst (ReportProbe e ok l err now p)"
| "pool_step (OpQuery e ok l err now) p = fst (ReportQuery e ok l err now p)"
| "pool_step (OpInitial e up l err now) p = fst (SetInitial e up l err now p)"

lemma pool_step_wf: "pool_wf p \<Longrightarrow> pool_wf (pool_step op p)"
proof (cases op)
  case (OpAdd uc)
  assume wf: "pool_wf p"
  have "pool_wf p'" if "PrepareUpstream uc = Inr uc'" "Add uc' p = Inr (u, p')" for uc' u p'
    using Add_wf [OF wf _ that(2)] PrepareUpstream_Inr [OF that(1)] by blast
  then show ?thesis using OpAdd wf by (auto split: sum.splits)
qed (auto split: sum.splits option.splits
      dest: Remove_wf SetStrategy_wf SetDrained_wf Plan_wf
      intro: endpoint_update_wf [THEN conjunct1] ReportProbe_frame ReportQuery_frame SetInitial_frame)

interpretation pool_machine: invariant_machine pool_step pool_wf
  by unfold_locales (rule pool_step_wf)

section \<open>The verdict\<close>

text \<open>
  The specification, over the history of outcomes with the newest first: the latest run of
  at least \<open>rise\<close> successes or at least \<open>fall\<close> failures decides, and before any such run
  an endpoint is down.
\<close>

fun verdict :: "int \<Rightarrow> int \<Rightarrow> bool list \<Rightarrow> bool" where
  "verdict rise fall [] = False"
| "verdict rise fall (ok # h) =
     (if ok \<and> rise \<le> int (length (takeWhile id (ok # h))) then True
      else if \<not> ok \<and> fall \<le> int (length (takeWhile Not (ok # h))) then False
      else verdict rise fall h)"

text \<open>A report: a live query or a probe, the outcome, the latency, the error and the time.\<close>

type_synonym report = "bool \<times> bool \<times> duration \<times> goerr option \<times> instant"

fun apply_report :: "nat \<Rightarrow> report \<Rightarrow> pool \<Rightarrow> pool" where
  "apply_report e (True, ok, l, err, now) p = fst (ReportQuery e ok l err now p)"
| "apply_report e (False, ok, l, err, now) p = fst (ReportProbe e ok l err now p)"

text \<open>The outcomes that count: every probe, and the live queries when passive checks are on.\<close>

definition outcomes :: "bool \<Rightarrow> report list \<Rightarrow> bool list" where
  "outcomes passive rs = map (\<lambda>(q, ok, _). ok) (filter (\<lambda>(q, _). q \<longrightarrow> passive) rs)"

definition tracks :: "int \<Rightarrow> int \<Rightarrow> bool list \<Rightarrow> endpoint \<Rightarrow> bool" where
  "tracks rise fall h e \<longleftrightarrow> e_up e = verdict rise fall h \<and>
     e_successes e = int (length (takeWhile id h)) \<and> e_failures e = int (length (takeWhile Not h))"

lemma reported_tracks:
  assumes "tracks rise fall h e" "int (length h) + 1 < 2 ^ 63" "1 \<le> rise" "1 \<le> fall"
  shows "tracks rise fall (ok # h) (reported rise fall ok l err True now e)"
proof -
  have "int (length (takeWhile P h)) \<le> int (length h)" for P :: "bool \<Rightarrow> bool" by (simp add: length_takeWhile_le)
  then have w: "wrap64 (int (length (takeWhile P h)) + 1) = int (length (takeWhile P h)) + 1" for P :: "bool \<Rightarrow> bool"
    using assms(2) order.strict_trans1 [of "int (length (takeWhile P h)) + 1" "int (length h) + 1"] by (intro wrap64_id) simp_all
  show ?thesis
    using assms(1,3,4) w [of id] w [of Not]
    by (auto simp: tracks_def reported_def record_endpoint_def Let_def frame_simps id_def)
qed

lemma apply_report_tracks:
  assumes "p_passive p = passive" "p_rise p = rise" "p_fall p = fall" "tracks rise fall h (p_eps p e)"
    and "int (length h) + 1 < 2 ^ 63" "1 \<le> rise" "1 \<le> fall"
  shows "tracks rise fall (rev (outcomes passive [rp]) @ h) (p_eps (apply_report e rp p) e) \<and>
    p_passive (apply_report e rp p) = passive \<and> p_rise (apply_report e rp p) = rise \<and> p_fall (apply_report e rp p) = fall"
proof -
  obtain q ok l err now where rp: "rp = (q, ok, l, err, now)" by (cases rp)
  let ?e = "p_eps p e"
  have c: "tracks rise fall h (count_query ok ?e)" using assms(4) by (simp add: tracks_def count_query_def Let_def)
  have off: "tracks rise fall h (reported rise fall ok l err False now (count_query ok ?e))"
    using c by (simp add: tracks_def reported_def frame_simps)
  note eval = rp outcomes_def ReportProbe_def ReportQuery_def fst_pool_record
  show ?thesis
  proof (cases q)
    case False
    with reported_tracks [OF assms(4,5,6,7)] assms(1-3) show ?thesis by (simp add: eval)
  next
    case True
    with reported_tracks [OF c assms(5,6,7)] off assms(1-3) show ?thesis by (cases "p_passive p") (simp_all add: eval)
  qed
qed

lemma apply_reports_track:
  assumes "int (length rs) + int (length h) < 2 ^ 63" "1 \<le> p_rise p" "1 \<le> p_fall p"
    and "tracks (p_rise p) (p_fall p) h (p_eps p e)"
  shows "tracks (p_rise p) (p_fall p) (rev (outcomes (p_passive p) rs) @ h) (p_eps (fold (apply_report e) rs p) e)"
  using assms
proof (induction rs arbitrary: p h)
  case (Cons rp rs)
  let ?p = "apply_report e rp p" and ?h = "rev (outcomes (p_passive p) [rp]) @ h"
  have A: "tracks (p_rise p) (p_fall p) ?h (p_eps ?p e) \<and> p_passive ?p = p_passive p \<and> p_rise ?p = p_rise p \<and> p_fall ?p = p_fall p"
    using Cons.prems by (intro apply_report_tracks) simp_all
  have "length (outcomes (p_passive p) [rp]) \<le> 1" by (simp add: outcomes_def)
  then have "int (length rs) + int (length ?h) < 2 ^ 63" using Cons.prems(1) by simp
  with Cons.IH [of ?h ?p] A Cons.prems(2,3)
  have "tracks (p_rise p) (p_fall p) (rev (outcomes (p_passive p) rs) @ ?h) (p_eps (fold (apply_report e) rs ?p) e)" by simp
  moreover have "outcomes (p_passive p) (rp # rs) = outcomes (p_passive p) [rp] @ outcomes (p_passive p) rs"
    by (simp add: outcomes_def)
  ultimately show ?case by simp
qed (simp add: outcomes_def)

section \<open>The moving average\<close>

lemma f64_fifths: "f64 (4 / 5) = 3602879701896397 / 4503599627370496" "f64 (1 / 5) = 3602879701896397 / 18014398509481984"
  by code_simp+

lemma mix_bounds:
  fixes a b x :: rat
  assumes "0 < a" "0 < b" "a \<le> 2 ^ 50" "b \<le> 2 ^ 50"
    and "x = f64 (f64 (f64 a * f64 (4 / 5)) + f64 (f64 b * f64 (1 / 5)))"
  shows "min a b - 1 < x \<and> x < max a b + 1"
proof -
  let ?e = "1 / 2 ^ 53 :: rat"
  let ?m = "min a b" and ?M = "max a b"
  let ?p = "f64 (f64 a * f64 (4 / 5))" and ?q = "f64 (f64 b * f64 (1 / 5))"
  have nn: "0 \<le> f64 a * f64 (4 / 5)" "0 \<le> f64 b * f64 (1 / 5)"
    using assms f64_bounds(3) by (simp_all add: f64_fifths)
  have pq: "0 \<le> ?p" "0 \<le> ?q" using f64_bounds(3) nn by blast+
  note A = f64_bounds(1,2) [of a] f64_bounds(1,2) [of b] f64_bounds(1,2) [OF nn(1)] f64_bounds(1,2) [OF nn(2)]
    f64_bounds(1,2) [of "?p + ?q"]
  have M: "?m \<le> a" "?m \<le> b" "a \<le> ?M" "b \<le> ?M" "?M \<le> 2 ^ 50" using assms by simp_all
  have "x \<le> (?p + ?q) * (1 + ?e)" "(?p + ?q) * (1 - ?e) \<le> x" using A pq assms(5) by simp_all
  with A M assms(1,2) pq nn show ?thesis unfolding f64_fifths by simp linarith
qed


section \<open>Properties\<close>

text \<open>
  C6. The pool's invariant: start the pool from a validated configuration and let the
  management interface, the health checker and the query path do anything, in any order,
  with any arguments. The members keep distinct non-empty names, positive weights and at
  least one path each, no address is used twice, the flat endpoint list is exactly the
  members' paths, every path points back at its owner, the strategy stays a known one and
  the pool never becomes empty.
\<close>

theorem pool_always_wf:
  assumes "Validate c = Inr c'"
  shows "pool_wf (fold pool_step ops (New c'))"
  using Validate_Inr [OF assms] New_wf pool_machine.run_inv by blast

theorem pool_always_wf_witness:
  "\<exists>c'. Validate home_config = Inr c' \<and>
     pool_wf (fold pool_step [OpInitial 0 True 5 None 0, OpAdd home_upstream, OpRemove ''pihole-1'', OpPlan []] (New c'))"
  using home_valid pool_always_wf by blast

lemma Remove_fails_iff:
  "(\<exists>e. Remove name p = Inl e) \<longleftrightarrow> name \<notin> uc_Name ` set (pool_entries p) \<or> length (pool_entries p) = 1"
proof -
  have "index_of p name = length (p_upstreams p) \<longleftrightarrow> (\<forall>u \<in> set (p_upstreams p). u_Name (p_ups p u) \<noteq> name)"
    unfolding index_of_def by (metis (mono_tags, lifting) takeWhile_eq_all_conv takeWhile_eq_take take_all_iff length_takeWhile_le order_antisym_conv)
  then show ?thesis unfolding entries_names by (auto simp: Remove_def Let_def pool_entries_def)
qed

text \<open>
  C10. Membership is the configuration's: abstracting the heap to the list of configuration
  entries it stands for, building a pool gives the configured upstreams, adding appends the
  new entry, removing drops exactly the entry of that name, and the two refuse exactly when
  the name or an address is taken, respectively when the name is unknown or the last one.
\<close>

theorem pool_refines_entries:
  assumes "pool_wf p" "wf_upstreams [uc]"
  shows "(\<forall>u p'. Add uc p = Inr (u, p') \<longrightarrow> pool_entries p' = pool_entries p @ [uc]) \<and>
    ((\<exists>e. Add uc p = Inl e) \<longleftrightarrow> \<not> wf_upstreams (pool_entries p @ [uc])) \<and>
    (\<forall>p'. Remove name p = Inr p' \<longrightarrow> pool_entries p' = filter (\<lambda>uc. uc_Name uc \<noteq> name) (pool_entries p)) \<and>
    ((\<exists>e. Remove name p = Inl e) \<longleftrightarrow> name \<notin> uc_Name ` set (pool_entries p) \<or> length (pool_entries p) = 1)"
proof (intro conjI)
  show "\<forall>u p'. Add uc p = Inr (u, p') \<longrightarrow> pool_entries p' = pool_entries p @ [uc]"
    using Add_wf [OF assms] by blast
  show "(\<exists>e. Add uc p = Inl e) \<longleftrightarrow> \<not> wf_upstreams (pool_entries p @ [uc])"
  proof -
    have "(\<exists>e. Add uc p = Inl e) \<longleftrightarrow> add_conflict p uc (p_upstreams p) \<noteq> None"
      by (cases "add_conflict p uc (p_upstreams p)") (simp_all add: Add_def)
    then show ?thesis using assms unfolding add_conflict_entries wf_upstreams_snoc pool_wf_def by blast
  qed
  show "\<forall>p'. Remove name p = Inr p' \<longrightarrow> pool_entries p' = filter (\<lambda>uc. uc_Name uc \<noteq> name) (pool_entries p)"
    using Remove_wf [OF assms(1)] by blast
  show "(\<exists>e. Remove name p = Inl e) \<longleftrightarrow> name \<notin> uc_Name ` set (pool_entries p) \<or> length (pool_entries p) = 1"
    by (rule Remove_fails_iff)
qed

definition spare_upstream :: upstream_cfg where
  "spare_upstream = \<lparr>uc_Name = ''spare'', uc_Weight = 1, uc_Endpoints = [\<lparr>ec_Name = ''lan'', ec_Addr = ''10.0.3.1:53''\<rparr>]\<rparr>"

lemma pair_failover_wf: "pool_wf (pair_pool StrategyFailover)"
  by (rule pair_pool_wf) (simp add: ValidStrategy_def validStrategies_def)

theorem pool_refines_entries_witness:
  "\<exists>u p'. Add spare_upstream (pair_pool StrategyFailover) = Inr (u, p') \<and>
     pool_entries p' = pool_entries (pair_pool StrategyFailover) @ [spare_upstream]"
proof -
  let ?p = "pair_pool StrategyFailover"
  have "u_Name (p_ups ?p 0) = ''pihole-1''" "u_Name (p_ups ?p 1) = ''pihole-2''"
    "e_Addr (p_eps ?p 0) = ''10.0.1.1:53''" "e_Addr (p_eps ?p 1) = ''10.0.1.2:53''" "e_Addr (p_eps ?p 2) = ''10.0.2.1:53''"
    by (simp_all add: pair_eval)
  then have "add_conflict ?p spare_upstream (p_upstreams ?p) = None"
    unfolding add_conflict_None using pair_pool_eval [of StrategyFailover] by (simp add: spare_upstream_def)
  then obtain u p' where "Add spare_upstream ?p = Inr (u, p')" by (cases "append_upstream spare_upstream ?p") (simp add: Add_def)
  moreover have "wf_upstreams [spare_upstream]" by (simp add: spare_upstream_def)
  ultimately show ?thesis using pool_refines_entries [OF pair_failover_wf] by blast
qed

text \<open>
  C9. Health is exactly the damped history: whatever mixture of probes and live queries is
  reported on a fresh endpoint, its verdict is the one the specification computes from the
  outcomes alone, in which the latest run of \<open>rise\<close> successes or \<open>fall\<close> failures decides,
  live queries counting only when passive checks are enabled.
\<close>

theorem health_is_damped_history:
  assumes "p_eps p e = fresh_endpoint u ec" "1 \<le> p_rise p" "1 \<le> p_fall p" "int (length rs) < 2 ^ 63"
  shows "Healthy (fold (apply_report e) rs p) e = verdict (p_rise p) (p_fall p) (rev (outcomes (p_passive p) rs))"
proof -
  have "tracks (p_rise p) (p_fall p) [] (p_eps p e)" using assms(1) by (simp add: tracks_def fresh_endpoint_def)
  from apply_reports_track [OF _ assms(2,3) this, of rs] assms(4) show ?thesis by (simp add: tracks_def Healthy_def)
qed

theorem health_is_damped_history_witness:
  "Healthy (fold (apply_report 0) [(False, True, 5, None, 1), (True, True, 6, None, 2), (False, False, 0, None, 3)] (New home_config)) 0"
proof -
  have "p_eps (New home_config) 0 = fresh_endpoint 0 \<lparr>ec_Name = [], ec_Addr = ''192.168.1.10''\<rparr>"
    "p_rise (New home_config) = 2" "p_fall (New home_config) = 2" "p_passive (New home_config)"
    by (simp_all add: New_def home_config_def Default_def append_upstream_def buildUpstream_def Let_def)
  from health_is_damped_history [OF this(1), of "[(False, True, 5, None, 1), (True, True, 6, None, 2), (False, False, 0, None, 3)]"] this(2-4)
  show ?thesis by (simp add: outcomes_def)
qed





text \<open>
  A query still in flight when its upstream is removed reports on an endpoint the pool
  no longer has. The report is invisible: the status of the pool and the number of healthy
  upstreams are what they were.
\<close>

lemma stale_report_invisible:
  assumes "pool_wf p" "e \<notin> set (p_endpoints p)" "p' = fst (ReportQuery e ok l err now p) \<or> p' = fst (ReportProbe e ok l err now p)"
  shows "Status p' = Status p \<and> HealthyUpstreams p' = HealthyUpstreams p"
proof -
  obtain e' where p': "p' = p\<lparr>p_eps := (p_eps p)(e := e')\<rparr>"
    using assms(3) ReportQuery_frame [of e ok l err now p] ReportProbe_frame [of e ok l err now p] by blast
  have ne: "i \<noteq> e" if "u \<in> set (p_upstreams p)" "i \<in> set (u_Endpoints (p_ups p u))" for u i
    using assms(1,2) that by (auto simp: pool_wf_def heap_ok_def all_paths_def)
  have act: "Active p' u = Active p u" "Upstream_Healthy p' u = Upstream_Healthy p u" "Drained p' u = Drained p u"
    if "u \<in> set (p_upstreams p)" for u
  proof -
    have "Healthy p' i = Healthy p i" if "i \<in> set (u_Endpoints (p_ups p u))" for i
      using ne [OF \<open>u \<in> set (p_upstreams p)\<close> that] by (simp add: p' Healthy_def)
    then show "Active p' u = Active p u" "Upstream_Healthy p' u = Upstream_Healthy p u" "Drained p' u = Drained p u"
      by (auto simp: Active_def Upstream_Healthy_def Drained_def p' list_ex_iff cong: find_cong)
  qed
  then have "endpoint_view p' u i = endpoint_view p u i" if "u \<in> set (p_upstreams p)" "i \<in> set (u_Endpoints (p_ups p u))" for u i
    using that ne [OF that] by (simp add: endpoint_view_def Let_def p')
  then have "Status p' = Status p" using act
    by (auto simp: Status_def p' weight_of_def Drained_def)
  moreover have "HealthyUpstreams p' = HealthyUpstreams p"
    using act unfolding HealthyUpstreams_def by (simp add: p' cong: filter_cong)
  ultimately show ?thesis by blast
qed

end
