(* ===== verification/Dnsclient.thy ===== *)
theory Dnsclient
  imports Dnsmsg
begin

text \<open>
  Package \<open>internal/dnsclient\<close>: one exchange with one server over UDP or TCP, the
  length-prefixed framing of RFC 7766, and the classification of errors. The sockets are
  outside the program, so what they do during one exchange is a script: the error of each
  call that can fail, the datagrams or the bytes that arrive, and the error a read gives
  once nothing more arrives before the deadline. The deadline is why the script is finite.
\<close>

section \<open>The network seen by one exchange\<close>

record net_script =
  ns_dial :: "goerr option"
  ns_deadline :: "goerr option"
  ns_write :: "goerr option"
  ns_datagrams :: "bytes list"
  ns_stream :: bytes
  ns_end :: goerr
  ns_ctx :: "goerr option"
  ns_rtt :: duration

text \<open>
  A network maps the number of the exchange, the transport, the address, the query and
  the timeout to what happens.
\<close>

type_synonym network = "nat \<Rightarrow> string \<Rightarrow> string \<Rightarrow> bytes \<Rightarrow> duration \<Rightarrow> net_script"

text \<open>What one exchange gives: a response or an error, and the round-trip time.\<close>

type_synonym outcome = "bytes result \<times> duration"
type_synonym exchanger = "nat \<Rightarrow> string \<Rightarrow> string \<Rightarrow> bytes \<Rightarrow> duration \<Rightarrow> outcome"

definition ProtoUDP :: string where "ProtoUDP = ''udp''"
definition ProtoTCP :: string where "ProtoTCP = ''tcp''"

section \<open>Framing\<close>

text \<open>\<open>io.ReadFull\<close> of \<open>n\<close> bytes from a reader with \<open>avail\<close> left before \<open>fin\<close>.\<close>

definition ReadFull :: "nat \<Rightarrow> bytes \<Rightarrow> goerr \<Rightarrow> (bytes \<times> bytes) result" where
  "ReadFull n avail fin =
     (if n \<le> length avail then Inr (take n avail, drop n avail)
      else Inl (if avail \<noteq> [] \<and> fin = Sentinel EOF then Sentinel UnexpectedEOF else fin))"

definition ReadMessage :: "bytes \<Rightarrow> goerr \<Rightarrow> (bytes \<times> bytes) result" where
  "ReadMessage avail fin =
     (case ReadFull 2 avail fin of
        Inl e \<Rightarrow> Inl e
      | Inr (lenBuf, rest) \<Rightarrow>
          let n = unat (get16 lenBuf 0) in
          if n = 0 then Inl (Errorf ''zero-length DNS message'' [])
          else (case ReadFull n rest fin of
             Inl e \<Rightarrow> Inl (Wrapf ''read body: %w'' [] e)
           | Inr (msg, rest') \<Rightarrow> Inr (msg, rest')))"

text \<open>\<open>WriteMessage\<close>: an error, or the bytes put on the wire; \<open>werr\<close> is what Write returns.\<close>

definition WriteMessage :: "goerr option \<Rightarrow> bytes \<Rightarrow> bytes result" where
  "WriteMessage werr msg =
     (if MaxMessageSize < length msg then Inl (Errorf ''response exceeds maximum DNS message size'' [])
      else let framed = set16 (replicate 2 0 @ msg) 0 (word_of_nat (length msg)) in
        case werr of Some e \<Rightarrow> Inl e | None \<Rightarrow> Inr framed)"

section \<open>One exchange\<close>

fun read_udp :: "u16 \<Rightarrow> bytes list \<Rightarrow> goerr \<Rightarrow> bytes result" where
  "read_udp wantID [] fin = Inl (Wrapf ''read: %w'' [] fin)"
| "read_udp wantID (d # ds) fin =
     (let m = take MaxMessageSize d in
      if length m < HeaderLen then read_udp wantID ds fin
      else if ID m \<noteq> wantID then read_udp wantID ds fin
      else Inr m)"

definition exchangeUDP :: "net_script \<Rightarrow> bytes \<Rightarrow> bytes result" where
  "exchangeUDP conn query =
     (case ns_write conn of
        Some e \<Rightarrow> Inl (Wrapf ''write: %w'' [] e)
      | None \<Rightarrow> read_udp (ID query) (ns_datagrams conn) (ns_end conn))"

definition exchangeTCP :: "net_script \<Rightarrow> bytes \<Rightarrow> bytes result" where
  "exchangeTCP conn query =
     (if MaxMessageSize < length query then Inl (Errorf ''query exceeds maximum DNS message size'' [])
      else case ns_write conn of
        Some e \<Rightarrow> Inl (Wrapf ''write: %w'' [] e)
      | None \<Rightarrow> map_sum id fst (ReadMessage (ns_stream conn) (ns_end conn)))"

definition Exchange :: "network \<Rightarrow> exchanger" where
  "Exchange net k proto addr query timeout =
     (let conn = net k proto addr query timeout; rtt = ns_rtt conn in
      case ns_dial conn of
        Some e \<Rightarrow> (Inl (Wrapf ''dial: %w'' [] e), rtt)
      | None \<Rightarrow>
      case ns_deadline conn of
        Some e \<Rightarrow> (Inl e, rtt)
      | None \<Rightarrow>
      case (if proto = ProtoTCP then exchangeTCP conn query else exchangeUDP conn query) of
        Inl e \<Rightarrow> (case ns_ctx conn of Some ctxErr \<Rightarrow> (Inl ctxErr, rtt) | None \<Rightarrow> (Inl e, rtt))
      | Inr resp \<Rightarrow>
          (case ValidateResponse resp (ID query) of
             Some e \<Rightarrow> (Inl e, rtt)
           | None \<Rightarrow> (Inr resp, rtt)))"

definition Classify :: "goerr option \<Rightarrow> string" where
  "Classify err =
     (case err of
        None \<Rightarrow> ''none''
      | Some e \<Rightarrow>
          if net_timeout e = Some True then ''timeout''
          else if err_is e DeadlineExceeded then ''timeout''
          else if err_is e Canceled then ''canceled''
          else if err_is e EOF \<or> err_is e UnexpectedEOF then ''eof''
          else case op_error e of
            Some op \<Rightarrow> if op = ''dial'' then ''dial'' else ''network''
          | None \<Rightarrow> if err_is e ErrShortMessage \<or> err_is e ErrMalformed then ''malformed'' else ''error'')"

section \<open>Interface: a transport\<close>

text \<open>
  What the forwarder and the fallback resolver rely on: a response that comes back has
  passed \<open>ValidateResponse\<close> against the query's transaction id, and fits a TCP frame.
\<close>

locale transport =
  fixes exch :: exchanger
  assumes valid: "exch k proto addr query timeout = (Inr resp, rtt) \<Longrightarrow> ValidateResponse resp (ID query) = None"
    and fits: "exch k proto addr query timeout = (Inr resp, rtt) \<Longrightarrow> length resp \<le> MaxMessageSize"
begin

lemma response_header:
  assumes "exch k proto addr query timeout = (Inr resp, rtt)"
  shows "\<exists>hdr. ParseHeader resp = Inr hdr \<and> h_ID hdr = ID query \<and> h_QR hdr"
  using valid [OF assms] by (auto simp: ValidateResponse_def split: sum.splits if_splits)

end

section \<open>Lemmas\<close>

lemma length_framed: "WriteMessage werr msg = Inr w \<Longrightarrow> length w = length msg + 2"
  by (auto simp: WriteMessage_def Let_def split: if_splits option.splits)

lemma WriteMessage_None:
  "length msg \<le> MaxMessageSize \<Longrightarrow> WriteMessage None msg = Inr (put16 (word_of_nat (length msg)) @ msg)"
  by (simp add: WriteMessage_def Let_def set16_def put16_def numeral_eq_Suc)

lemma ReadMessage_frame:
  assumes "0 < length msg" "length msg \<le> MaxMessageSize"
  shows "ReadMessage (put16 (word_of_nat (length msg)) @ msg @ rest) fin = Inr (msg, rest)"
proof -
  let ?w = "word_of_nat (length msg) :: u16"
  have "get16 (put16 ?w) 0 = ?w" using get16_put16 [of "[]" ?w "[]"] by simp
  moreover have "unat ?w = length msg" using assms by (simp add: unat_of_nat MaxMessageSize_def)
  ultimately show ?thesis using assms by (simp add: ReadMessage_def ReadFull_def)
qed

lemma ReadMessage_length:
  assumes "ReadMessage avail fin = Inr (msg, rest)"
  shows "0 < length msg \<and> length msg \<le> MaxMessageSize \<and> length rest < length avail"
proof -
  from assms obtain b r where "ReadFull 2 avail fin = Inr (b, r)" "unat (get16 b 0) \<noteq> 0"
    "ReadFull (unat (get16 b 0)) r fin = Inr (msg, rest)"
    by (auto simp: ReadMessage_def Let_def split: sum.splits if_splits)
  then show ?thesis
    using unat_u16_less [of "get16 b 0"] by (auto simp: ReadFull_def MaxMessageSize_def split: if_splits)
qed

lemma read_udp_Inr:
  "read_udp w ds fin = Inr m \<Longrightarrow>
     \<exists>i < length ds. m = take MaxMessageSize (ds ! i) \<and> HeaderLen \<le> length m \<and> ID m = w \<and>
       (\<forall>j < i. length (take MaxMessageSize (ds ! j)) < HeaderLen \<or> ID (take MaxMessageSize (ds ! j)) \<noteq> w)"
proof (induction ds)
  case (Cons d ds)
  show ?case
  proof (cases "length (take MaxMessageSize d) < HeaderLen \<or> ID (take MaxMessageSize d) \<noteq> w")
    case True
    with Cons obtain i where "i < length ds" "m = take MaxMessageSize (ds ! i)" "HeaderLen \<le> length m"
      "ID m = w" "\<forall>j < i. length (take MaxMessageSize (ds ! j)) < HeaderLen \<or> ID (take MaxMessageSize (ds ! j)) \<noteq> w"
      by (auto simp: Let_def split: if_splits)
    with True show ?thesis by (intro exI [of _ "Suc i"]) (auto simp: less_Suc_eq_0_disj)
  next
    case False
    with Cons.prems show ?thesis by (intro exI [of _ 0]) (auto simp: Let_def)
  qed
qed simp

lemma Exchange_InrD:
  assumes "Exchange net k proto addr query timeout = (Inr resp, rtt)"
  shows "ValidateResponse resp (ID query) = None"
    and "(if proto = ProtoTCP then exchangeTCP (net k proto addr query timeout) query
          else exchangeUDP (net k proto addr query timeout) query) = Inr resp"
  using assms by (auto simp: Exchange_def Let_def split: option.splits sum.splits if_splits)

lemma Exchange_fits:
  assumes "Exchange net k proto addr query timeout = (Inr resp, rtt)"
  shows "length resp \<le> MaxMessageSize"
  using Exchange_InrD(2) [OF assms]
  by (auto simp: exchangeTCP_def exchangeUDP_def map_sum_def split: if_splits option.splits sum.splits
      dest!: ReadMessage_length read_udp_Inr)

interpretation net_exchange: transport "Exchange net" for net
  by unfold_locales (auto dest: Exchange_InrD(1) Exchange_fits)

section \<open>Properties\<close>

fun read_all :: "nat \<Rightarrow> bytes \<Rightarrow> goerr \<Rightarrow> bytes list" where
  "read_all 0 avail fin = []"
| "read_all (Suc n) avail fin =
     (case ReadMessage avail fin of Inl e \<Rightarrow> [] | Inr (m, rest) \<Rightarrow> m # read_all n rest fin)"

text \<open>
  C20. RFC 7766 framing round trip: whatever non-empty messages are written back to back
  on a connection, reading the stream gives exactly those messages in order.
\<close>

theorem framing_roundtrip:
  assumes "\<forall>m \<in> set msgs. m \<noteq> [] \<and> length m \<le> MaxMessageSize"
    and "map (WriteMessage None) msgs = map Inr frames"
  shows "read_all (length msgs) (concat frames @ rest) fin = msgs"
  using assms
proof (induction msgs arbitrary: frames)
  case (Cons m msgs)
  then obtain f fs where frames: "frames = f # fs" and f: "WriteMessage None m = Inr f"
    and fs: "map (WriteMessage None) msgs = map Inr fs" by auto
  have "f = put16 (word_of_nat (length m)) @ m" using f Cons.prems(1) by (simp add: WriteMessage_None)
  then show ?case using Cons.IH [OF _ fs] Cons.prems(1) by (simp add: frames ReadMessage_frame)
qed simp

theorem framing_roundtrip_witness:
  "read_all 2 (concat [[0, 1, 7], [0, 2, 8, 9]] @ [0]) (Sentinel EOF) = [[7], [8, 9 :: byte]]"
proof -
  have "\<forall>m \<in> set [[7], [8, 9 :: byte]]. m \<noteq> [] \<and> length m \<le> MaxMessageSize" by (simp add: MaxMessageSize_def)
  moreover have "map (WriteMessage None) [[7], [8, 9 :: byte]] = map Inr [[0, 1, 7], [0, 2, 8, 9]]"
    by (simp add: WriteMessage_None MaxMessageSize_def put16_def)
  ultimately show ?thesis
    using framing_roundtrip [of "[[7], [8, 9]]" "[[0, 1, 7], [0, 2, 8, 9]]" "[0]" "Sentinel EOF"]
    by (simp add: numeral_2_eq_2)
qed


definition example_script :: net_script where
  "example_script = \<lparr>ns_dial = None, ns_deadline = None, ns_write = None,
     ns_datagrams = [[1], [9, 9, 0x80, 0, 0, 0, 0, 0, 0, 0, 0, 0], [0, 7, 0x80, 0, 0, 0, 0, 0, 0, 0, 0, 0]],
     ns_stream = [], ns_end = Sentinel DeadlineExceeded, ns_ctx = None, ns_rtt = 5\<rparr>"


text \<open>
  The reason labels of failed exchanges stay of low cardinality: every error, however
  deeply wrapped, is classified as one of eight labels, and a timeout is always called a
  timeout.
\<close>

lemma Classify_labels:
  "Classify err \<in> {''none'', ''timeout'', ''canceled'', ''eof'', ''dial'', ''network'', ''malformed'', ''error''} \<and>
   (Classify err = ''none'' \<longleftrightarrow> err = None) \<and>
   (\<forall>e. Classify (Some e) = ''timeout'' \<longleftrightarrow> net_timeout e = Some True \<or> err_is e DeadlineExceeded)"
  by (cases err) (auto simp: Classify_def split: option.splits)

end
