(* ===== verification/GoMap.thy ===== *)
theory GoMap
  imports GoStd "HOL-Library.AList" "HOL-Library.Char_ord" "HOL-Library.List_Lexorder" "HOL-Library.Product_Lexorder"
begin

text \<open>
  Go maps from strings to counters, as association lists with distinct keys, and sorting
  of their entries; the library's orders on characters, strings and pairs make
  \<open>sort.Strings\<close> the library's \<open>sort\<close>.
\<close>

definition count_at :: "(string \<times> u64) list \<Rightarrow> string \<Rightarrow> u64" where
  "count_at m k = (case map_of m k of Some n \<Rightarrow> n | None \<Rightarrow> 0)"

text \<open>\<open>m[k]++\<close>.\<close>

definition bump :: "string \<Rightarrow> (string \<times> u64) list \<Rightarrow> (string \<times> u64) list" where
  "bump k m = AList.update k (count_at m k + 1) m"

definition add_to :: "u64 \<Rightarrow> string \<Rightarrow> (string \<times> u64) list \<Rightarrow> (string \<times> u64) list" where
  "add_to n k m = AList.update k (count_at m k + n) m"

lemma count_at_Nil [simp]: "count_at [] k = 0"
  by (simp add: count_at_def)

lemma count_at_bump: "count_at (bump l m) j = count_at m j + (if j = l then 1 else 0)"
  by (simp add: count_at_def bump_def update_conv')

lemma bump_add: "bump = add_to 1"
  by (simp add: fun_eq_iff bump_def add_to_def)

interpretation map_tally: tally count_at id add_to
  by unfold_locales (simp add: add_to_def count_at_def update_conv')

lemma distinct_bump [simp]: "distinct (map fst m) \<Longrightarrow> distinct (map fst (bump k m))"
  by (simp add: bump_def distinct_update)

text \<open>Counting a list of keys.\<close>

lemma count_at_fold_bump: "count_at (fold bump ks m) j = count_at m j + word_of_nat (length (filter (\<lambda>k. k = j) ks))"
  using map_tally.get_fold_incr [of ks m j] by (simp add: bump_add)

definition map_total :: "(string \<times> u64) list \<Rightarrow> u64" where
  "map_total m = sum_list (map snd m)"

lemma map_total_bump: "distinct (map fst m) \<Longrightarrow> map_total (bump k m) = map_total m + 1"
proof (induction m)
  case (Cons a m)
  then show ?case by (cases "fst a = k") (auto simp: map_total_def bump_def count_at_def ac_simps)
qed (simp add: map_total_def bump_def)

lemma sort_key_unique:
  assumes "mset xs = mset ys" "inj_on f (set xs)"
  shows "sort_key f xs = sort_key f ys"
proof -
  have "inj_on f (set ys)" using assms by (metis mset_eq_setD)
  then show ?thesis using assms by (intro sort_key_inj_key_eq) simp_all
qed

end
