(* ===== verification/Metrics.thy ===== *)
theory Metrics
  imports GoMap GoFloat
begin

text \<open>
  Package \<open>internal/metrics\<close>: labelled counters, a cumulative histogram, the balancer's
  metric set, and the exposition text. A Go map is an association list with distinct keys.
  The text is a list of pieces in which the \<open>%g\<close> and \<open>%f\<close> forms of a float are left as
  the number they print.
\<close>

section \<open>Labelled counters\<close>

record label =
  lb_Name :: string
  lb_Value :: string

record series =
  sr_labels :: "label list"
  sr_value :: u64

record counter_vec =
  cv_name :: string
  cv_help :: string
  cv_series :: "(string \<times> series) list"

definition NewCounterVec :: "string \<Rightarrow> string \<Rightarrow> counter_vec" where
  "NewCounterVec name help = \<lparr>cv_name = name, cv_help = help, cv_series = []\<rparr>"

definition NUL :: char where "NUL = CHR 0x00"

definition labelKey :: "label list \<Rightarrow> string" where
  "labelKey labels = concat (map (\<lambda>l. lb_Name l @ [NUL] @ lb_Value l @ [NUL]) labels)"

definition Counter_Add :: "u64 \<Rightarrow> label list \<Rightarrow> counter_vec \<Rightarrow> counter_vec" where
  "Counter_Add n labels c =
     (let key = labelKey labels;
          s = (case map_of (cv_series c) key of Some s \<Rightarrow> s | None \<Rightarrow> \<lparr>sr_labels = labels, sr_value = 0\<rparr>)
      in c\<lparr>cv_series := AList.update key (s\<lparr>sr_value := sr_value s + n\<rparr>) (cv_series c)\<rparr>)"

definition Counter_Inc :: "label list \<Rightarrow> counter_vec \<Rightarrow> counter_vec" where
  "Counter_Inc labels c = Counter_Add 1 labels c"

definition Counter_Value :: "counter_vec \<Rightarrow> label list \<Rightarrow> u64" where
  "Counter_Value c labels =
     (case map_of (cv_series c) (labelKey labels) of Some s \<Rightarrow> sr_value s | None \<Rightarrow> 0)"

section \<open>The exposition text\<close>

datatype piece = Txt string | Fmt_g rat | Fmt_f rat

definition escapeLabelValue :: "string \<Rightarrow> string" where
  "escapeLabelValue v = concat (map (\<lambda>c.
     if c = CHR 0x5C then [CHR 0x5C, CHR 0x5C]
     else if c = CHR 0x22 then [CHR 0x5C, CHR 0x22]
     else if c = CHR 0x0A then [CHR 0x5C, CHR ''n'']
     else [c]) v)"

fun render_each :: "bool \<Rightarrow> label list \<Rightarrow> string" where
  "render_each first [] = []"
| "render_each first (l # ls) =
     (if first then [] else '','') @ lb_Name l @ [CHR ''='', CHR 0x22] @ escapeLabelValue (lb_Value l) @ [CHR 0x22]
     @ render_each False ls"

definition renderLabels :: "label list \<Rightarrow> string" where
  "renderLabels labels = (if labels = [] then [] else ''{'' @ render_each True labels @ ''}'')"

definition newline :: string where "newline = [CHR 0x0A]"

definition help_lines :: "string \<Rightarrow> string \<Rightarrow> string \<Rightarrow> string" where
  "help_lines name help kind =
     ''# HELP '' @ name @ '' '' @ help @ newline @ ''# TYPE '' @ name @ '' '' @ kind @ newline"

definition counter_writeTo :: "counter_vec \<Rightarrow> piece list" where
  "counter_writeTo c =
     (let keys = sort (map fst (cv_series c));
          snapshot = map (\<lambda>k. the (map_of (cv_series c) k)) keys
      in if snapshot = [] then []
         else Txt (help_lines (cv_name c) (cv_help c) ''counter'')
              # map (\<lambda>s. Txt (cv_name c @ renderLabels (sr_labels s) @ '' '' @ dec_string (unat (sr_value s)) @ newline)) snapshot)"

section \<open>The histogram\<close>

record histogram =
  h_name :: string
  h_help :: string
  h_bounds :: "rat list"
  h_buckets :: "u64 list"
  h_count :: u64
  h_sumMicro :: u64

definition NewHistogram :: "string \<Rightarrow> string \<Rightarrow> rat list \<Rightarrow> histogram" where
  "NewHistogram name help bounds =
     \<lparr>h_name = name, h_help = help, h_bounds = bounds, h_buckets = replicate (length bounds) 0, h_count = 0, h_sumMicro = 0\<rparr>"

definition Histogram_Observe :: "rat \<Rightarrow> histogram \<Rightarrow> histogram" where
  "Histogram_Observe seconds h =
     (let h1 = h\<lparr>h_count := h_count h + 1\<rparr>;
          h2 = (if 0 < seconds then h1\<lparr>h_sumMicro := h_sumMicro h1 + word_of_int \<lfloor>f64 (seconds * 1000000)\<rfloor>\<rparr> else h1)
      in h2\<lparr>h_buckets := map2 (\<lambda>b n. if seconds \<le> b then n + 1 else n) (h_bounds h2) (h_buckets h2)\<rparr>)"

definition histogram_writeTo :: "histogram \<Rightarrow> piece list" where
  "histogram_writeTo h =
     Txt (help_lines (h_name h) (h_help h) ''histogram'')
     # concat (map2 (\<lambda>b n. [Txt (h_name h @ ''_bucket{le='' @ [CHR 0x22]), Fmt_g b,
          Txt ([CHR 0x22] @ ''} '' @ dec_string (unat n) @ newline)]) (h_bounds h) (h_buckets h))
     @ [Txt (h_name h @ ''_bucket{le='' @ [CHR 0x22] @ ''+Inf'' @ [CHR 0x22] @ ''} '' @ dec_string (unat (h_count h)) @ newline),
        Txt (h_name h @ ''_sum ''), Fmt_f (f64 (f64 (of_nat (unat (h_sumMicro h))) / 1000000)), Txt newline,
        Txt (h_name h @ ''_count '' @ dec_string (unat (h_count h)) @ newline)]"

section \<open>The metric set\<close>

record metrics =
  m_Queries :: counter_vec
  m_Responses :: counter_vec
  m_Failures :: counter_vec
  m_Retries :: counter_vec
  m_Servfails :: counter_vec
  m_HealthChecks :: counter_vec
  m_StateFlips :: counter_vec
  m_Duration :: histogram
  m_FallbackResponses :: counter_vec
  m_FallbackFailures :: counter_vec

definition duration_bounds :: "rat list" where
  "duration_bounds = map f64 [1/1000, 5/1000, 1/100, 25/1000, 5/100, 1/10, 25/100, 5/10, 1, 2, 5]"

definition NewMetrics :: metrics where
  "NewMetrics = \<lparr>
     m_Queries = NewCounterVec ''holebalancer_queries_total'' ''Client queries received, by transport.'',
     m_Responses = NewCounterVec ''holebalancer_responses_total'' ''Responses returned to clients, by upstream and response code.'',
     m_Failures = NewCounterVec ''holebalancer_upstream_failures_total'' ''Failed upstream exchanges, by reason.'',
     m_Retries = NewCounterVec ''holebalancer_retries_total'' ''Query attempts beyond the first, by reason.'',
     m_Servfails = Counter_Add 0 [] (NewCounterVec ''holebalancer_servfail_total'' ''Queries that exhausted every upstream.''),
     m_HealthChecks = NewCounterVec ''holebalancer_health_checks_total'' ''Active health probes, by result.'',
     m_StateFlips = NewCounterVec ''holebalancer_endpoint_state_changes_total'' ''Endpoint health transitions.'',
     m_Duration = NewHistogram ''holebalancer_query_duration_seconds''
       ''End-to-end time to answer a client query, including retries.'' duration_bounds,
     m_FallbackResponses = NewCounterVec ''holebalancer_fallback_responses_total''
       ''Queries answered by a public resolver because no Pi-hole could. These were NOT filtered.'',
     m_FallbackFailures = NewCounterVec ''holebalancer_fallback_failures_total''
       ''Failed attempts against a public resolver, by reason.''\<rparr>"

record gauge =
  g_Name :: string
  g_Help :: string
  g_Labels :: "label list"
  g_Value :: rat

fun first_seen :: "gauge list \<Rightarrow> string list \<Rightarrow> string list" where
  "first_seen [] order = order"
| "first_seen (g # gs) order = first_seen gs (if g_Name g \<in> set order then order else order @ [g_Name g])"

definition render_group :: "gauge list \<Rightarrow> string \<Rightarrow> piece list" where
  "render_group gauges name =
     (let group = filter (\<lambda>g. g_Name g = name) gauges
      in Txt (help_lines name (g_Help (hd group)) ''gauge'')
         # concat (map (\<lambda>g. [Txt (name @ renderLabels (g_Labels g) @ '' ''), Fmt_g (g_Value g), Txt newline]) group))"

definition Render :: "metrics \<Rightarrow> gauge list \<Rightarrow> piece list" where
  "Render m gauges =
     counter_writeTo (m_Queries m) @ counter_writeTo (m_Responses m) @ counter_writeTo (m_Failures m) @
     counter_writeTo (m_Retries m) @ counter_writeTo (m_Servfails m) @ counter_writeTo (m_HealthChecks m) @
     counter_writeTo (m_StateFlips m) @ histogram_writeTo (m_Duration m) @
     counter_writeTo (m_FallbackResponses m) @ counter_writeTo (m_FallbackFailures m) @
     concat (map (render_group gauges) (first_seen gauges []))"

section \<open>Counters as a tally\<close>

definition value_at :: "counter_vec \<Rightarrow> string \<Rightarrow> u64" where
  "value_at c key = (case map_of (cv_series c) key of Some s \<Rightarrow> sr_value s | None \<Rightarrow> 0)"

lemma value_at_Add:
  "value_at (Counter_Add n labels c) key = (if key = labelKey labels then value_at c key + n else value_at c key)"
  by (simp add: value_at_def Counter_Add_def Let_def update_conv' split: option.splits)

interpretation counter: tally value_at labelKey Counter_Add
  by unfold_locales (rule value_at_Add)

lemma Counter_Value_at: "Counter_Value c labels = value_at c (labelKey labels)"
  by (simp add: Counter_Value_def value_at_def)

text \<open>Without NUL bytes in names and values the key determines the labels.\<close>

definition nul_free :: "label list \<Rightarrow> bool" where
  "nul_free ls \<longleftrightarrow> (\<forall>l \<in> set ls. NUL \<notin> set (lb_Name l) \<and> NUL \<notin> set (lb_Value l))"

lemma nul_split: "NUL \<notin> set a \<Longrightarrow> NUL \<notin> set b \<Longrightarrow> a @ NUL # x = b @ NUL # y \<Longrightarrow> a = b \<and> x = y"
  by (induction a arbitrary: b) (auto simp: Cons_eq_append_conv)

lemma labelKey_inj: "nul_free ks \<Longrightarrow> nul_free ls \<Longrightarrow> labelKey ks = labelKey ls \<Longrightarrow> ks = ls"
proof (induction ks arbitrary: ls)
  case Nil
  then show ?case by (cases ls) (simp_all add: labelKey_def)
next
  case (Cons k ks)
  then obtain l ls' where ls: "ls = l # ls'" by (cases ls) (simp_all add: labelKey_def)
  have e: "lb_Name k @ NUL # lb_Value k @ NUL # labelKey ks = lb_Name l @ NUL # lb_Value l @ NUL # labelKey ls'"
    using Cons.prems(3) by (simp add: labelKey_def ls)
  have f: "NUL \<notin> set (lb_Name k)" "NUL \<notin> set (lb_Name l)" "NUL \<notin> set (lb_Value k)" "NUL \<notin> set (lb_Value l)"
    using Cons.prems(1,2) by (simp_all add: nul_free_def ls)
  from nul_split [OF f(1,2) e] nul_split [OF f(3,4)] have "lb_Name k = lb_Name l" "lb_Value k = lb_Value l" "labelKey ks = labelKey ls'"
    by blast+
  with Cons.IH [of ls'] Cons.prems(1,2) show ?case by (simp add: ls nul_free_def)
qed

section \<open>Escaping\<close>

text \<open>
  A scraper's view of a quoted label value: read up to the first quote that is not escaped,
  undoing the three escapes of the exposition format.
\<close>

fun read_quoted :: "string \<Rightarrow> (string \<times> string) option" where
  "read_quoted [] = None"
| "read_quoted (c # s) =
     (if c = CHR 0x22 then Some ([], s)
      else if c = CHR 0x0A then None
      else if c = CHR 0x5C then
        (case s of
           [] \<Rightarrow> None
         | d # s' \<Rightarrow> map_option (\<lambda>(v, r). ((if d = CHR ''n'' then CHR 0x0A else d) # v, r)) (read_quoted s'))
      else map_option (\<lambda>(v, r). (c # v, r)) (read_quoted s))"

lemma escapeLabelValue_Cons:
  "escapeLabelValue (c # v) = (if c = CHR 0x5C then [CHR 0x5C, CHR 0x5C] else if c = CHR 0x22 then [CHR 0x5C, CHR 0x22]
     else if c = CHR 0x0A then [CHR 0x5C, CHR ''n''] else [c]) @ escapeLabelValue v" "escapeLabelValue [] = []"
  by (simp_all add: escapeLabelValue_def)

lemma read_quoted_escape: "read_quoted (escapeLabelValue v @ CHR 0x22 # rest) = Some (v, rest)"
  by (induction v) (simp_all add: escapeLabelValue_Cons)

section \<open>Histogram\<close>

lemma Observe_frame [simp]:
  "h_bounds (Histogram_Observe x h) = h_bounds h" "h_count (Histogram_Observe x h) = h_count h + 1"
  "length (h_buckets h) = length (h_bounds h) \<Longrightarrow> length (h_buckets (Histogram_Observe x h)) = length (h_bounds h)"
  "i < length (h_bounds h) \<Longrightarrow> length (h_buckets h) = length (h_bounds h) \<Longrightarrow>
     h_buckets (Histogram_Observe x h) ! i = h_buckets h ! i + (if x \<le> h_bounds h ! i then 1 else 0)"
  by (simp_all add: Histogram_Observe_def Let_def)

lemma Observe_fold:
  "length (h_buckets h) = length (h_bounds h) \<Longrightarrow>
     h_count (fold Histogram_Observe xs h) = h_count h + word_of_nat (length xs) \<and>
     length (h_buckets (fold Histogram_Observe xs h)) = length (h_bounds h) \<and>
     (\<forall>i < length (h_bounds h). h_buckets (fold Histogram_Observe xs h) ! i =
        h_buckets h ! i + word_of_nat (length (filter (\<lambda>x. x \<le> h_bounds h ! i) xs)))"
  by (induction xs arbitrary: h) simp_all

section \<open>Properties\<close>

text \<open>
  C21. The counters count: after any sequence of increments on a fresh counter, the value of
  a label set is the number of increments made with exactly these labels, modulo \<open>2 ^ 64\<close>,
  as long as no label holds a NUL byte.
\<close>

theorem counters_count:
  assumes "\<forall>ls \<in> set incs. nul_free ls" "nul_free labels"
  shows "Counter_Value (fold Counter_Inc incs (NewCounterVec name help)) labels = word_of_nat (count_list incs labels)"
proof -
  have "filter (\<lambda>ls. labelKey ls = labelKey labels) incs = filter (\<lambda>ls. ls = labels) incs"
    using assms labelKey_inj by (intro filter_cong) auto
  moreover have "length (filter (\<lambda>ls. ls = labels) incs) = count_list incs labels" by (induction incs) auto
  moreover have "Counter_Inc = Counter_Add 1" by (simp add: fun_eq_iff Counter_Inc_def)
  ultimately show ?thesis
    using counter.get_fold_incr [of incs "NewCounterVec name help" "labelKey labels"]
    by (simp add: Counter_Value_at value_at_def NewCounterVec_def)
qed

theorem counters_count_witness:
  "Counter_Value (fold Counter_Inc [[\<lparr>lb_Name = ''proto'', lb_Value = ''udp''\<rparr>], [\<lparr>lb_Name = ''proto'', lb_Value = ''tcp''\<rparr>],
     [\<lparr>lb_Name = ''proto'', lb_Value = ''udp''\<rparr>]] (NewCounterVec ''q'' ''h'')) [\<lparr>lb_Name = ''proto'', lb_Value = ''udp''\<rparr>] = 2"
  using counters_count [of "[[\<lparr>lb_Name = ''proto'', lb_Value = ''udp''\<rparr>], [\<lparr>lb_Name = ''proto'', lb_Value = ''tcp''\<rparr>],
     [\<lparr>lb_Name = ''proto'', lb_Value = ''udp''\<rparr>]]" "[\<lparr>lb_Name = ''proto'', lb_Value = ''udp''\<rparr>]" "''q''" "''h''"]
  by (simp add: nul_free_def NUL_def del: fold_simps)

text \<open>
  No label value can break out of its quotes: whatever bytes an upstream's name holds,
  a scraper reading the escaped value up to the closing quote gets exactly the value back
  and continues right behind it.
\<close>

lemma escape_roundtrip:
  "read_quoted (escapeLabelValue v @ CHR 0x22 # rest) = Some (v, rest)"
  by (rule read_quoted_escape)

text \<open>
  The histogram is cumulative: after any samples, every bucket holds the number of
  samples up to its bound and the count holds them all, modulo \<open>2 ^ 64\<close>.
\<close>

lemma histogram_cumulative:
  assumes "i < length bounds"
  shows "h_buckets (fold Histogram_Observe xs (NewHistogram name help bounds)) ! i =
      word_of_nat (length (filter (\<lambda>x. x \<le> bounds ! i) xs)) \<and>
    h_count (fold Histogram_Observe xs (NewHistogram name help bounds)) = word_of_nat (length xs)"
  using Observe_fold [of "NewHistogram name help bounds" xs] assms by (simp add: NewHistogram_def)

end
