(* ===== verification/Fallback.thy ===== *)
theory Fallback
  imports Dnsclient Pool_Plan Metrics
begin

text \<open>
  Package \<open>internal/fallback\<close>: the public resolvers used when no Pi-hole can answer, and
  the tracker that accounts for their use in reporting windows. The exchange with a server
  is a parameter, indexed by the number of exchanges made before it; so is the state of the
  query's context at each point. The clock is an argument.
\<close>

section \<open>The tracker\<close>

record tracker =
  tk_interval :: duration
  tk_windowStart :: instant
  tk_queries :: u64
  tk_failures :: u64
  tk_perServer :: "(string \<times> u64) list"
  tk_episodes :: int
  tk_total :: duration
  tk_longest :: duration
  tk_inOutage :: bool
  tk_outageStart :: instant

definition NewTracker :: "config \<Rightarrow> instant \<Rightarrow> tracker" where
  "NewTracker cfg now = \<lparr>tk_interval = fc_SummaryInterval (c_Fallback cfg), tk_windowStart = now, tk_queries = 0, tk_failures = 0,
     tk_perServer = [], tk_episodes = 0, tk_total = 0, tk_longest = 0, tk_inOutage = False, tk_outageStart = 0\<rparr>"

definition addOutageLocked :: "duration \<Rightarrow> tracker \<Rightarrow> tracker" where
  "addOutageLocked d t =
     (let t1 = t\<lparr>tk_total := tk_total t + d\<rparr> in if tk_longest t1 < d then t1\<lparr>tk_longest := d\<rparr> else t1)"

definition Tracker_Observe :: "instant \<Rightarrow> bool \<Rightarrow> tracker \<Rightarrow> tracker" where
  "Tracker_Observe now allDown t =
     (if allDown \<and> \<not> tk_inOutage t then t\<lparr>tk_inOutage := True, tk_outageStart := now, tk_episodes := tk_episodes t + 1\<rparr>
      else if \<not> allDown \<and> tk_inOutage t then addOutageLocked (now - tk_outageStart t) (t\<lparr>tk_inOutage := False\<rparr>)
      else t)"

definition RecordQuery :: "string \<Rightarrow> bool \<Rightarrow> tracker \<Rightarrow> tracker" where
  "RecordQuery server ok t =
     (let t1 = t\<lparr>tk_queries := tk_queries t + 1\<rparr>
      in if ok then t1\<lparr>tk_perServer := bump server (tk_perServer t1)\<rparr> else t1\<lparr>tk_failures := tk_failures t1 + 1\<rparr>)"

record summary =
  sm_Start :: instant
  sm_End :: instant
  sm_Queries :: u64
  sm_Failures :: u64
  sm_PerServer :: "(string \<times> u64) list"
  sm_Episodes :: int
  sm_TotalOutage :: duration
  sm_LongestOutage :: duration
  sm_Ongoing :: bool

definition Empty :: "summary \<Rightarrow> bool" where
  "Empty s \<longleftrightarrow> sm_Queries s = 0 \<and> sm_Episodes s = 0 \<and> \<not> sm_Ongoing s"

definition snapshotLocked :: "instant \<Rightarrow> tracker \<Rightarrow> summary" where
  "snapshotLocked now t =
     (let s = \<lparr>sm_Start = tk_windowStart t, sm_End = now, sm_Queries = tk_queries t, sm_Failures = tk_failures t,
               sm_PerServer = tk_perServer t, sm_Episodes = tk_episodes t, sm_TotalOutage = tk_total t,
               sm_LongestOutage = tk_longest t, sm_Ongoing = tk_inOutage t\<rparr>
      in if tk_inOutage t then
           (let d = now - tk_outageStart t; s1 = s\<lparr>sm_TotalOutage := sm_TotalOutage s + d\<rparr>
            in if sm_LongestOutage s1 < d then s1\<lparr>sm_LongestOutage := d\<rparr> else s1)
         else s)"

definition take_window :: "instant \<Rightarrow> tracker \<Rightarrow> summary \<times> tracker" where
  "take_window now t =
     (let s = snapshotLocked now t;
          t1 = t\<lparr>tk_windowStart := now, tk_queries := 0, tk_failures := 0, tk_perServer := [], tk_episodes := 0, tk_total := 0, tk_longest := 0\<rparr>
      in (s, if tk_inOutage t1 then t1\<lparr>tk_outageStart := now, tk_episodes := 1\<rparr> else t1))"

text \<open>\<open>Report\<close>: the summary that is logged, if any.\<close>

definition Report :: "instant \<Rightarrow> tracker \<Rightarrow> summary option \<times> tracker" where
  "Report now t = (case take_window now t of (s, t') \<Rightarrow> (if Empty s then None else Some s, t'))"

fun join_counts :: "bool \<Rightarrow> (string \<times> u64) list \<Rightarrow> string list \<Rightarrow> string" where
  "join_counts first m [] = []"
| "join_counts first m (k # ks) =
     (if first then [] else '' '') @ k @ ''='' @ dec_string (unat (count_at m k)) @ join_counts False m ks"

definition formatServers :: "(string \<times> u64) list \<Rightarrow> string" where
  "formatServers m = (if m = [] then ''none'' else join_counts True m (sort (map fst m)))"

section \<open>The resolver\<close>

record resolver =
  rv_timeout :: duration
  rv_retry :: "rcode \<Rightarrow> bool"
  rv_servers :: "string list"
  rv_rr :: u64

definition NewResolver :: "config \<Rightarrow> resolver" where
  "NewResolver cfg = \<lparr>rv_timeout = fc_Timeout (c_Fallback cfg), rv_retry = ShouldRetryRCode (c_Query cfg),
     rv_servers = (if fc_Enabled (c_Fallback cfg) then fc_Servers (c_Fallback cfg) else []), rv_rr = 0\<rparr>"

definition Enabled :: "resolver \<Rightarrow> bool" where
  "Enabled r \<longleftrightarrow> rv_servers r \<noteq> []"

definition SetServers :: "bool \<Rightarrow> string list \<Rightarrow> resolver \<Rightarrow> resolver" where
  "SetServers enabled servers r = (if \<not> enabled then r\<lparr>rv_servers := []\<rparr> else r\<lparr>rv_servers := servers\<rparr>)"

text \<open>The header a discarded parse error leaves behind is the zero header.\<close>

definition resp_rcode :: "bytes \<Rightarrow> rcode" where
  "resp_rcode resp = (case ParseHeader resp of Inl _ \<Rightarrow> 0 | Inr h \<Rightarrow> h_RCode h)"


definition server_labels :: "string \<Rightarrow> string \<Rightarrow> string \<Rightarrow> label list" where
  "server_labels server name v = [\<lparr>lb_Name = ''server'', lb_Value = server\<rparr>, \<lparr>lb_Name = name, lb_Value = v\<rparr>]"

definition count_failure :: "string \<Rightarrow> string \<Rightarrow> metrics \<Rightarrow> metrics" where
  "count_failure server why m = m\<lparr>m_FallbackFailures := Counter_Inc (server_labels server ''reason'' why) (m_FallbackFailures m)\<rparr>"

definition count_response :: "string \<Rightarrow> rcode \<Rightarrow> metrics \<Rightarrow> metrics" where
  "count_response server rc m = m\<lparr>m_FallbackResponses := Counter_Inc (server_labels server ''rcode'' (RCode_String rc)) (m_FallbackResponses m)\<rparr>"

text \<open>
  The loop over the rotated servers. \<open>k\<close> counts the exchanges made, \<open>ctx k\<close> is the error
  of the query's context before exchange \<open>k\<close>.
\<close>

fun try_servers ::
  "exchanger \<Rightarrow> (nat \<Rightarrow> goerr option) \<Rightarrow> resolver \<Rightarrow> bytes \<Rightarrow> string \<Rightarrow> string list \<Rightarrow> goerr option \<Rightarrow> nat \<Rightarrow> tracker \<Rightarrow> metrics \<Rightarrow>
     (bytes \<times> string) result \<times> nat \<times> tracker \<times> metrics" where
  "try_servers exch ctx r req proto [] lastErr k t m =
     (Inl (case lastErr of None \<Rightarrow> Errorf ''fallback: no resolver answered'' [] | Some e \<Rightarrow> e), k, t, m)"
| "try_servers exch ctx r req proto (server # rest) lastErr k t m =
     (case ctx k of
        Some e \<Rightarrow> (Inl e, k, t, m)
      | None \<Rightarrow>
          (case fst (exch k proto server req (rv_timeout r)) of
             Inl err \<Rightarrow>
               try_servers exch ctx r req proto rest (Some err) (k + 1) (RecordQuery server False t)
                 (count_failure server (Classify (Some err)) m)
           | Inr resp \<Rightarrow>
               (let rc = resp_rcode resp in
                if rv_retry r rc \<and> rest \<noteq> [] then
                  try_servers exch ctx r req proto rest
                    (Some (Errorf ''fallback resolver %s returned %s'' [server, RCode_String rc])) (k + 1)
                    (RecordQuery server False t) (count_failure server (''rcode_'' @ RCode_String rc) m)
                else (Inr (resp, server), k + 1, RecordQuery server True t, count_response server rc m))))"

text \<open>
  \<open>Resolve\<close>. The result \<open>None\<close> is the panic of an index below zero, which the check of the
  context comes before.
\<close>

definition Resolver_Resolve ::
  "exchanger \<Rightarrow> (nat \<Rightarrow> goerr option) \<Rightarrow> bytes \<Rightarrow> string \<Rightarrow> resolver \<Rightarrow> nat \<Rightarrow> tracker \<Rightarrow> metrics \<Rightarrow>
     ((bytes \<times> string) result \<times> resolver \<times> nat \<times> tracker \<times> metrics) option" where
  "Resolver_Resolve exch ctx req proto r k t m =
     (if \<not> Enabled r then Some (Inl (Sentinel ErrDisabled), r, k, t, m)
      else let r' = r\<lparr>rv_rr := rv_rr r + 1\<rparr> in
        case rotate_by (int_of_u64 (rv_rr r' - 1)) (rv_servers r) of
          None \<Rightarrow> (case ctx k of Some e \<Rightarrow> Some (Inl e, r', k, t, m) | None \<Rightarrow> None)
        | Some order \<Rightarrow>
            (case try_servers exch ctx r req proto order None k t m of (res, k', t', m') \<Rightarrow> Some (res, r', k', t', m')))"

section \<open>Accounting of windows\<close>

text \<open>The events the tracker sees, and the summaries it hands out.\<close>

datatype tracker_event = Ob bool | is_Rq: Rq string bool | Tk

fun track :: "instant \<times> tracker_event \<Rightarrow> tracker \<times> summary list \<Rightarrow> tracker \<times> summary list" where
  "track (now, Ob d) (t, ss) = (Tracker_Observe now d t, ss)"
| "track (now, Rq server ok) (t, ss) = (RecordQuery server ok t, ss)"
| "track (now, Tk) (t, ss) = (case take_window now t of (s, t') \<Rightarrow> (t', ss @ [s]))"

text \<open>
  \<open>Tracker.Run\<close>: the windows of the ticks, among the other events, and the last one when the
  context ends. \<open>time.NewTicker\<close> panics on an interval that is not positive.
\<close>

definition Tracker_Run :: "(instant \<times> tracker_event) list \<Rightarrow> instant \<Rightarrow> tracker \<Rightarrow> (tracker \<times> summary list) option" where
  "Tracker_Run evs stop t = (if tk_interval t \<le> 0 then None else Some (track (stop, Tk) (fold track evs (t, []))))"

lemma Tracker_Run_None: "Tracker_Run evs stop t = None \<longleftrightarrow> tk_interval t \<le> 0"
  by (simp add: Tracker_Run_def del: track.simps)

text \<open>
  The specification of the time spent in outage: a stop watch that an observation starts or
  stops and that nothing else touches.
\<close>

fun stopwatch :: "instant \<times> tracker_event \<Rightarrow> instant option \<times> duration \<Rightarrow> instant option \<times> duration" where
  "stopwatch (now, Ob True) (None, d) = (Some now, d)"
| "stopwatch (now, Ob False) (Some t0, d) = (None, d + (now - t0))"
| "stopwatch (now, _) w = w"

definition stopwatch_read :: "instant \<Rightarrow> instant option \<times> duration \<Rightarrow> duration" where
  "stopwatch_read now w = snd w + (case fst w of None \<Rightarrow> 0 | Some t0 \<Rightarrow> now - t0)"

definition outage_reported :: "instant \<Rightarrow> tracker \<times> summary list \<Rightarrow> duration" where
  "outage_reported now ts = sum_list (map sm_TotalOutage (snd ts)) + sm_TotalOutage (snapshotLocked now (fst ts))"

definition in_step :: "instant option \<times> duration \<Rightarrow> tracker \<times> summary list \<Rightarrow> bool" where
  "in_step w ts \<longleftrightarrow> (tk_inOutage (fst ts) \<longleftrightarrow> fst w \<noteq> None) \<and> (\<forall>now. outage_reported now ts = stopwatch_read now w)"

lemma snapshot_outage: "sm_TotalOutage (snapshotLocked now t) = tk_total t + (if tk_inOutage t then now - tk_outageStart t else 0)"
  by (simp add: snapshotLocked_def Let_def)

lemma in_step_track: "in_step w ts \<Longrightarrow> in_step (stopwatch ev w) (track ev ts)"
proof -
  assume a: "in_step w ts"
  obtain now e where ev: "ev = (now, e)" by (cases ev)
  obtain t ss where ts: "ts = (t, ss)" by (cases ts)
  obtain t0 d where w: "w = (t0, d)" by (cases w)
  show ?thesis
  proof (cases e)
    case (Ob b)
    with a show ?thesis
      by (cases b; cases t0) (auto simp: ev ts w in_step_def outage_reported_def stopwatch_read_def snapshot_outage
          Tracker_Observe_def addOutageLocked_def Let_def)
  next
    case (Rq server ok)
    with a show ?thesis
      by (auto simp: ev ts w in_step_def outage_reported_def stopwatch_read_def snapshot_outage RecordQuery_def Let_def)
  next
    case Tk
    with a show ?thesis
      by (auto simp: ev ts w in_step_def outage_reported_def stopwatch_read_def snapshot_outage take_window_def Let_def)
  qed
qed

lemma in_step_run: "in_step w ts \<Longrightarrow> in_step (fold stopwatch evs w) (fold track evs ts)"
  by (induction evs arbitrary: w ts) (simp_all add: in_step_track)

text \<open>Queries add up within a window.\<close>

definition tracker_ok :: "tracker \<Rightarrow> bool" where
  "tracker_ok t \<longleftrightarrow> tk_queries t = tk_failures t + map_total (tk_perServer t) \<and> distinct (map fst (tk_perServer t)) \<and>
     0 \<le> tk_longest t \<and> (tk_inOutage t \<longrightarrow> 1 \<le> tk_episodes t) \<and> 0 \<le> tk_episodes t"

lemma RecordQuery_ok: "tracker_ok t \<Longrightarrow> tracker_ok (RecordQuery server ok t)"
  by (auto simp: tracker_ok_def RecordQuery_def Let_def map_total_bump ac_simps)

lemma track_ok: "tracker_ok (fst ts) \<Longrightarrow> tracker_ok (fst (track ev ts))"
proof -
  assume a: "tracker_ok (fst ts)"
  obtain now e where ev: "ev = (now, e)" by (cases ev)
  obtain t ss where ts: "ts = (t, ss)" by (cases ts)
  from a show ?thesis
    by (cases e) (auto simp: ev ts RecordQuery_ok, auto simp: tracker_ok_def Tracker_Observe_def addOutageLocked_def take_window_def
        map_total_def Let_def)
qed

interpretation tracker_machine: invariant_machine track "\<lambda>ts. tracker_ok (fst ts)"
  by unfold_locales (rule track_ok)


lemma windows_queries:
  "sum_list (map sm_Queries (snd (fold track evs ts))) + tk_queries (fst (fold track evs ts)) =
     sum_list (map sm_Queries (snd ts)) + tk_queries (fst ts) +
     word_of_nat (length (filter (\<lambda>(_, e). is_Rq e) evs))"
proof (induction evs arbitrary: ts)
  case (Cons ev evs)
  obtain now e where ev: "ev = (now, e)" by (cases ev)
  obtain t ss where ts: "ts = (t, ss)" by (cases ts)
  have "sum_list (map sm_Queries (snd (track ev ts))) + tk_queries (fst (track ev ts)) =
      sum_list (map sm_Queries ss) + tk_queries t + (if is_Rq e then 1 else 0)"
    by (cases e) (simp_all add: ev ts Tracker_Observe_def addOutageLocked_def RecordQuery_def take_window_def snapshotLocked_def Let_def)
  with Cons [of "track ev ts"] show ?case by (simp add: ev ts)
qed simp

lemma take_window_summary:
  assumes "tracker_ok t"
  shows "sm_Queries (fst (take_window now t)) = sm_Failures (fst (take_window now t)) + map_total (sm_PerServer (fst (take_window now t)))"
  using assms by (simp add: take_window_def snapshotLocked_def tracker_ok_def Let_def)

lemma summaries_add_up:
  assumes "tracker_ok (fst ts)" "\<forall>s \<in> set (snd ts). sm_Queries s = sm_Failures s + map_total (sm_PerServer s)"
  shows "\<forall>s \<in> set (snd (fold track evs ts)). sm_Queries s = sm_Failures s + map_total (sm_PerServer s)"
  using assms
proof (induction evs arbitrary: ts)
  case (Cons ev evs)
  obtain now e where ev: "ev = (now, e)" by (cases ev)
  obtain t ss where ts: "ts = (t, ss)" by (cases ts)
  have "\<forall>s \<in> set (snd (track ev ts)). sm_Queries s = sm_Failures s + map_total (sm_PerServer s)"
    using Cons.prems take_window_summary [of t now] by (cases e) (auto simp: ev ts split: prod.splits)
  with Cons.IH [of "track ev ts"] track_ok [OF Cons.prems(1)] show ?case by simp
qed simp

section \<open>The resolver's loop\<close>

text \<open>An answer the loop stops at: any response with a code that is not to be retried, and any response of the last server.\<close>

definition acceptable :: "exchanger \<Rightarrow> resolver \<Rightarrow> bytes \<Rightarrow> string \<Rightarrow> string list \<Rightarrow> nat \<Rightarrow> nat \<Rightarrow> bool" where
  "acceptable exch r req proto order k i =
     (case fst (exch (k + i) proto (order ! i) req (rv_timeout r)) of
        Inl _ \<Rightarrow> False
      | Inr resp \<Rightarrow> rv_retry r (resp_rcode resp) \<longrightarrow> i = length order - 1)"

lemma acceptable_Suc:
  "i < length rest \<Longrightarrow> acceptable exch r req proto (s # rest) k (Suc i) = acceptable exch r req proto rest (k + 1) i"
  by (auto simp: acceptable_def split: sum.splits)

definition first_answer :: "exchanger \<Rightarrow> resolver \<Rightarrow> bytes \<Rightarrow> string \<Rightarrow> string list \<Rightarrow> nat \<Rightarrow> (bytes \<times> string) result \<Rightarrow> nat \<Rightarrow> bool" where
  "first_answer exch r req proto order k res k' =
     (case res of
        Inr (resp, server) \<Rightarrow> \<exists>i < length order. server = order ! i \<and> k' = k + i + 1 \<and>
          fst (exch (k + i) proto server req (rv_timeout r)) = Inr resp \<and>
          acceptable exch r req proto order k i \<and> (\<forall>j < i. \<not> acceptable exch r req proto order k j)
      | Inl _ \<Rightarrow> k' = k + length order \<and> (\<forall>i < length order. \<not> acceptable exch r req proto order k i))"

lemma first_answer_step:
  assumes "\<not> acceptable exch r req proto (s # rest) k 0" "first_answer exch r req proto rest (k + 1) res k'"
  shows "first_answer exch r req proto (s # rest) k res k'"
proof (cases res)
  case (Inl e)
  have "\<not> acceptable exch r req proto (s # rest) k i" if "i < length (s # rest)" for i
    using assms that Inl acceptable_Suc [of "i - 1" rest] by (cases i) (auto simp: first_answer_def)
  with assms(2) Inl show ?thesis by (simp add: first_answer_def)
next
  case (Inr a)
  obtain resp server where a: "a = (resp, server)" by (cases a)
  with assms(2) Inr obtain i where i: "i < length rest" "server = rest ! i" "k' = k + 1 + i + 1"
    "fst (exch (k + 1 + i) proto server req (rv_timeout r)) = Inr resp" "acceptable exch r req proto rest (k + 1) i"
    "\<forall>j < i. \<not> acceptable exch r req proto rest (k + 1) j" by (auto simp: first_answer_def)
  have "\<not> acceptable exch r req proto (s # rest) k j" if "j < Suc i" for j
    using that assms(1) i(1,6) acceptable_Suc [of "j - 1" rest] by (cases j) auto
  with i acceptable_Suc [OF i(1)] show ?thesis
    unfolding first_answer_def Inr a sum.case prod.case by (intro exI [of _ "Suc i"]) simp
qed

lemma try_servers_first:
  assumes "\<forall>j. ctx j = None"
  shows "case try_servers exch ctx r req proto order lastErr k t m of (res, k', t', m') \<Rightarrow> first_answer exch r req proto order k res k'"
  using assms
proof (induction exch ctx r req proto order lastErr k t m rule: try_servers.induct)
  case (2 exch ctx r req proto server rest lastErr k t m)
  have c: "ctx k = None" using "2.prems" by simp
  show ?case
  proof (cases "fst (exch k proto server req (rv_timeout r))")
    case (Inl err)
    then have "\<not> acceptable exch r req proto (server # rest) k 0" by (simp add: acceptable_def)
    with "2.IH"(1) [OF c Inl "2.prems"] Inl c show ?thesis by (auto intro: first_answer_step)
  next
    case (Inr resp)
    show ?thesis
    proof (cases "rv_retry r (resp_rcode resp) \<and> rest \<noteq> []")
      case True
      then have "\<not> acceptable exch r req proto (server # rest) k 0" using Inr by (simp add: acceptable_def)
      with "2.IH"(2) [OF c Inr refl True "2.prems"] Inr c True show ?thesis by (auto intro: first_answer_step)
    next
      case False
      then have "acceptable exch r req proto (server # rest) k 0" using Inr by (auto simp: acceptable_def)
      with Inr c False show ?thesis by (auto simp: first_answer_def)
    qed
  qed
qed (simp add: first_answer_def)

lemma try_servers_counted:
  "case try_servers exch ctx r req proto order lastErr k t m of (res, k', t', m') \<Rightarrow>
     k \<le> k' \<and> tk_queries t' = tk_queries t + word_of_nat (k' - k)"
proof (induction exch ctx r req proto order lastErr k t m rule: try_servers.induct)
  case (2 exch ctx r req proto server rest lastErr k t m)
  have q: "tk_queries (RecordQuery server ok t) = tk_queries t + 1" for ok by (simp add: RecordQuery_def Let_def)
  have s: "word_of_nat (k' - k) = (1 :: u64) + word_of_nat (k' - Suc k)" if "Suc k \<le> k'" for k'
    using that by (metis Suc_diff_Suc Suc_le_lessD of_nat_Suc)
  show ?case
  proof (cases "ctx k")
    case None
    show ?thesis
      using "2.IH"(1) [OF None] "2.IH"(2) [OF None _ refl] None
      by (auto simp: q s Let_def split: sum.splits prod.splits)
  qed simp
qed simp


text \<open>The rotation, below \<open>2 ^ 63\<close> queries.\<close>

lemma rotation_defined:
  assumes "Enabled r" "uint (rv_rr r) < 2 ^ 63"
  shows "rotate_by (int_of_u64 (rv_rr r)) (rv_servers r) = Some (rotate (unat (rv_rr r)) (rv_servers r))"
proof -
  have ne: "rv_servers r \<noteq> []" using assms(1) by (simp add: Enabled_def)
  have "nat (uint (rv_rr r) mod int (length (rv_servers r))) = unat (rv_rr r) mod length (rv_servers r)"
    by (metis nat_int of_nat_unat zmod_int)
  then show ?thesis
    using rotate_by_nonneg [OF _ ne, of "uint (rv_rr r)"] int_of_u64_small [OF assms(2)] by (simp flip: rotate_conv_mod)
qed

lemma Resolver_total: "uint (rv_rr r) < 2 ^ 63 \<Longrightarrow> Resolver_Resolve exch ctx req proto r k t m \<noteq> None"
  using rotation_defined [of r] by (auto simp: Resolver_Resolve_def split: prod.splits)

lemma try_servers_response:
  "case try_servers exch ctx r req proto order lastErr k t m of (res, k', t', m') \<Rightarrow>
     \<forall>resp server. res = Inr (resp, server) \<longrightarrow> k < k' \<and> k' \<le> k + length order \<and> (\<exists>j. fst (exch j proto server req (rv_timeout r)) = Inr resp)"
proof (induction exch ctx r req proto order lastErr k t m rule: try_servers.induct)
  case (2 exch ctx r req proto server rest lastErr k t m)
  show ?case
  proof (cases "ctx k")
    case None
    show ?thesis
      using "2.IH"(1) [OF None] "2.IH"(2) [OF None _ refl] None
      by (auto simp: Let_def split: sum.splits prod.splits)
  qed simp
qed simp

lemma Resolver_response:
  assumes "Resolver_Resolve exch ctx req proto r k t m = Some (Inr (resp, server), r', k', t', m')"
  shows "k < k' \<and> k' \<le> k + length (rv_servers r) \<and> (\<exists>j. fst (exch j proto server req (rv_timeout r)) = Inr resp)"
proof -
  from assms obtain order where "try_servers exch ctx r req proto order None k t m = (Inr (resp, server), k', t', m')"
    "length order = length (rv_servers r)"
    by (auto simp: Resolver_Resolve_def Let_def split: if_splits option.splits prod.splits dest!: rotate_by_mset mset_eq_length)
  with try_servers_response [where exch = exch and ctx = ctx and r = r and req = req and proto = proto and order = order and lastErr = None
      and k = k and t = t and m = m] show ?thesis by simp
qed

lemma Resolver_counted:
  assumes "Resolver_Resolve exch ctx req proto r k t m = Some (res, r', k', t', m')"
  shows "k \<le> k' \<and> tk_queries t' = tk_queries t + word_of_nat (k' - k)"
proof (cases "k' = k \<and> t' = t")
  case False
  with assms obtain order where "try_servers exch ctx r req proto order None k t m = (res, k', t', m')"
    by (auto simp: Resolver_Resolve_def Let_def split: if_splits option.splits prod.splits)
  with try_servers_counted [where exch = exch and ctx = ctx and r = r and req = req and proto = proto and order = order and lastErr = None
      and k = k and t = t and m = m] show ?thesis by simp
qed simp

section \<open>Properties\<close>

text \<open>
  C24. No outage time is lost and none is counted twice: however observations, queries and
  reports interleave, the outage time in the summaries handed out so far plus the one in
  the current window is exactly what a stop watch would show that runs while every Pi-hole
  is down, even for an outage that spans several reporting windows.
\<close>

theorem outage_time_conserved:
  "outage_reported now (fold track evs (NewTracker cfg t0, [])) = stopwatch_read now (fold stopwatch evs (None, 0))"
proof -
  have "in_step (None, 0) (NewTracker cfg t0, [])"
    by (simp add: in_step_def outage_reported_def stopwatch_read_def snapshot_outage NewTracker_def)
  from in_step_run [OF this, of evs] show ?thesis by (simp add: in_step_def)
qed

text \<open>
  Every query sent to a public resolver is in exactly one summary: the summaries handed
  out and the running window add up to the queries recorded, and in each summary the
  queries are the failures plus the answers of the single resolvers.
\<close>

lemma fallback_queries_conserved:
  assumes "fold track evs (NewTracker cfg t0, []) = (t, ss)"
  shows "sum_list (map sm_Queries ss) + tk_queries t =
      word_of_nat (length (filter (\<lambda>(_, e). is_Rq e) evs)) \<and>
    (\<forall>s \<in> set ss. sm_Queries s = sm_Failures s + map_total (sm_PerServer s))"
proof -
  have "tracker_ok (fst (NewTracker cfg t0, []))" by (simp add: tracker_ok_def NewTracker_def map_total_def)
  from summaries_add_up [OF this, of evs] windows_queries [of evs "(NewTracker cfg t0, [])"] assms show ?thesis
    by (simp add: NewTracker_def)
qed

text \<open>
  Observing is idempotent: a second observation of the same state, at any time, changes
  nothing, so the health checker and the state change callback cannot count an outage twice.
\<close>

lemma Observe_idempotent: "Tracker_Observe now' b (Tracker_Observe now b t) = Tracker_Observe now b t"
  by (cases b) (auto simp: Tracker_Observe_def addOutageLocked_def Let_def)

text \<open>
  C25. The resolver asks its servers in rotation, each at most once, and stops at the first
  acceptable answer: with the context alive and the counter below \<open>2 ^ 63\<close> it always
  returns, the answer it returns matches the query's transaction id, an error means that no
  server gave an acceptable answer, and every exchange made is recorded by the tracker.
\<close>

theorem Resolve_first_acceptable:
  assumes "Enabled r" "uint (rv_rr r) < 2 ^ 63" "\<forall>j. ctx j = None"
  shows "\<exists>res k' t' m'. Resolver_Resolve (Exchange net) ctx req proto r k t m = Some (res, r\<lparr>rv_rr := rv_rr r + 1\<rparr>, k', t', m') \<and>
    first_answer (Exchange net) r req proto (rotate (unat (rv_rr r)) (rv_servers r)) k res k' \<and>
    (\<forall>resp server. res = Inr (resp, server) \<longrightarrow> ValidateResponse resp (ID req) = None) \<and>
    tk_queries t' = tk_queries t + word_of_nat (k' - k)"
proof -
  let ?order = "rotate (unat (rv_rr r)) (rv_servers r)"
  note o = rotation_defined [OF assms(1,2)]
  obtain res k' t' m' where t: "try_servers (Exchange net) ctx r req proto ?order None k t m = (res, k', t', m')"
    by (cases "try_servers (Exchange net) ctx r req proto ?order None k t m")
  have f: "first_answer (Exchange net) r req proto ?order k res k'"
    using try_servers_first [OF assms(3), where exch = "Exchange net" and r = r and req = req and proto = proto and
        order = ?order and lastErr = None and k = k and t = t and m = m] t by simp
  have "ValidateResponse resp (ID req) = None" if res: "res = Inr (resp, server)" for resp server
  proof -
    from f res obtain i where "fst (Exchange net (k + i) proto server req (rv_timeout r)) = Inr resp" by (auto simp: first_answer_def)
    then obtain rtt where "Exchange net (k + i) proto server req (rv_timeout r) = (Inr resp, rtt)" by (metis prod.collapse)
    then show ?thesis by (rule net_exchange.valid)
  qed
  moreover have "tk_queries t' = tk_queries t + word_of_nat (k' - k)"
    using try_servers_counted [where exch = "Exchange net" and ctx = ctx and r = r and req = req and proto = proto and
        order = ?order and lastErr = None and k = k and t = t and m = m] t by simp
  moreover have "Resolver_Resolve (Exchange net) ctx req proto r k t m = Some (res, r\<lparr>rv_rr := rv_rr r + 1\<rparr>, k', t', m')"
    using assms(1) o t by (simp add: Resolver_Resolve_def)
  ultimately show ?thesis using f by blast
qed

theorem Resolve_first_acceptable_witness:
  "\<exists>res k' t' m'. Resolver_Resolve (Exchange (\<lambda>k p a q t. example_script)) (\<lambda>_. None) [0, 7] ProtoUDP (NewResolver Default) 0
      (NewTracker Default 0) NewMetrics = Some (res, (NewResolver Default)\<lparr>rv_rr := 1\<rparr>, k', t', m') \<and>
     first_answer (Exchange (\<lambda>k p a q t. example_script)) (NewResolver Default) [0, 7] ProtoUDP [''8.8.8.8'', ''8.8.4.4''] 0 res k'"
proof -
  have r: "Enabled (NewResolver Default)" "rv_rr (NewResolver Default) = 0" "rv_servers (NewResolver Default) = [''8.8.8.8'', ''8.8.4.4'']"
    by (simp_all add: Enabled_def NewResolver_def Default_def)
  from Resolve_first_acceptable [OF r(1), of "\<lambda>_. None" "\<lambda>k p a q t. example_script" "[0, 7]" ProtoUDP 0 "NewTracker Default 0" NewMetrics] r(2,3)
  show ?thesis by (simp del: try_servers.simps) blast
qed

end
