(* ===== verification/Stats.thy ===== *)
theory Stats
  imports GoMap GoFloat
begin

text \<open>
  Package \<open>internal/stats\<close>: the dashboard's tallies and the two ring buffers of history.
  A \<open>time.Time\<close> is the number of nanoseconds since the zero time; \<open>tz\<close>, the offset of
  the machine's time zone, is a parameter. A Go map is an association list with distinct
  keys, and formatted times are left as the time they print.
\<close>

section \<open>Times\<close>

definition minute :: duration where "minute = 60 * 1000000000"
definition hour_d :: duration where "hour_d = 3600 * 1000000000"

text \<open>\<open>t.Truncate(d)\<close>, \<open>t.Minute()\<close> and \<open>t.Hour()\<close>: the first counts from the zero time in UTC, the others in local time.\<close>

definition Truncate :: "instant \<Rightarrow> duration \<Rightarrow> instant" where
  "Truncate t d = t - t mod d"

definition Minute :: "duration \<Rightarrow> instant \<Rightarrow> nat" where
  "Minute tz t = nat ((t + tz) div minute mod 60)"

definition Hour :: "duration \<Rightarrow> instant \<Rightarrow> nat" where
  "Hour tz t = nat ((t + tz) div hour_d mod 24)"

text \<open>\<open>d.Seconds()\<close>.\<close>

definition Seconds :: "duration \<Rightarrow> rat" where
  "Seconds d = f64 (f64 (of_int (d sdiv 1000000000)) + f64 (f64 (of_int (d smod 1000000000)) / 1000000000))"

section \<open>The collector\<close>

definition minuteBuckets :: nat where "minuteBuckets = 60"
definition hourBuckets :: nat where "hourBuckets = 24"

record stat_record =
  r_Proto :: string
  r_QType :: string
  r_Upstream :: string
  r_Endpoint :: string
  r_RCode :: string
  r_Latency :: duration
  r_Attempts :: int
  r_Fallback :: bool
  r_Failed :: bool

record node_stat =
  n_Queries :: u64
  n_Failures :: u64
  n_Retries :: u64
  n_LatencySu :: duration
  n_LatencyN :: u64
  n_Last :: "instant option"

record bucket =
  b_at :: instant
  b_queries :: u64
  b_fallback :: u64
  b_failed :: u64
  b_blocked :: u64

record collector =
  k_started :: instant
  k_total :: u64
  k_fallback :: u64
  k_failed :: u64
  k_retried :: u64
  k_latencySu :: duration
  k_latencyN :: u64
  k_byProto :: "(string \<times> u64) list"
  k_byRCode :: "(string \<times> u64) list"
  k_byQType :: "(string \<times> u64) list"
  k_byUpstream :: "(string \<times> node_stat) list"
  k_minutes :: "bucket list"
  k_hours :: "bucket list"

definition fresh_bucket :: "instant \<Rightarrow> bucket" where
  "fresh_bucket t0 = \<lparr>b_at = t0, b_queries = 0, b_fallback = 0, b_failed = 0, b_blocked = 0\<rparr>"

definition NewCollector :: "instant \<Rightarrow> collector" where
  "NewCollector now = \<lparr>k_started = now, k_total = 0, k_fallback = 0, k_failed = 0, k_retried = 0,
     k_latencySu = 0, k_latencyN = 0, k_byProto = [], k_byRCode = [], k_byQType = [], k_byUpstream = [],
     k_minutes = replicate minuteBuckets (fresh_bucket 0), k_hours = replicate hourBuckets (fresh_bucket 0)\<rparr>"

definition addToBucket :: "bucket \<Rightarrow> instant \<Rightarrow> stat_record \<Rightarrow> bool \<Rightarrow> bucket" where
  "addToBucket b0 start r blocked =
     (let b1 = (if b_at b0 \<noteq> start then fresh_bucket start else b0);
          b2 = b1\<lparr>b_queries := b_queries b1 + 1\<rparr>;
          b3 = (if r_Fallback r then b2\<lparr>b_fallback := b_fallback b2 + 1\<rparr> else b2);
          b4 = (if r_Failed r then b3\<lparr>b_failed := b_failed b3 + 1\<rparr> else b3)
      in if blocked then b4\<lparr>b_blocked := b_blocked b4 + 1\<rparr> else b4)"

definition minuteIndex :: "duration \<Rightarrow> instant \<Rightarrow> nat" where
  "minuteIndex tz t = Minute tz t mod minuteBuckets"

definition hourIndex :: "duration \<Rightarrow> instant \<Rightarrow> nat" where
  "hourIndex tz t = Hour tz t mod hourBuckets"

definition record_node :: "instant \<Rightarrow> stat_record \<Rightarrow> (string \<times> node_stat) list \<Rightarrow> (string \<times> node_stat) list" where
  "record_node now r m =
     (let n0 = (case map_of m (r_Upstream r) of
                  Some n \<Rightarrow> n
                | None \<Rightarrow> \<lparr>n_Queries = 0, n_Failures = 0, n_Retries = 0, n_LatencySu = 0, n_LatencyN = 0, n_Last = None\<rparr>);
          n1 = n0\<lparr>n_Queries := n_Queries n0 + 1, n_Last := Some now\<rparr>;
          n2 = (if 1 < r_Attempts r then n1\<lparr>n_Retries := n_Retries n1 + word_of_int (r_Attempts r - 1)\<rparr> else n1);
          n3 = (if 0 < r_Latency r
                then n2\<lparr>n_LatencySu := wrap64 (n_LatencySu n2 + r_Latency r), n_LatencyN := n_LatencyN n2 + 1\<rparr> else n2)
      in AList.update (r_Upstream r) n3 m)"

definition Record :: "duration \<Rightarrow> instant \<Rightarrow> stat_record \<Rightarrow> collector \<Rightarrow> collector" where
  "Record tz now r c0 =
     (let c1 = c0\<lparr>k_total := k_total c0 + 1\<rparr>;
          c2 = (if r_Proto r \<noteq> [] then c1\<lparr>k_byProto := bump (r_Proto r) (k_byProto c1)\<rparr> else c1);
          c3 = (if r_QType r \<noteq> [] then c2\<lparr>k_byQType := bump (r_QType r) (k_byQType c2)\<rparr> else c2);
          c4 = (if r_RCode r \<noteq> [] then c3\<lparr>k_byRCode := bump (r_RCode r) (k_byRCode c3)\<rparr> else c3);
          c5 = (if 1 < r_Attempts r then c4\<lparr>k_retried := k_retried c4 + word_of_int (r_Attempts r - 1)\<rparr> else c4);
          c6 = (if 0 < r_Latency r
                then c5\<lparr>k_latencySu := wrap64 (k_latencySu c5 + r_Latency r), k_latencyN := k_latencyN c5 + 1\<rparr> else c5);
          c7 = (if r_Failed r then c6\<lparr>k_failed := k_failed c6 + 1\<rparr>
                else if r_Fallback r then c6\<lparr>k_fallback := k_fallback c6 + 1\<rparr> else c6);
          c8 = (if r_Upstream r \<noteq> [] then c7\<lparr>k_byUpstream := record_node now r (k_byUpstream c7)\<rparr> else c7);
          blocked = (r_RCode r = ''NXDOMAIN'');
          i = minuteIndex tz now;
          c9 = c8\<lparr>k_minutes := (k_minutes c8)[i := addToBucket (k_minutes c8 ! i) (Truncate now minute) r blocked]\<rparr>;
          j = hourIndex tz now
      in c9\<lparr>k_hours := (k_hours c9)[j := addToBucket (k_hours c9 ! j) (Truncate now hour_d) r blocked]\<rparr>)"

definition ForgetUpstream :: "string \<Rightarrow> collector \<Rightarrow> collector" where
  "ForgetUpstream name c = c\<lparr>k_byUpstream := AList.delete name (k_byUpstream c)\<rparr>"

definition Reset :: "instant \<Rightarrow> collector \<Rightarrow> collector" where
  "Reset now c = c\<lparr>k_total := 0, k_fallback := 0, k_failed := 0, k_retried := 0, k_latencySu := 0, k_latencyN := 0,
     k_byProto := [], k_byRCode := [], k_byQType := [], k_byUpstream := [],
     k_minutes := replicate minuteBuckets (fresh_bucket 0), k_hours := replicate hourBuckets (fresh_bucket 0),
     k_started := now\<rparr>"

section \<open>The snapshot\<close>

record count_entry =
  ct_Name :: string
  ct_Count :: u64
  ct_Share :: rat

record node_entry =
  ne_Name :: string
  ne_Queries :: u64
  ne_Share :: rat
  ne_Retries :: u64
  ne_AvgMS :: rat
  ne_LastSeen :: "instant option"

record point =
  pt_At :: instant
  pt_Queries :: u64
  pt_Fallback :: u64
  pt_Failed :: u64
  pt_Blocked :: u64

definition float_of_u64 :: "u64 \<Rightarrow> rat" where
  "float_of_u64 n = f64 (of_nat (unat n))"

definition share :: "u64 \<Rightarrow> u64 \<Rightarrow> rat" where
  "share n m = (if 0 < m then f64 (float_of_u64 n / float_of_u64 m) else 0)"

definition avg_ms :: "duration \<Rightarrow> u64 \<Rightarrow> rat" where
  "avg_ms su n = (if 0 < n then f64 (f64 (f64 (of_int su) / float_of_u64 n) / 1000000) else 0)"

definition count_of :: "u64 \<Rightarrow> string \<times> u64 \<Rightarrow> count_entry" where
  "count_of m = (\<lambda>(name, n). \<lparr>ct_Name = name, ct_Count = n, ct_Share = share n m\<rparr>)"

text \<open>Largest first, ties by name.\<close>

definition counts :: "(string \<times> u64) list \<Rightarrow> u64 \<Rightarrow> count_entry list" where
  "counts m tot = sort_key (\<lambda>c. (- uint (ct_Count c), ct_Name c)) (map (count_of tot) m)"

definition node_of :: "u64 \<Rightarrow> string \<times> node_stat \<Rightarrow> node_entry" where
  "node_of tot = (\<lambda>(name, n). \<lparr>ne_Name = name, ne_Queries = n_Queries n, ne_Share = share (n_Queries n) tot,
     ne_Retries = n_Retries n, ne_AvgMS = avg_ms (n_LatencySu n) (n_LatencyN n), ne_LastSeen = n_Last n\<rparr>)"

definition nodes :: "(string \<times> node_stat) list \<Rightarrow> u64 \<Rightarrow> node_entry list" where
  "nodes m tot = sort_key (\<lambda>n. (- uint (ne_Queries n), ne_Name n)) (map (node_of tot) m)"

definition ring_point :: "bucket list \<Rightarrow> nat \<Rightarrow> instant \<Rightarrow> point" where
  "ring_point ring idx t0 =
     (let b = ring ! idx in
      if b_at b = t0
      then \<lparr>pt_At = t0, pt_Queries = b_queries b, pt_Fallback = b_fallback b, pt_Failed = b_failed b, pt_Blocked = b_blocked b\<rparr>
      else \<lparr>pt_At = t0, pt_Queries = 0, pt_Fallback = 0, pt_Failed = 0, pt_Blocked = 0\<rparr>)"

definition series_points :: "duration \<Rightarrow> bucket list \<Rightarrow> instant \<Rightarrow> duration \<Rightarrow> nat \<Rightarrow> point list" where
  "series_points tz ring now step n =
     map (\<lambda>i. let t0 = Truncate now step - int i * step in
            ring_point ring (if step = minute then minuteIndex tz t0 else hourIndex tz t0) t0)
       (rev [0..<n])"

record stats_snapshot =
  ss_Since :: instant
  ss_UptimeSec :: rat
  ss_Total :: u64
  ss_Fallback :: u64
  ss_Failed :: u64
  ss_Retries :: u64
  ss_AvgMS :: rat
  ss_QPS :: rat
  ss_QPM :: rat
  ss_BlockedShare :: rat
  ss_TopNode :: string
  ss_TopNodeCount :: u64
  ss_Nodes :: "node_entry list"
  ss_Protos :: "count_entry list"
  ss_RCodes :: "count_entry list"
  ss_QTypes :: "count_entry list"
  ss_Minutes :: "point list"
  ss_Hours :: "point list"

definition Snapshot :: "duration \<Rightarrow> instant \<Rightarrow> collector \<Rightarrow> stats_snapshot" where
  "Snapshot tz now c =
     (let uptime = now - k_started c;
          secs = Seconds uptime;
          mins = series_points tz (k_minutes c) now minute minuteBuckets;
          recent = fold (\<lambda>p n. n + pt_Queries p) mins 0;
          ns = nodes (k_byUpstream c) (k_total c);
          top = (ns \<noteq> [] \<and> 0 < ne_Queries (hd ns))
      in \<lparr>ss_Since = k_started c, ss_UptimeSec = secs, ss_Total = k_total c, ss_Fallback = k_fallback c,
          ss_Failed = k_failed c, ss_Retries = k_retried c, ss_AvgMS = avg_ms (k_latencySu c) (k_latencyN c),
          ss_QPS = (if 0 < secs then f64 (float_of_u64 (k_total c) / secs) else 0),
          ss_QPM = (if mins \<noteq> [] then f64 (float_of_u64 recent / of_nat (length mins)) else 0),
          ss_BlockedShare = share (case map_of (k_byRCode c) ''NXDOMAIN'' of Some n \<Rightarrow> n | None \<Rightarrow> 0) (k_total c),
          ss_TopNode = (if top then ne_Name (hd ns) else []), ss_TopNodeCount = (if top then ne_Queries (hd ns) else 0),
          ss_Nodes = ns, ss_Protos = counts (k_byProto c) (k_total c), ss_RCodes = counts (k_byRCode c) (k_total c),
          ss_QTypes = counts (k_byQType c) (k_total c), ss_Minutes = mins,
          ss_Hours = series_points tz (k_hours c) now hour_d hourBuckets\<rparr>)"


section \<open>Tallies\<close>

lemma Record_frame [simp]:
  "k_total (Record tz now r c) = k_total c + 1"
  "k_failed (Record tz now r c) = k_failed c + (if r_Failed r then 1 else 0)"
  "k_fallback (Record tz now r c) = k_fallback c + (if \<not> r_Failed r \<and> r_Fallback r then 1 else 0)"
  "k_byRCode (Record tz now r c) = (if r_RCode r \<noteq> [] then bump (r_RCode r) (k_byRCode c) else k_byRCode c)"
  "k_byProto (Record tz now r c) = (if r_Proto r \<noteq> [] then bump (r_Proto r) (k_byProto c) else k_byProto c)"
  "k_byQType (Record tz now r c) = (if r_QType r \<noteq> [] then bump (r_QType r) (k_byQType c) else k_byQType c)"
  "k_byUpstream (Record tz now r c) = (if r_Upstream r \<noteq> [] then record_node now r (k_byUpstream c) else k_byUpstream c)"
  "k_minutes (Record tz now r c) = (let i = minuteIndex tz now in
     (k_minutes c)[i := addToBucket (k_minutes c ! i) (Truncate now minute) r (r_RCode r = ''NXDOMAIN'')])"
  "k_hours (Record tz now r c) = (let i = hourIndex tz now in
     (k_hours c)[i := addToBucket (k_hours c ! i) (Truncate now hour_d) r (r_RCode r = ''NXDOMAIN'')])"
  "k_started (Record tz now r c) = k_started c"
  by (simp_all add: Record_def Let_def)

type_synonym event = "instant \<times> stat_record"

definition record_all :: "duration \<Rightarrow> event list \<Rightarrow> collector \<Rightarrow> collector" where
  "record_all tz evs c = fold (\<lambda>(now, r). Record tz now r) evs c"

lemma record_all_snoc: "record_all tz (evs @ [(now, r)]) c = Record tz now r (record_all tz evs c)"
  by (simp add: record_all_def)

lemma record_all_totals:
  "k_total (record_all tz evs c) = k_total c + word_of_nat (length evs)"
  "k_failed (record_all tz evs c) = k_failed c + word_of_nat (length (filter (\<lambda>(_, r). r_Failed r) evs))"
  "k_fallback (record_all tz evs c) = k_fallback c + word_of_nat (length (filter (\<lambda>(_, r). \<not> r_Failed r \<and> r_Fallback r) evs))"
  by (induction evs arbitrary: c) (auto simp: record_all_def split: if_splits)

lemma record_all_rcodes:
  "count_at (k_byRCode (record_all tz evs c)) code =
     count_at (k_byRCode c) code + (if code = [] then 0 else word_of_nat (length (filter (\<lambda>(_, r). r_RCode r = code) evs)))"
  by (induction evs rule: rev_induct) (auto simp: record_all_def count_at_bump)

section \<open>Ring buffers\<close>

text \<open>The slot of a time when the zone is a whole number of periods away from UTC.\<close>

definition slot :: "duration \<Rightarrow> nat \<Rightarrow> int \<Rightarrow> instant \<Rightarrow> nat" where
  "slot step n w t = nat ((w + t div step) mod int n)"

definition ring_add :: "(instant \<Rightarrow> nat) \<Rightarrow> duration \<Rightarrow> event \<Rightarrow> bucket list \<Rightarrow> bucket list" where
  "ring_add idx step ev ring = (case ev of (now, r) \<Rightarrow>
     ring[idx now := addToBucket (ring ! idx now) (Truncate now step) r (r_RCode r = ''NXDOMAIN'')])"

lemma record_all_rings:
  "k_minutes (record_all tz evs c) = fold (ring_add (minuteIndex tz) minute) evs (k_minutes c)"
  "k_hours (record_all tz evs c) = fold (ring_add (hourIndex tz) hour_d) evs (k_hours c)"
  by (induction evs arbitrary: c) (auto simp: record_all_def ring_add_def Let_def)

lemma Truncate_mult: "Truncate t step = step * (t div step)"
  by (simp add: Truncate_def minus_mod_eq_mult_div)

lemma minuteIndex_slot: "tz = minute * w \<Longrightarrow> minuteIndex tz = slot minute minuteBuckets w"
  by (simp add: fun_eq_iff minuteIndex_def Minute_def slot_def minuteBuckets_def minute_def nat_less_iff)

lemma hourIndex_slot: "tz = hour_d * w \<Longrightarrow> hourIndex tz = slot hour_d hourBuckets w"
  by (simp add: fun_eq_iff hourIndex_def Hour_def slot_def hourBuckets_def hour_d_def nat_less_iff)

text \<open>What a slot holds: the period of the last event that fell into it, and that period's counts.\<close>

definition in_period :: "duration \<Rightarrow> instant \<Rightarrow> (stat_record \<Rightarrow> bool) \<Rightarrow> event list \<Rightarrow> nat" where
  "in_period step t0 P evs = length (filter (\<lambda>(t, r). Truncate t step = t0 \<and> P r) evs)"

definition blocked_by :: "stat_record \<Rightarrow> bool" where
  "blocked_by r \<longleftrightarrow> r_RCode r = ''NXDOMAIN''"


definition bucket_of :: "duration \<Rightarrow> instant \<Rightarrow> event list \<Rightarrow> bucket" where
  "bucket_of step t0 evs = \<lparr>b_at = t0, b_queries = word_of_nat (in_period step t0 (\<lambda>_. True) evs),
     b_fallback = word_of_nat (in_period step t0 r_Fallback evs), b_failed = word_of_nat (in_period step t0 r_Failed evs),
     b_blocked = word_of_nat (in_period step t0 blocked_by evs)\<rparr>"

lemma bucket_of_at [simp]: "b_at (bucket_of step t0 evs) = t0"
  by (simp add: bucket_of_def)

lemma bucket_of_empty:
  assumes "\<forall>(t, r) \<in> set evs. Truncate t step \<noteq> t0"
  shows "bucket_of step t0 evs = fresh_bucket t0"
proof -
  have "in_period step t0 P evs = 0" for P using assms by (auto simp: in_period_def filter_empty_conv)
  then show ?thesis by (simp add: bucket_of_def fresh_bucket_def)
qed

lemma addToBucket_of:
  "addToBucket (bucket_of step (Truncate t step) evs) (Truncate t step) r (r_RCode r = ''NXDOMAIN'') =
     bucket_of step (Truncate t step) (evs @ [(t, r)])"
  by (simp add: addToBucket_def bucket_of_def in_period_def blocked_by_def Let_def)

lemma addToBucket_fresh: "b_at b \<noteq> t0 \<Longrightarrow> addToBucket b t0 r x = addToBucket (fresh_bucket t0) t0 r x"
  by (simp add: addToBucket_def fresh_bucket_def Let_def)

text \<open>The invariant of a ring after a history of events in time order.\<close>

definition ring_ok :: "(instant \<Rightarrow> nat) \<Rightarrow> duration \<Rightarrow> nat \<Rightarrow> event list \<Rightarrow> bucket list \<Rightarrow> bool" where
  "ring_ok idx step n evs ring \<longleftrightarrow> length ring = n \<and>
     (\<forall>s < n. let b = ring ! s; mine = filter (\<lambda>(t, r). idx t = s) evs in
        b = bucket_of step (b_at b) mine \<and>
        (\<forall>(t, r) \<in> set mine. Truncate t step \<le> b_at b) \<and>
        (b_at b = 0 \<or> (\<exists>(t, r) \<in> set mine. Truncate t step = b_at b)))"

lemma ring_ok_Nil: "ring_ok idx step n [] (replicate n (fresh_bucket 0))"
  by (simp add: ring_ok_def bucket_of_empty Let_def) (simp add: fresh_bucket_def)

lemma Truncate_mono: "0 < step \<Longrightarrow> t \<le> u \<Longrightarrow> Truncate t step \<le> Truncate u step"
  by (simp add: Truncate_mult zdiv_mono1)

lemma ring_ok_add:
  assumes ok: "ring_ok idx step n evs ring" and "0 < step" "0 \<le> now" "idx now < n"
    and sorted: "\<forall>(t, r) \<in> set evs. t \<le> now"
  shows "ring_ok idx step n (evs @ [(now, r)]) (ring_add idx step (now, r) ring)"
proof -
  let ?s = "idx now" and ?T = "Truncate now step"
  let ?mine = "filter (\<lambda>(t, r). idx t = ?s) evs"
  let ?ring = "ring_add idx step (now, r) ring"
  have len: "length ring = n" using ok by (simp add: ring_ok_def)
  have b: "ring ! ?s = bucket_of step (b_at (ring ! ?s)) ?mine" "\<forall>(t, r) \<in> set ?mine. Truncate t step \<le> b_at (ring ! ?s)"
    "b_at (ring ! ?s) = 0 \<or> (\<exists>(t, r) \<in> set ?mine. Truncate t step = b_at (ring ! ?s))"
    using ok assms(4) unfolding ring_ok_def Let_def by blast+
  have le: "Truncate t step \<le> ?T" if "(t, r) \<in> set evs" for t r
    using that sorted Truncate_mono [OF assms(2)] by fastforce
  have "0 \<le> ?T" using assms(2,3) by (simp add: Truncate_mult pos_imp_zdiv_nonneg_iff)
  then have bT: "b_at (ring ! ?s) \<le> ?T"
  proof (cases "b_at (ring ! ?s) = 0")
    case False
    then obtain t r' where "(t, r') \<in> set evs" "Truncate t step = b_at (ring ! ?s)" using b(3) by auto
    from le [OF this(1)] this(2) show ?thesis by simp
  qed simp
  have new: "addToBucket (ring ! ?s) ?T r (r_RCode r = ''NXDOMAIN'') = bucket_of step ?T (?mine @ [(now, r)])"
  proof (cases "b_at (ring ! ?s) = ?T")
    case True
    then show ?thesis using addToBucket_of [of step now ?mine r] b(1) by simp
  next
    case False
    then have "bucket_of step ?T ?mine = fresh_bucket ?T" using b(2) bT by (intro bucket_of_empty) fastforce
    then show ?thesis using addToBucket_of [of step now ?mine r] addToBucket_fresh [OF False] by simp
  qed
  have slot: "?ring ! s = (if s = ?s then bucket_of step ?T (?mine @ [(now, r)]) else ring ! s)" if "s < n" for s
    using that len assms(4) new by (simp add: ring_add_def)
  show ?thesis unfolding ring_ok_def Let_def
  proof (intro conjI allI impI)
    show "length ?ring = n" using len by (simp add: ring_add_def)
    fix s assume s: "s < n"
    let ?m = "filter (\<lambda>(t, r). idx t = s) (evs @ [(now, r)])"
    show "?ring ! s = bucket_of step (b_at (?ring ! s)) ?m"
      "\<forall>(t, r) \<in> set ?m. Truncate t step \<le> b_at (?ring ! s)"
      "b_at (?ring ! s) = 0 \<or> (\<exists>(t, r) \<in> set ?m. Truncate t step = b_at (?ring ! s))"
      using ok s le unfolding slot [OF s] ring_ok_def Let_def by (cases "s = ?s"; auto)+
  qed
qed

lemma ring_ok_fold:
  assumes "0 < step" "\<forall>t. idx t < n" "sorted (map fst evs)" "\<forall>(t, r) \<in> set evs. 0 \<le> t"
  shows "ring_ok idx step n evs (fold (ring_add idx step) evs (replicate n (fresh_bucket 0)))"
  using assms(3,4)
proof (induction evs rule: rev_induct)
  case Nil
  then show ?case by (simp add: ring_ok_Nil)
next
  case (snoc ev evs)
  obtain now r where ev: "ev = (now, r)" by (cases ev)
  have "ring_ok idx step n evs (fold (ring_add idx step) evs (replicate n (fresh_bucket 0)))"
    using snoc by (simp add: sorted_append)
  moreover have "\<forall>(t, r) \<in> set evs. t \<le> now" using snoc.prems(1) by (auto simp: ev sorted_append)
  ultimately show ?case using ring_ok_add [of idx step n evs _ now r] assms(1,2) snoc.prems(2) by (simp add: ev)
qed


text \<open>Reading the ring: in the window of the last \<open>n\<close> periods every slot stands for one period.\<close>

lemma ring_point_exact:
  assumes ok: "ring_ok (slot step n w) step n evs ring" and "0 < step" "0 < n"
    and le: "\<forall>(t, r) \<in> set evs. t \<le> now" and t0: "t0 = Truncate now step - int i * step" "i < n" "0 < t0"
  shows "ring_point ring (slot step n w t0) t0 =
    \<lparr>pt_At = t0, pt_Queries = word_of_nat (in_period step t0 (\<lambda>_. True) evs),
     pt_Fallback = word_of_nat (in_period step t0 r_Fallback evs), pt_Failed = word_of_nat (in_period step t0 r_Failed evs),
     pt_Blocked = word_of_nat (in_period step t0 blocked_by evs)\<rparr>"
proof -
  let ?s = "slot step n w t0" and ?b = "ring ! slot step n w t0"
  let ?mine = "filter (\<lambda>(t, r). slot step n w t = ?s) evs"
  have s: "?s < n" using assms(3) by (simp add: slot_def nat_less_iff)
  have b: "?b = bucket_of step (b_at ?b) ?mine" "\<forall>(t, r) \<in> set ?mine. Truncate t step \<le> b_at ?b"
    "b_at ?b = 0 \<or> (\<exists>(t, r) \<in> set ?mine. Truncate t step = b_at ?b)"
    using ok s unfolding ring_ok_def Let_def by blast+
  have t0q: "t0 = step * (now div step - int i)" using t0(1) by (simp add: Truncate_mult algebra_simps)
  then have q0: "t0 div step = now div step - int i" using assms(2) by simp
  have same: "slot step n w t = ?s" if "Truncate t step = t0" for t
    using that assms(2) t0q by (simp add: slot_def Truncate_mult q0)
  have "b_at ?b = t0 \<or> (\<forall>(t, r) \<in> set evs. Truncate t step \<noteq> t0)"
  proof (rule ccontr)
    assume "\<not> (b_at ?b = t0 \<or> (\<forall>(t, r) \<in> set evs. Truncate t step \<noteq> t0))"
    then obtain t r where t: "b_at ?b \<noteq> t0" "(t, r) \<in> set evs" "Truncate t step = t0" by auto
    then have ge: "t0 < b_at ?b" using b(2) same [OF t(3)] by fastforce
    then obtain u v where u: "(u, v) \<in> set evs" "slot step n w u = ?s" "step * (u div step) = b_at ?b"
      using b(3) t0(3) by (auto simp: Truncate_mult)
    have "u div step \<le> now div step" using u(1) le assms(2) by (intro zdiv_mono1) auto
    moreover have "now div step - int i < u div step" using ge u(3) t0q assms(2) by (metis mult_less_cancel_left_pos)
    moreover have "(w + u div step) mod int n = (w + (now div step - int i)) mod int n"
      using u(2) assms(3) by (simp add: slot_def q0 eq_nat_nat_iff)
    then have "(u div step - (now div step - int i)) mod int n = 0"
      by (metis add_diff_cancel_left mod_0_imp_dvd mod_eq_dvd_iff dvd_imp_mod_0)
    moreover define k where "k = u div step - (now div step - int i)"
    ultimately have "0 < k" "k < int n" "k mod int n = 0" using t0(2) by simp_all
    then show False by simp
  qed
  moreover have "in_period step t0 P ?mine = in_period step t0 P evs" for P
    unfolding in_period_def filter_filter using same by (intro arg_cong [of _ _ length] filter_cong) auto
  ultimately show ?thesis
  proof (elim disjE)
    assume "b_at ?b = t0"
    with b(1) \<open>\<And>P. in_period step t0 P ?mine = in_period step t0 P evs\<close> show ?thesis
      by (simp add: ring_point_def bucket_of_def Let_def)
  next
    assume none: "\<forall>(t, r) \<in> set evs. Truncate t step \<noteq> t0"
    then have z: "in_period step t0 P evs = 0" for P by (auto simp: in_period_def filter_empty_conv)
    then have "bucket_of step t0 ?mine = fresh_bucket t0"
      using none by (intro bucket_of_empty) auto
    then show ?thesis using z b(1) by (auto simp: ring_point_def Let_def fresh_bucket_def)
  qed
qed


section \<open>Sorted tallies\<close>

lemma counts_inj: "distinct (map fst m) \<Longrightarrow> inj_on (\<lambda>c. (- uint (ct_Count c), ct_Name c)) (set (map (count_of tot) m))"
  by (auto simp: inj_on_def count_of_def simp flip: word_uint_eq_iff)

section \<open>Properties\<close>



definition quiet_record :: stat_record where
  "quiet_record = \<lparr>r_Proto = ''udp'', r_QType = ''A'', r_Upstream = ''pihole-1'', r_Endpoint = ''lan'', r_RCode = ''NOERROR'',
     r_Latency = 5, r_Attempts = 1, r_Fallback = False, r_Failed = False\<rparr>"


text \<open>
  In a zone half an hour off, the hourly chart loses queries: the slot is chosen by the
  local hour but stamped with the UTC hour, so a query in the second half of a UTC hour is
  filed where the chart does not look. Here India, one query, five minutes later: the
  minute chart shows it and the day chart is empty.
\<close>

lemma half_hour_zone_loses:
  "\<exists>tz now evs. evs = [(now - 5 * minute, quiet_record)] \<and>
     pt_Queries (series_points tz (k_minutes (record_all tz evs (NewCollector 0))) now minute minuteBuckets ! 54) = 1 \<and>
     filter (\<lambda>p. pt_Queries p \<noteq> 0) (series_points tz (k_hours (record_all tz evs (NewCollector 0))) now hour_d hourBuckets) = []"
proof -
  let ?tz = "5 * hour_d + 30 * minute" and ?now = "hour_d * 100 + minute * 50"
  let ?evs = "[(?now - 5 * minute, quiet_record)]"
  let ?c = "record_all ?tz ?evs (NewCollector 0)"
  have hours: "k_hours ?c = (replicate 24 (fresh_bucket 0))[10 := (fresh_bucket (hour_d * 100))\<lparr>b_queries := 1\<rparr>]"
    by (simp add: record_all_rings ring_add_def NewCollector_def hourIndex_def Hour_def hourBuckets_def hour_d_def minute_def
        Truncate_def addToBucket_def fresh_bucket_def quiet_record_def Let_def)
  have "pt_Queries (ring_point (k_hours ?c) (hourIndex ?tz t0) t0) = 0" if t0: "t0 = hour_d * 100 - int i * hour_d" "i < 24" for t0 i
  proof -
    have "t0 + ?tz = (105 - int i) * hour_d + 30 * minute" by (simp add: t0 algebra_simps)
    moreover have "((105 - int i) * hour_d + 30 * minute) div hour_d = 105 - int i" by (simp add: hour_d_def minute_def)
    ultimately have "(t0 + ?tz) div hour_d = 105 - int i" by (simp only:)
    then have ix: "hourIndex ?tz t0 = nat ((105 - int i) mod 24)"
      unfolding hourIndex_def Hour_def by (simp add: hourBuckets_def nat_less_iff)
    then have "hourIndex ?tz t0 < 24" by (simp add: nat_less_iff)
    moreover have "hourIndex ?tz t0 \<noteq> 10 \<or> t0 \<noteq> hour_d * 100" using ix t0 by (cases "i = 0") (auto simp: hour_d_def)
    ultimately show ?thesis unfolding hours ring_point_def Let_def
      by (cases "hourIndex ?tz t0 = 10") (auto simp: fresh_bucket_def)
  qed
  then have "\<forall>p \<in> set (series_points ?tz (k_hours ?c) ?now hour_d hourBuckets). pt_Queries p = 0"
    by (auto simp: series_points_def Let_def hourBuckets_def Truncate_def) (simp_all add: hour_d_def minute_def)
  moreover have "pt_Queries (series_points ?tz (k_minutes ?c) ?now minute minuteBuckets ! 54) = 1"
    by (simp add: record_all_rings ring_add_def NewCollector_def minuteIndex_def Minute_def minuteBuckets_def hour_d_def minute_def
        Truncate_def addToBucket_def fresh_bucket_def quiet_record_def Let_def series_points_def ring_point_def rev_nth)
  ultimately show ?thesis by (intro exI [of _ ?tz] exI [of _ ?now] exI [of _ ?evs]) (auto simp: filter_empty_conv)
qed

text \<open>
  The dashboard does not reshuffle: the sorted tallies depend only on the contents of
  the map, not on the order in which Go happens to visit it.
\<close>

lemma counts_order_irrelevant:
  assumes "mset m = mset m'" "distinct (map fst m)"
  shows "counts m tot = counts m' tot \<and> sorted (map (\<lambda>c. (- uint (ct_Count c), ct_Name c)) (counts m tot))"
proof -
  have "mset (map (count_of tot) m) = mset (map (count_of tot) m')" using assms(1) by simp
  from sort_key_unique [OF this counts_inj [OF assms(2)]] show ?thesis by (simp add: counts_def)
qed

end
