(* ===== verification/Wiring.thy ===== *)
theory Wiring
  imports Pool_Health Fallback Stats
begin

text \<open>
  How \<open>cmd/hole-balancer/main.go\<close> puts the parts together: the shared state the goroutines
  work on, the state change callback it hands to the pool, and the hook it hands to the
  health checker. The network, the query contexts, the clock and the time zone are the
  environment. Each is indexed by the number of exchanges made so far: between two
  exchanges the clock stands still.
\<close>

section \<open>The environment and the shared state\<close>

record env =
  en_exch :: exchanger
  en_ctx :: "nat \<Rightarrow> goerr option"
  en_now :: "nat \<Rightarrow> instant"
  en_tz :: duration

record system =
  sy_pool :: pool
  sy_metrics :: metrics
  sy_tracker :: tracker
  sy_resolver :: resolver
  sy_stats :: collector
  sy_rng :: rng
  sy_k :: nat

definition now_of :: "env \<Rightarrow> system \<Rightarrow> instant" where
  "now_of en s = en_now en (sy_k s)"

definition ep_of :: "system \<Rightarrow> nat \<Rightarrow> endpoint" where
  "ep_of s e = p_eps (sy_pool s) e"

definition upstream_name :: "system \<Rightarrow> nat \<Rightarrow> string" where
  "upstream_name s e = u_Name (p_ups (sy_pool s) (e_Upstream (ep_of s e)))"

text \<open>The three labels that name an endpoint and one more property of it.\<close>

definition endpoint_labels :: "system \<Rightarrow> nat \<Rightarrow> string \<Rightarrow> string \<Rightarrow> label list" where
  "endpoint_labels s e name v =
     [\<lparr>lb_Name = ''upstream'', lb_Value = upstream_name s e\<rparr>, \<lparr>lb_Name = ''endpoint'', lb_Value = e_Name (ep_of s e)\<rparr>,
      \<lparr>lb_Name = name, lb_Value = v\<rparr>]"

definition observe_pool :: "instant \<Rightarrow> system \<Rightarrow> system" where
  "observe_pool now s = s\<lparr>sy_tracker := Tracker_Observe now (HealthyUpstreams (sy_pool s) = 0) (sy_tracker s)\<rparr>"

text \<open>The callback given to \<open>pool.New\<close>.\<close>

definition on_change :: "instant \<Rightarrow> nat \<Rightarrow> bool \<Rightarrow> system \<Rightarrow> system" where
  "on_change now e up s =
     (let m = sy_metrics s; state = (if up then ''up'' else ''down'')
      in observe_pool now (s\<lparr>sy_metrics := m\<lparr>m_StateFlips := Counter_Inc (endpoint_labels s e ''state'' state) (m_StateFlips m)\<rparr>\<rparr>))"

text \<open>Running a pool report and the callback it may make.\<close>

definition with_change :: "instant \<Rightarrow> (pool \<Rightarrow> pool \<times> change option) \<Rightarrow> system \<Rightarrow> system" where
  "with_change now rep s =
     (case rep (sy_pool s) of
        (p, None) \<Rightarrow> s\<lparr>sy_pool := p\<rparr>
      | (p, Some (e, up, why)) \<Rightarrow> on_change now e up (s\<lparr>sy_pool := p\<rparr>))"

text \<open>The state \<open>run\<close> builds before it starts any goroutine.\<close>

definition start_system :: "config \<Rightarrow> instant \<Rightarrow> rng \<Rightarrow> system" where
  "start_system cfg now r = \<lparr>sy_pool = New cfg, sy_metrics = NewMetrics, sy_tracker = NewTracker cfg now,
     sy_resolver = NewResolver cfg, sy_stats = NewCollector now, sy_rng = r, sy_k = 0\<rparr>"

section \<open>The tracker mirrors the pool\<close>

text \<open>The tracker is in an outage exactly while no Pi-hole can answer.\<close>

definition mirrored :: "system \<Rightarrow> bool" where
  "mirrored s \<longleftrightarrow> (tk_inOutage (sy_tracker s) \<longleftrightarrow> HealthyUpstreams (sy_pool s) = 0)"

lemma mirrored_observe [simp]: "mirrored (observe_pool now s)"
  by (auto simp: mirrored_def observe_pool_def Tracker_Observe_def addOutageLocked_def Let_def)

lemma with_change_frame [frame_simps]:
  "sy_pool (with_change now rep s) = fst (rep (sy_pool s))" "sy_resolver (with_change now rep s) = sy_resolver s"
  "sy_stats (with_change now rep s) = sy_stats s" "sy_k (with_change now rep s) = sy_k s" "sy_rng (with_change now rep s) = sy_rng s"
  "tk_queries (sy_tracker (with_change now rep s)) = tk_queries (sy_tracker s)"
  by (auto simp: with_change_def on_change_def observe_pool_def Tracker_Observe_def addOutageLocked_def Let_def
      split: prod.splits option.splits)

end
