(* ===== verification/Health.thy ===== *)
theory Health
  imports Wiring
begin

text \<open>
  Package \<open>internal/health\<close>: one probe and its judgement, a sweep over every endpoint, and
  the initial sweep. The probes of a sweep run in parallel; the order in which their
  results are applied is an argument, a permutation of the endpoints.
\<close>

section \<open>Probes\<close>

text \<open>The transaction id is a draw.\<close>

definition probe :: "env \<Rightarrow> config \<Rightarrow> u16 \<Rightarrow> string \<Rightarrow> nat \<Rightarrow> duration \<times> goerr option" where
  "probe en cfg txid addr k =
     (let pr = hc_Probe (c_Health cfg) in
      case BuildQuery txid (pr_Name pr) (pr_qtype pr) of
        Inl err \<Rightarrow> (0, Some (Wrapf ''building probe query: %w'' [] err))
      | Inr query \<Rightarrow>
          (case en_exch en k ProtoUDP addr query (hc_Timeout (c_Health cfg)) of
             (Inl err, rtt) \<Rightarrow> (rtt, Some err)
           | (Inr resp, rtt) \<Rightarrow>
               (case ParseHeader resp of
                  Inl err \<Rightarrow> (rtt, Some (Wrapf ''probe response: %w'' [] err))
                | Inr hdr \<Rightarrow>
                    if h_RCode hdr \<in> {RCodeServFail, RCodeRefused, RCodeNotImp} then
                      (rtt, Some (Errorf ''probe returned %s'' [RCode_String (h_RCode hdr)]))
                    else if pr_RequireAnswer pr \<and> h_ANCount hdr = 0 then
                      (rtt, Some (Errorf ''probe returned %s with no answer records'' [RCode_String (h_RCode hdr)]))
                    else (rtt, None))))"

definition countCheck :: "nat \<Rightarrow> goerr option \<Rightarrow> system \<Rightarrow> system" where
  "countCheck e err s =
     (let m = sy_metrics s; result = (if err \<noteq> None then ''failure'' else ''success'')
      in s\<lparr>sy_metrics := m\<lparr>m_HealthChecks := Counter_Inc (endpoint_labels s e ''result'' result) (m_HealthChecks m)\<rparr>\<rparr>)"

text \<open>One goroutine of a sweep, with the verdict going to \<open>ReportProbe\<close> or to \<open>SetInitial\<close>.\<close>

definition check_endpoint ::
  "(nat \<Rightarrow> bool \<Rightarrow> duration \<Rightarrow> goerr option \<Rightarrow> instant \<Rightarrow> pool \<Rightarrow> pool \<times> change option) \<Rightarrow>
     env \<Rightarrow> config \<Rightarrow> nat \<times> u16 \<Rightarrow> system \<Rightarrow> system" where
  "check_endpoint verdict_of en cfg et s =
     (case et of (e, txid) \<Rightarrow>
      case probe en cfg txid (e_Addr (ep_of s e)) (sy_k s) of (latency, err) \<Rightarrow>
        let s1 = s\<lparr>sy_k := sy_k s + 1\<rparr>; s2 = countCheck e err s1; now = now_of en s2
        in with_change now (verdict_of e (err = None) latency err now) s2)"

text \<open>The goroutines of a sweep, in the order in which they finish, then \<open>OnSweep\<close>.\<close>

definition Sweep :: "env \<Rightarrow> config \<Rightarrow> (nat \<times> u16) list \<Rightarrow> system \<Rightarrow> system" where
  "Sweep en cfg order s =
     (let s' = fold (check_endpoint ReportProbe en cfg) order s in observe_pool (now_of en s') s')"

definition Bootstrap :: "env \<Rightarrow> config \<Rightarrow> (nat \<times> u16) list \<Rightarrow> system \<Rightarrow> system" where
  "Bootstrap en cfg order s =
     (if hc_StartupTimeout (c_Health cfg) \<le> 0 then s
      else let s' = fold (check_endpoint SetInitial en cfg) order s in observe_pool (now_of en s') s')"

text \<open>\<open>Checker.Run\<close>: a sweep per tick. \<open>time.NewTicker\<close> panics on an interval that is not positive.\<close>

definition Checker_Run :: "env \<Rightarrow> config \<Rightarrow> (nat \<times> u16) list list \<Rightarrow> system \<Rightarrow> system option" where
  "Checker_Run en cfg orders s = (if hc_Interval (c_Health cfg) \<le> 0 then None else Some (fold (Sweep en cfg) orders s))"

text \<open>The endpoints a sweep visits: a copy of the pool's list, each once.\<close>

definition sweep_order :: "system \<Rightarrow> (nat \<times> u16) list \<Rightarrow> bool" where
  "sweep_order s order \<longleftrightarrow> mset (map fst order) = mset (p_endpoints (sy_pool s))"


section \<open>What one sweep does to one endpoint\<close>

lemma check_endpoint_frame [frame_simps]:
  "sy_pool (check_endpoint f en cfg (e, txid) s) =
     fst (case probe en cfg txid (e_Addr (ep_of s e)) (sy_k s) of (l, err) \<Rightarrow> f e (err = None) l err (en_now en (sy_k s + 1)) (sy_pool s))"
  by (simp add: check_endpoint_def countCheck_def Let_def frame_simps now_of_def split: prod.splits)

definition touches_only :: "(nat \<Rightarrow> bool \<Rightarrow> duration \<Rightarrow> goerr option \<Rightarrow> instant \<Rightarrow> pool \<Rightarrow> pool \<times> change option) \<Rightarrow> bool" where
  "touches_only f \<longleftrightarrow> (\<forall>e ok l err now p. \<exists>e'. fst (f e ok l err now p) = p\<lparr>p_eps := (p_eps p)(e := e')\<rparr> \<and> same_identity (p_eps p e) e')"

lemma verdicts_touch_only: "touches_only ReportProbe" "touches_only SetInitial"
  by (simp_all add: touches_only_def ReportProbe_frame SetInitial_frame)

lemma check_endpoint_other:
  assumes "touches_only f"
  shows "\<exists>e'. sy_pool (check_endpoint f en cfg (e, txid) s) = (sy_pool s)\<lparr>p_eps := (p_eps (sy_pool s))(e := e')\<rparr> \<and>
    same_identity (p_eps (sy_pool s) e) e'"
  using assms by (simp add: frame_simps touches_only_def split_beta)

text \<open>The goroutines of the other endpoints leave an endpoint alone.\<close>

lemma checks_skip:
  assumes "touches_only f" "e \<notin> fst ` set order"
  shows "p_eps (sy_pool (fold (check_endpoint f en cfg) order s)) e = p_eps (sy_pool s) e"
  using assms(2)
proof (induction order arbitrary: s)
  case (Cons et order)
  obtain e1 txid where et: "et = (e1, txid)" by (cases et)
  from check_endpoint_other [OF assms(1), of en cfg e1 txid s] obtain e'
    where "sy_pool (check_endpoint f en cfg et s) = (sy_pool s)\<lparr>p_eps := (p_eps (sy_pool s))(e1 := e')\<rparr>" by (auto simp: et)
  with Cons show ?case by (simp add: et)
qed simp

lemma checks_frame:
  assumes "touches_only f"
  shows "p_rise (sy_pool (fold (check_endpoint f en cfg) order s)) = p_rise (sy_pool s) \<and>
    p_fall (sy_pool (fold (check_endpoint f en cfg) order s)) = p_fall (sy_pool s) \<and>
    p_endpoints (sy_pool (fold (check_endpoint f en cfg) order s)) = p_endpoints (sy_pool s) \<and>
    p_upstreams (sy_pool (fold (check_endpoint f en cfg) order s)) = p_upstreams (sy_pool s) \<and>
    (\<forall>i. same_identity (p_eps (sy_pool s) i) (p_eps (sy_pool (fold (check_endpoint f en cfg) order s)) i))"
proof (induction order arbitrary: s)
  case (Cons et order)
  obtain e1 txid where et: "et = (e1, txid)" by (cases et)
  from check_endpoint_other [OF assms(1), of en cfg e1 txid s] obtain e'
    where "sy_pool (check_endpoint f en cfg et s) = (sy_pool s)\<lparr>p_eps := (p_eps (sy_pool s))(e1 := e')\<rparr>"
      "same_identity (p_eps (sy_pool s) e1) e'" by (auto simp: et)
  with Cons [of "check_endpoint f en cfg et s"] show ?case by (auto simp: same_identity_def)
qed (simp add: same_identity_def)

lemma checks_wf:
  assumes "touches_only f" "pool_wf (sy_pool s)"
  shows "pool_wf (sy_pool (fold (check_endpoint f en cfg) order s)) \<and>
    pool_entries (sy_pool (fold (check_endpoint f en cfg) order s)) = pool_entries (sy_pool s)"
  using assms(2)
proof (induction order arbitrary: s)
  case (Cons et order)
  obtain e1 txid where et: "et = (e1, txid)" by (cases et)
  from endpoint_update_wf [OF Cons.prems check_endpoint_other [OF assms(1), of en cfg e1 txid s]]
    Cons.IH [of "check_endpoint f en cfg et s"] show ?case by (simp add: et)
qed simp

text \<open>An endpoint of the sweep gets exactly one verdict, the one of its own probe.\<close>

lemma checks_hit:
  assumes "touches_only f" "distinct (map fst order)" "e \<in> fst ` set order"
  shows "\<exists>txid k q l err. probe en cfg txid (e_Addr (p_eps (sy_pool s) e)) k = (l, err) \<and>
    p_eps q e = p_eps (sy_pool s) e \<and> p_rise q = p_rise (sy_pool s) \<and> p_fall q = p_fall (sy_pool s) \<and>
    p_eps (sy_pool (fold (check_endpoint f en cfg) order s)) e = p_eps (fst (f e (err = None) l err (en_now en (k + 1)) q)) e"
proof -
  from assms(3) obtain txid where "(e, txid) \<in> set order" by force
  then obtain xs ys where o: "order = xs @ (e, txid) # ys" by (meson split_list)
  let ?s1 = "fold (check_endpoint f en cfg) xs s"
  have "e \<notin> fst ` set xs" "e \<notin> fst ` set ys" using assms(2) by (auto simp: o)
  then have s1: "p_eps (sy_pool ?s1) e = p_eps (sy_pool s) e"
    and last: "p_eps (sy_pool (fold (check_endpoint f en cfg) order s)) e = p_eps (sy_pool (check_endpoint f en cfg (e, txid) ?s1)) e"
    using checks_skip [OF assms(1)] by (simp_all add: o)
  obtain l err where pr: "probe en cfg txid (e_Addr (p_eps (sy_pool s) e)) (sy_k ?s1) = (l, err)" by fastforce
  then have "sy_pool (check_endpoint f en cfg (e, txid) ?s1) = fst (f e (err = None) l err (en_now en (sy_k ?s1 + 1)) (sy_pool ?s1))"
    by (simp add: frame_simps ep_of_def s1)
  with last s1 pr checks_frame [OF assms(1), of en cfg xs s] show ?thesis
    by (intro exI [of _ txid] exI [of _ "sy_k ?s1"] exI [of _ "sy_pool ?s1"] exI [of _ l] exI [of _ err]) simp
qed

lemma sweep_order_distinct:
  assumes "pool_wf (sy_pool s)" "sweep_order s order"
  shows "distinct (map fst order)" "fst ` set order = set (p_endpoints (sy_pool s))"
proof -
  have "distinct (p_endpoints (sy_pool s))" using assms(1) unfolding pool_wf_def heap_ok_def by blast
  then show "distinct (map fst order)" using assms(2) unfolding sweep_order_def by (metis mset_eq_imp_distinct_iff)
  show "fst ` set order = set (p_endpoints (sy_pool s))"
    using assms(2) unfolding sweep_order_def by (metis list.set_map mset_eq_setD)
qed

lemma observe_pool_pool [simp]: "sy_pool (observe_pool now s) = sy_pool s"
  by (simp add: observe_pool_def)

lemma Sweep_pool: "sy_pool (Sweep en cfg order s) = sy_pool (fold (check_endpoint ReportProbe en cfg) order s)"
  by (simp add: Sweep_def Let_def)

lemma Sweep_endpoint:
  assumes "pool_wf (sy_pool s)" "sweep_order s order" "e \<in> set (p_endpoints (sy_pool s))"
  shows "\<exists>txid k l err now. probe en cfg txid (e_Addr (p_eps (sy_pool s) e)) k = (l, err) \<and>
    p_eps (sy_pool (Sweep en cfg order s)) e =
      reported (p_rise (sy_pool s)) (p_fall (sy_pool s)) (err = None) l err True now (p_eps (sy_pool s) e)"
proof -
  note d = sweep_order_distinct [OF assms(1,2)]
  from checks_hit [OF verdicts_touch_only(1) d(1), of e en cfg s] assms(3) d(2) show ?thesis
    unfolding Sweep_pool ReportProbe_def fst_pool_record by (auto) metis
qed


section \<open>Recovery\<close>

lemma reported_ok:
  assumes "0 \<le> e_successes e" "e_successes e + 1 < 2 ^ 63"
  shows "e_successes (reported rise fall True l err True now e) = e_successes e + 1 \<and>
    e_up (reported rise fall True l err True now e) = (e_up e \<or> rise \<le> e_successes e + 1)"
proof -
  have "wrap64 (e_successes e + 1) = e_successes e + 1" using assms by (intro wrap64_id) simp_all
  then show ?thesis by (auto simp: reported_def record_endpoint_def Let_def frame_simps)
qed

definition sweeps :: "env \<Rightarrow> config \<Rightarrow> (nat \<times> u16) list list \<Rightarrow> system \<Rightarrow> system" where
  "sweeps en cfg orders s = fold (Sweep en cfg) orders s"

lemma Sweep_keeps:
  assumes "pool_wf (sy_pool s)"
  shows "pool_wf (sy_pool (Sweep en cfg order s))" "p_endpoints (sy_pool (Sweep en cfg order s)) = p_endpoints (sy_pool s)"
    "p_rise (sy_pool (Sweep en cfg order s)) = p_rise (sy_pool s)"
    "same_identity (p_eps (sy_pool s) i) (p_eps (sy_pool (Sweep en cfg order s)) i)"
  using checks_wf [OF verdicts_touch_only(1) assms] checks_frame [OF verdicts_touch_only(1), of en cfg order s]
  by (simp_all add: Sweep_pool)

lemma sweeps_recover:
  assumes "pool_wf (sy_pool s)" "e \<in> set (p_endpoints (sy_pool s))"
    and "\<forall>txid k. snd (probe en cfg txid (e_Addr (p_eps (sy_pool s) e)) k) = None"
    and "\<forall>order \<in> set orders. mset (map fst order) = mset (p_endpoints (sy_pool s))"
    and "0 \<le> e_successes (p_eps (sy_pool s) e)" "e_successes (p_eps (sy_pool s) e) + int (length orders) < 2 ^ 63"
  shows "e_successes (p_eps (sy_pool (sweeps en cfg orders s)) e) = e_successes (p_eps (sy_pool s) e) + int (length orders) \<and>
    (orders \<noteq> [] \<longrightarrow> p_rise (sy_pool s) \<le> e_successes (p_eps (sy_pool s) e) + int (length orders) \<longrightarrow>
       Healthy (sy_pool (sweeps en cfg orders s)) e)"
  using assms
proof (induction orders arbitrary: s)
  case (Cons order orders)
  let ?s = "Sweep en cfg order s" and ?e = "p_eps (sy_pool s) e"
  have so: "sweep_order s order" using Cons.prems(4) by (simp add: sweep_order_def)
  from Sweep_endpoint [OF Cons.prems(1) so Cons.prems(2), of en cfg] obtain txid k l err now where
    pr: "probe en cfg txid (e_Addr ?e) k = (l, err)" and
    ep: "p_eps (sy_pool ?s) e = reported (p_rise (sy_pool s)) (p_fall (sy_pool s)) (err = None) l err True now ?e" by blast
  have "err = None" using Cons.prems(3) pr by (metis snd_conv)
  then have E: "e_successes (p_eps (sy_pool ?s) e) = e_successes ?e + 1"
    "e_up (p_eps (sy_pool ?s) e) = (e_up ?e \<or> p_rise (sy_pool s) \<le> e_successes ?e + 1)"
    using ep reported_ok [of ?e] Cons.prems(5,6) by simp_all
  note K = Sweep_keeps [OF Cons.prems(1), where en = en and cfg = cfg and order = order]
  have addr: "e_Addr (p_eps (sy_pool ?s) e) = e_Addr ?e" using K(4) [of e] by (simp add: same_identity_def)
  have IH: "e_successes (p_eps (sy_pool (sweeps en cfg orders ?s)) e) = e_successes (p_eps (sy_pool ?s) e) + int (length orders) \<and>
    (orders \<noteq> [] \<longrightarrow> p_rise (sy_pool ?s) \<le> e_successes (p_eps (sy_pool ?s) e) + int (length orders) \<longrightarrow>
       Healthy (sy_pool (sweeps en cfg orders ?s)) e)"
    using Cons.prems K E(1) addr by (intro Cons.IH) simp_all
  have sw: "sweeps en cfg (order # orders) s = sweeps en cfg orders ?s" by (simp add: sweeps_def)
  show ?case unfolding sw
  proof (cases "orders = []")
    case True
    then show "e_successes (p_eps (sy_pool (sweeps en cfg orders ?s)) e) = e_successes ?e + int (length (order # orders)) \<and>
      (order # orders \<noteq> [] \<longrightarrow> p_rise (sy_pool s) \<le> e_successes ?e + int (length (order # orders)) \<longrightarrow>
       Healthy (sy_pool (sweeps en cfg orders ?s)) e)"
      using E by (simp add: sweeps_def Healthy_def)
  next
    case False
    then show "e_successes (p_eps (sy_pool (sweeps en cfg orders ?s)) e) = e_successes ?e + int (length (order # orders)) \<and>
      (order # orders \<noteq> [] \<longrightarrow> p_rise (sy_pool s) \<le> e_successes ?e + int (length (order # orders)) \<longrightarrow>
       Healthy (sy_pool (sweeps en cfg orders ?s)) e)"
      using E(1) IH K(3) by simp
  qed
qed (simp add: sweeps_def)

section \<open>Properties\<close>

text \<open>
  What counts as alive: over the real transport, a probe succeeds exactly when a
  response with the probe's transaction id came back whose code is none of SERVFAIL,
  REFUSED and NOTIMP and which has an answer record if one is required. NXDOMAIN, the
  verdict of a blocklist, counts as alive.
\<close>

lemma probe_alive_iff:
  assumes "en_exch en = Exchange net"
    and "BuildQuery txid (pr_Name (hc_Probe (c_Health cfg))) (pr_qtype (hc_Probe (c_Health cfg))) = Inr query"
  shows "snd (probe en cfg txid addr k) = None \<longleftrightarrow>
    (\<exists>resp rtt hdr. Exchange net k ProtoUDP addr query (hc_Timeout (c_Health cfg)) = (Inr resp, rtt) \<and>
       ParseHeader resp = Inr hdr \<and> h_ID hdr = ID query \<and> h_QR hdr \<and>
       h_RCode hdr \<notin> {RCodeServFail, RCodeRefused, RCodeNotImp} \<and>
       \<not> (pr_RequireAnswer (hc_Probe (c_Health cfg)) \<and> h_ANCount hdr = 0))"
proof (cases "Exchange net k ProtoUDP addr query (hc_Timeout (c_Health cfg))")
  case (Pair res rtt)
  show ?thesis
  proof (cases res)
    case (Inl err)
    then show ?thesis using assms Pair by (simp add: probe_def Let_def)
  next
    case (Inr resp)
    from net_exchange.response_header [of net k ProtoUDP addr query _ resp rtt] Pair Inr
    obtain hdr where "ParseHeader resp = Inr hdr" "h_ID hdr = ID query" "h_QR hdr" by blast
    then show ?thesis using assms Pair Inr by (simp add: probe_def Let_def)
  qed
qed

definition root_probe :: config where
  "root_probe = Default\<lparr>c_Health := (c_Health Default)\<lparr>hc_Probe := \<lparr>pr_Name = ''.'', pr_Type = ''A'', pr_RequireAnswer = False, pr_qtype = 1\<rparr>\<rparr>\<rparr>"

lemma root_query: "BuildQuery txid ''.'' 1 = Inr (set16 (set16 (set16 (replicate 12 0) 0 txid) 2 0x0100) 4 1 @ [0, 0, 1, 0, 1])"
  by (simp add: BuildQuery_def packName_def HeaderLen_def put16_def Let_def)

text \<open>
  C26. Recovery within \<open>rise\<close> sweeps: once a path answers its probes, whatever it did before
  and in whatever order the goroutines of each sweep finish, it is back in rotation after at
  most \<open>rise\<close> sweeps.
\<close>

theorem recovers_within_rise:
  assumes "pool_wf (sy_pool s)" "e \<in> set (p_endpoints (sy_pool s))"
    and "\<forall>txid k. snd (probe en cfg txid (e_Addr (p_eps (sy_pool s) e)) k) = None"
    and "\<forall>order \<in> set orders. mset (map fst order) = mset (p_endpoints (sy_pool s))"
    and "0 \<le> e_successes (p_eps (sy_pool s) e)" "e_successes (p_eps (sy_pool s) e) + int (length orders) < 2 ^ 63"
    and "1 \<le> p_rise (sy_pool s)" "p_rise (sy_pool s) \<le> int (length orders)"
  shows "Healthy (sy_pool (sweeps en cfg orders s)) e"
  using sweeps_recover [OF assms(1-6)] assms(5,7,8) by auto

text \<open>An environment in which every server answers with NOERROR, and a system whose second path is down.\<close>

definition calm :: env where
  "calm = \<lparr>en_exch = (\<lambda>k proto addr query timeout. (Inr [0, 0, 0x80, 0, 0, 0, 0, 0, 0, 0, 0, 0], 5)),
     en_ctx = (\<lambda>_. None), en_now = (\<lambda>k. int k), en_tz = 0\<rparr>"

definition pair_system :: "string \<Rightarrow> system" where
  "pair_system strategy = (start_system Default 0 [])\<lparr>sy_pool := pair_pool strategy\<rparr>"

theorem recovers_within_rise_witness:
  "Healthy (sy_pool (sweeps calm root_probe [[(0, 1), (1, 2), (2, 3)], [(2, 4), (0, 5), (1, 6)]] (pair_system StrategyFailover))) 1"
proof -
  let ?s = "pair_system StrategyFailover"
  have p: "sy_pool ?s = pair_pool StrategyFailover" by (simp add: pair_system_def)
  have ev: "p_endpoints (pair_pool StrategyFailover) = [0, 1, 2]" "p_rise (pair_pool StrategyFailover) = 2"
    "e_successes (p_eps (pair_pool StrategyFailover) 1) = 0"
    by (simp_all add: pair_eval)
  have "snd (probe calm root_probe txid a k) = None" for txid a k
    by (simp add: probe_def root_probe_def root_query calm_def ParseHeader_def HeaderLen_def get16_def be16_def
        RCodeServFail_def RCodeRefused_def RCodeNotImp_def Let_def)
  then show ?thesis
    using recovers_within_rise [of ?s 1 calm root_probe "[[(0, 1), (1, 2), (2, 3)], [(2, 4), (0, 5), (1, 6)]]"]
      pair_failover_wf ev by (simp add: p)
qed

text \<open>
  The tracker mirrors the pool after every sweep, whatever happened since the last one:
  it is in an outage exactly when no upstream in rotation is healthy, also when an upstream
  was drained by hand, which no endpoint transition reports.
\<close>

lemma sweep_mirrors: "mirrored (Sweep en cfg order s)"
  by (simp add: Sweep_def Let_def)

end
