(* ===== verification/Proxy.thy ===== *)
theory Proxy
  imports Health
begin

text \<open>
  Package \<open>internal/proxy\<close>: what happens to one client query, from the checks on its header
  over the attempts on the planned endpoints and the public resolvers to the reply, with
  the counters and statistics on the way. A reply of \<open>None\<close> is Go's nil: nothing is sent. The whole result is
  an option because picking an endpoint can panic.
\<close>

section \<open>One query\<close>

definition outageProbeAttempts :: nat where "outageProbeAttempts = 1"

definition count_upstream_failure :: "nat \<Rightarrow> string \<Rightarrow> system \<Rightarrow> system" where
  "count_upstream_failure e why s =
     (let m = sy_metrics s in s\<lparr>sy_metrics := m\<lparr>m_Failures := Counter_Inc (endpoint_labels s e ''reason'' why) (m_Failures m)\<rparr>\<rparr>)"

definition count_upstream_response :: "nat \<Rightarrow> rcode \<Rightarrow> system \<Rightarrow> system" where
  "count_upstream_response e rc s =
     (let m = sy_metrics s in
      s\<lparr>sy_metrics := m\<lparr>m_Responses := Counter_Inc (endpoint_labels s e ''rcode'' (RCode_String rc)) (m_Responses m)\<rparr>\<rparr>)"

definition count_retry :: "string \<Rightarrow> system \<Rightarrow> system" where
  "count_retry why s =
     (let m = sy_metrics s in
      s\<lparr>sy_metrics := m\<lparr>m_Retries := Counter_Inc [\<lparr>lb_Name = ''reason'', lb_Value = why\<rparr>] (m_Retries m)\<rparr>\<rparr>)"

definition report_query :: "env \<Rightarrow> nat \<Rightarrow> bool \<Rightarrow> duration \<Rightarrow> goerr option \<Rightarrow> system \<Rightarrow> system" where
  "report_query en e ok rtt err s = with_change (now_of en s) (ReportQuery e ok rtt err (now_of en s)) s"

text \<open>
  The loop over the planned endpoints: the reply if one was accepted, the last retryable
  response, the statistics record, and the state.
\<close>

fun attempt_loop ::
  "env \<Rightarrow> config \<Rightarrow> bytes \<Rightarrow> string \<Rightarrow> nat list \<Rightarrow> nat \<Rightarrow> string \<Rightarrow> bytes option \<Rightarrow> stat_record \<Rightarrow> system \<Rightarrow>
     bytes option \<times> bytes option \<times> stat_record \<times> system" where
  "attempt_loop en cfg req proto [] i lastReason lastResp rc s = (None, lastResp, rc, s)"
| "attempt_loop en cfg req proto (ep # eps) i lastReason lastResp rc s =
     (if en_ctx en (sy_k s) \<noteq> None then (None, lastResp, rc, s)
      else
        let rc1 = rc\<lparr>r_Attempts := int i + 1\<rparr>;
            s1 = (if 0 < i then count_retry lastReason s else s)
        in case en_exch en (sy_k s1) proto (e_Addr (ep_of s1 ep)) req (qc_Timeout (c_Query cfg)) of
             (Inl err, rtt) \<Rightarrow>
               let why = Classify (Some err);
                   s2 = count_upstream_failure ep why (report_query en ep False rtt (Some err) (s1\<lparr>sy_k := sy_k s1 + 1\<rparr>))
               in attempt_loop en cfg req proto eps (i + 1) why lastResp rc1 s2
           | (Inr resp, rtt) \<Rightarrow>
               let code = resp_rcode resp in
               if ShouldRetryRCode (c_Query cfg) code then
                 let why = ''rcode_'' @ RCode_String code;
                     s2 = count_upstream_failure ep why
                       (report_query en ep False rtt (Some (Errorf ''upstream returned %s'' [RCode_String code])) (s1\<lparr>sy_k := sy_k s1 + 1\<rparr>))
                 in attempt_loop en cfg req proto eps (i + 1) why (Some resp) rc1 s2
               else
                 let s2 = count_upstream_response ep code (report_query en ep True rtt None (s1\<lparr>sy_k := sy_k s1 + 1\<rparr>));
                     rc2 = rc1\<lparr>r_Upstream := upstream_name s2 ep, r_Endpoint := e_Name (ep_of s2 ep), r_RCode := RCode_String code\<rparr>
                 in (Some resp, lastResp, rc2, s2))"

definition resolveViaFallback ::
  "env \<Rightarrow> bytes \<Rightarrow> string \<Rightarrow> stat_record \<Rightarrow> system \<Rightarrow> (bytes option \<times> stat_record \<times> system) option" where
  "resolveViaFallback en req proto rc s =
     (if \<not> Enabled (sy_resolver s) then Some (None, rc, s)
      else case Resolver_Resolve (en_exch en) (en_ctx en) req proto (sy_resolver s) (sy_k s) (sy_tracker s) (sy_metrics s) of
        None \<Rightarrow> None
      | Some (res, r', k', t', m') \<Rightarrow>
          let s' = s\<lparr>sy_resolver := r', sy_k := k', sy_tracker := t', sy_metrics := m'\<rparr> in
          (case res of
             Inl _ \<Rightarrow> Some (None, rc, s')
           | Inr (resp, server) \<Rightarrow>
               Some (Some resp, rc\<lparr>r_Fallback := True, r_Upstream := [], r_Endpoint := server,
                                    r_RCode := RCode_String (resp_rcode resp)\<rparr>, s')))"

text \<open>The deferred call that files the finished query.\<close>

definition file_record :: "env \<Rightarrow> instant \<Rightarrow> stat_record \<Rightarrow> system \<Rightarrow> system" where
  "file_record en start rc s =
     s\<lparr>sy_stats := Record (en_tz en) (now_of en s) (rc\<lparr>r_Latency := now_of en s - start\<rparr>) (sy_stats s)\<rparr>"

definition attempts_of :: "config \<Rightarrow> system \<Rightarrow> nat list \<Rightarrow> nat" where
  "attempts_of cfg s plan =
     (let a = (if int (length plan) < qc_MaxAttempts (c_Query cfg) then int (length plan) else qc_MaxAttempts (c_Query cfg));
          a = (if Enabled (sy_resolver s) \<and> HealthyUpstreams (sy_pool s) = 0 \<and> int outageProbeAttempts < a
               then int outageProbeAttempts else a)
      in nat a)"

definition forward :: "env \<Rightarrow> config \<Rightarrow> bytes \<Rightarrow> string \<Rightarrow> system \<Rightarrow> (bytes option \<times> system) option" where
  "forward en cfg req proto s0 =
     (let rc0 = \<lparr>r_Proto = proto, r_QType = (case ParseQuestion req of Inl _ \<Rightarrow> [] | Inr q \<Rightarrow> TypeString (q_Type q)),
                 r_Upstream = [], r_Endpoint = [], r_RCode = [], r_Latency = 0, r_Attempts = 0, r_Fallback = False, r_Failed = False\<rparr>;
          start = now_of en s0
      in case Plan (sy_pool s0) (sy_rng s0) of
           None \<Rightarrow> None
         | Some (plan, p, r) \<Rightarrow>
             let s1 = s0\<lparr>sy_pool := p, sy_rng := r\<rparr> in
             case attempt_loop en cfg req proto (take (attempts_of cfg s1 plan) plan) 0 ''no_attempt'' None rc0 s1 of
               (Some resp, _, rc, s2) \<Rightarrow> Some (Some resp, file_record en start rc s2)
             | (None, lastResp, rc, s2) \<Rightarrow>
                 (case resolveViaFallback en req proto rc s2 of
                    None \<Rightarrow> None
                  | Some (Some resp, rc', s3) \<Rightarrow> Some (Some resp, file_record en start rc' s3)
                  | Some (None, rc', s3) \<Rightarrow>
                      let rc'' = rc'\<lparr>r_Failed := True\<rparr>;
                          m = sy_metrics s3;
                          s4 = s3\<lparr>sy_metrics := m\<lparr>m_Servfails := Counter_Inc [] (m_Servfails m)\<rparr>\<rparr>
                      in case lastResp of
                           Some resp \<Rightarrow>
                             Some (Some resp, file_record en start
                               (case ParseHeader resp of Inl _ \<Rightarrow> rc'' | Inr h \<Rightarrow> rc''\<lparr>r_RCode := RCode_String (h_RCode h)\<rparr>) s4)
                         | None \<Rightarrow>
                             Some (ErrorResponse req RCodeServFail,
                                   file_record en start (rc''\<lparr>r_RCode := RCode_String RCodeServFail\<rparr>) s4)))"

definition Server_Resolve :: "env \<Rightarrow> config \<Rightarrow> bytes \<Rightarrow> string \<Rightarrow> system \<Rightarrow> (bytes option \<times> system) option" where
  "Server_Resolve en cfg req proto s =
     (let m = sy_metrics s;
          s1 = s\<lparr>sy_metrics := m\<lparr>m_Queries := Counter_Inc [\<lparr>lb_Name = ''proto'', lb_Value = proto\<rparr>] (m_Queries m)\<rparr>\<rparr>
      in case ParseHeader req of
           Inl _ \<Rightarrow> Some (None, s1)
         | Inr hdr \<Rightarrow>
             if h_QR hdr then Some (None, s1)
             else let start = now_of en s1 in
               case forward en cfg req proto s1 of
                 None \<Rightarrow> None
               | Some (resp, s2) \<Rightarrow>
                   let m2 = sy_metrics s2 in
                   Some (resp, s2\<lparr>sy_metrics := m2\<lparr>m_Duration := Histogram_Observe (Seconds (now_of en s2 - start)) (m_Duration m2)\<rparr>\<rparr>))"

definition overloaded_reply :: "bytes \<Rightarrow> system \<Rightarrow> bytes option \<times> system" where
  "overloaded_reply req s =
     (let m = sy_metrics s;
          labels = [\<lparr>lb_Name = ''upstream'', lb_Value = ''none''\<rparr>, \<lparr>lb_Name = ''endpoint'', lb_Value = ''none''\<rparr>,
                    \<lparr>lb_Name = ''reason'', lb_Value = ''overloaded''\<rparr>]
      in (ErrorResponse req RCodeServFail, s\<lparr>sy_metrics := m\<lparr>m_Failures := Counter_Inc labels (m_Failures m)\<rparr>\<rparr>))"


section \<open>Frames\<close>

lemma count_frames [frame_simps]:
  "sy_pool (count_upstream_failure e w s) = sy_pool s" "sy_pool (count_upstream_response e c s) = sy_pool s" "sy_pool (count_retry w s) = sy_pool s"
  "sy_tracker (count_upstream_failure e w s) = sy_tracker s" "sy_tracker (count_upstream_response e c s) = sy_tracker s"
  "sy_tracker (count_retry w s) = sy_tracker s"
  "sy_resolver (count_upstream_failure e w s) = sy_resolver s" "sy_resolver (count_upstream_response e c s) = sy_resolver s"
  "sy_resolver (count_retry w s) = sy_resolver s"
  "sy_stats (count_upstream_failure e w s) = sy_stats s" "sy_stats (count_upstream_response e c s) = sy_stats s" "sy_stats (count_retry w s) = sy_stats s"
  "sy_k (count_upstream_failure e w s) = sy_k s" "sy_k (count_upstream_response e c s) = sy_k s" "sy_k (count_retry w s) = sy_k s"
  by (simp_all add: count_upstream_failure_def count_upstream_response_def count_retry_def Let_def)

lemma report_query_frame [frame_simps]:
  "sy_pool (report_query en e ok rtt err s) = fst (ReportQuery e ok rtt err (now_of en s) (sy_pool s))"
  "sy_resolver (report_query en e ok rtt err s) = sy_resolver s" "sy_stats (report_query en e ok rtt err s) = sy_stats s"
  "sy_k (report_query en e ok rtt err s) = sy_k s" "tk_queries (sy_tracker (report_query en e ok rtt err s)) = tk_queries (sy_tracker s)"
  by (simp_all add: report_query_def frame_simps)

text \<open>What a run of attempts keeps of the state, and what it may only add to.\<close>

definition kept :: "system \<Rightarrow> system \<Rightarrow> bool" where
  "kept s s' \<longleftrightarrow> pool_wf (sy_pool s') \<and> pool_entries (sy_pool s') = pool_entries (sy_pool s) \<and>
     (\<forall>i. same_identity (p_eps (sy_pool s) i) (p_eps (sy_pool s') i)) \<and>
     sy_resolver s' = sy_resolver s \<and> sy_stats s' = sy_stats s \<and> tk_queries (sy_tracker s') = tk_queries (sy_tracker s)"

lemma kept_refl: "pool_wf (sy_pool s) \<Longrightarrow> kept s s"
  by (simp add: kept_def same_identity_def)

lemma kept_trans: "kept s s' \<Longrightarrow> kept s' s'' \<Longrightarrow> kept s s''"
  by (auto simp: kept_def same_identity_def)

lemma kept_report:
  assumes "pool_wf (sy_pool s)"
  shows "kept s (count_upstream_failure e w (report_query en e ok rtt err (s\<lparr>sy_k := k\<rparr>)))"
    "kept s (count_upstream_response e c (report_query en e ok rtt err (s\<lparr>sy_k := k\<rparr>)))"
    "kept s (count_retry w s)"
proof -
  let ?p = "\<lambda>now. fst (ReportQuery e ok rtt err now (sy_pool s))"
  have wf: "pool_wf (?p now) \<and> pool_entries (?p now) = pool_entries (sy_pool s)" for now
    using endpoint_update_wf [OF assms ReportQuery_frame] .
  have "same_identity (p_eps (sy_pool s) i) (p_eps (?p now) i)" for i now
    using ReportQuery_frame [of e ok rtt err now "sy_pool s"] by (auto simp: same_identity_def)
  with wf show "kept s (count_upstream_failure e w (report_query en e ok rtt err (s\<lparr>sy_k := k\<rparr>)))"
    "kept s (count_upstream_response e c (report_query en e ok rtt err (s\<lparr>sy_k := k\<rparr>)))"
    by (simp_all add: kept_def frame_simps)
  show "kept s (count_retry w s)" using assms by (simp add: kept_def frame_simps same_identity_def)
qed

lemma kept_wf: "kept s s' \<Longrightarrow> pool_wf (sy_pool s')"
  by (simp add: kept_def)

lemma kept_addr: "kept s s' \<Longrightarrow> e_Addr (ep_of s' e) = e_Addr (ep_of s e)"
  by (simp add: kept_def same_identity_def ep_of_def)

section \<open>The attempts\<close>

text \<open>
  The reference for the loop: what the planned endpoints say when they are asked one after
  the other until the query's context ends, with the addresses read from the state before.
\<close>

fun outcomes :: "env \<Rightarrow> config \<Rightarrow> bytes \<Rightarrow> string \<Rightarrow> system \<Rightarrow> nat \<Rightarrow> nat list \<Rightarrow> bytes result list" where
  "outcomes en cfg req proto s k [] = []"
| "outcomes en cfg req proto s k (e # es) =
     (if en_ctx en k \<noteq> None then []
      else fst (en_exch en k proto (e_Addr (ep_of s e)) req (qc_Timeout (c_Query cfg))) # outcomes en cfg req proto s (k + 1) es)"

definition answer :: "config \<Rightarrow> bytes result \<Rightarrow> bytes option" where
  "answer cfg r = (case r of Inl _ \<Rightarrow> None | Inr resp \<Rightarrow> if ShouldRetryRCode (c_Query cfg) (resp_rcode resp) then None else Some resp)"

text \<open>The first answer, and how many outcomes it takes to get it.\<close>

fun first_good :: "config \<Rightarrow> bytes result list \<Rightarrow> bytes option \<times> nat" where
  "first_good cfg [] = (None, 0)"
| "first_good cfg (r # rs) =
     (case answer cfg r of Some resp \<Rightarrow> (Some resp, 1) | None \<Rightarrow> (case first_good cfg rs of (a, n) \<Rightarrow> (a, n + 1)))"

text \<open>The last response with a code to be retried.\<close>

fun last_response :: "bytes result list \<Rightarrow> bytes option \<Rightarrow> bytes option" where
  "last_response [] d = d"
| "last_response (Inl _ # rs) d = last_response rs d"
| "last_response (Inr resp # rs) d = last_response rs (Some resp)"

lemma first_good_bound: "snd (first_good cfg rs) \<le> length rs"
  by (induction rs) (auto split: option.splits prod.splits)

lemma outcomes_length: "length (outcomes en cfg req proto s k es) \<le> length es"
  by (induction es arbitrary: k) auto

lemma outcomes_kept: "kept s s' \<Longrightarrow> outcomes en cfg req proto s' k es = outcomes en cfg req proto s k es"
  by (induction es arbitrary: k) (simp_all add: kept_addr)

lemma attempt_loop_outcomes:
  assumes "pool_wf (sy_pool s)"
  shows "case attempt_loop en cfg req proto es i why lastResp rc s of (res, last', rc', s') \<Rightarrow>
    kept s s' \<and> (let os = outcomes en cfg req proto s (sy_k s) es in
      res = fst (first_good cfg os) \<and> sy_k s' = sy_k s + snd (first_good cfg os) \<and>
      (res = None \<longrightarrow> last' = last_response os lastResp)) \<and>
    r_Failed rc' = r_Failed rc \<and> r_Fallback rc' = r_Fallback rc"
  using assms
proof (induction es arbitrary: i why lastResp rc s)
  case Nil
  then show ?case by (simp add: kept_refl)
next
  case (Cons ep es)
  show ?case
  proof (cases "en_ctx en (sy_k s) = None")
    case False
    then show ?thesis using Cons.prems by (simp add: kept_refl)
  next
    case True
    define s1 where "s1 = (if 0 < i then count_retry why s else s)"
    have k1: "kept s s1" and f1: "sy_k s1 = sy_k s" "ep_of s1 ep = ep_of s ep"
      using Cons.prems kept_report(3) kept_refl by (simp_all add: s1_def frame_simps ep_of_def)
    have wf1: "pool_wf (sy_pool s1)" using k1 by (rule kept_wf)
    obtain out rtt where ex: "en_exch en (sy_k s) proto (e_Addr (ep_of s ep)) req (qc_Timeout (c_Query cfg)) = (out, rtt)" by fastforce
    define s2 where "s2 = (\<lambda>w err. count_upstream_failure ep w (report_query en ep False rtt err (s1\<lparr>sy_k := sy_k s1 + 1\<rparr>)))"
    have k2: "kept s (s2 w err)" and n2: "sy_k (s2 w err) = sy_k s + 1" for w err
      using kept_trans [OF k1 kept_report(1) [OF wf1]] by (simp_all add: s2_def frame_simps f1)
    have step: ?thesis
      if loop: "attempt_loop en cfg req proto (ep # es) i why lastResp rc s =
          attempt_loop en cfg req proto es (i + 1) w lastResp' (rc\<lparr>r_Attempts := int i + 1\<rparr>) (s2 w err)"
        and out: "answer cfg out = None" "last_response [out] lastResp = lastResp'" for w err lastResp'
    proof -
      obtain res last' rc' s' where r: "attempt_loop en cfg req proto es (i + 1) w lastResp' (rc\<lparr>r_Attempts := int i + 1\<rparr>) (s2 w err) = (res, last', rc', s')"
        by (metis prod_cases4)
      have l: "last_response (out # os) lastResp = last_response os lastResp'" for os using out(2) by (cases out) auto
      note ih = Cons.IH [OF kept_wf [OF k2 [of w err]], where i = "i + 1" and why = w and lastResp = lastResp' and
          rc = "rc\<lparr>r_Attempts := int i + 1\<rparr>", unfolded r prod.case Let_def outcomes_kept [OF k2] n2]
      have "kept s s'" using ih kept_trans [OF k2] by blast
      moreover have "outcomes en cfg req proto s (sy_k s) (ep # es) = out # outcomes en cfg req proto s (sy_k s + 1) es"
        using True ex by simp
      ultimately show ?thesis unfolding loop r prod.case Let_def
        using ih out(1) l by (simp add: split_beta)
    qed
    show ?thesis
    proof (cases out)
      case (Inl err)
      show ?thesis
        by (rule step [of "Classify (Some err)" lastResp "Some err"])
          (use True ex f1 Inl in \<open>simp_all add: answer_def Let_def s2_def flip: s1_def\<close>)
    next
      case (Inr resp)
      show ?thesis
      proof (cases "ShouldRetryRCode (c_Query cfg) (resp_rcode resp)")
        case retry: True
        let ?c = "RCode_String (resp_rcode resp)"
        show ?thesis
          by (rule step [of "''rcode_'' @ ?c" "Some resp" "Some (Errorf ''upstream returned %s'' [?c])"])
            (use True ex f1 Inr retry in \<open>simp_all add: answer_def Let_def s2_def flip: s1_def\<close>)
      next
        case False
        then show ?thesis
          using True ex f1 Inr kept_trans [OF k1 kept_report(2) [OF wf1]]
          by (simp add: answer_def Let_def frame_simps flip: s1_def)
      qed
    qed
  qed
qed

section \<open>The reply\<close>

definition replies_to :: "bytes \<Rightarrow> bytes \<Rightarrow> bool" where
  "replies_to req resp \<longleftrightarrow> (\<exists>hdr. ParseHeader resp = Inr hdr \<and> h_ID hdr = ID req \<and> h_QR hdr)"

lemma ParseHeader_ID: "ParseHeader req = Inr hdr \<Longrightarrow> h_ID hdr = ID req"
  by (auto simp: ParseHeader_def ID_def HeaderLen_def Let_def split: if_splits)

lemma ErrorResponse_replies:
  assumes "ErrorResponse req rc = Some resp"
  shows "replies_to req resp"
proof -
  from assms obtain hdr fin where hdr: "ParseHeader req = Inr hdr" and fin: "echo_end req hdr = Some fin"
    and resp: "resp = rewrite_header (take fin req) (reply_flags (h_Opcode hdr) (h_RD hdr) rc) (if h_QDCount hdr = 0 then 0 else 1)"
    by (auto simp: ErrorResponse_eq split: sum.splits if_splits)
  have "12 \<le> fin" "fin \<le> length req" using echo_end_bounds [OF hdr fin] by auto
  from ParseHeader_rewrite [OF this hdr] show ?thesis by (simp add: replies_to_def resp ParseHeader_ID [OF hdr])
qed

lemma ErrorResponse_answers:
  assumes "ParseHeader req = Inr hdr" "\<not> h_QR hdr" "h_QDCount hdr = 0 \<or> ParseQuestion req = Inr q"
  shows "ErrorResponse req rc \<noteq> None"
  using assms by (auto simp: ErrorResponse_eq echo_end_def ParseQuestion_def split: sum.splits if_splits)

lemma first_good_in: "fst (first_good cfg os) = Some resp \<Longrightarrow> Inr resp \<in> set os \<and> \<not> ShouldRetryRCode (c_Query cfg) (resp_rcode resp)"
  by (induction os) (auto simp: answer_def split: option.splits prod.splits sum.splits if_splits)

lemma last_response_in: "last_response os d = Some resp \<Longrightarrow> d = Some resp \<or> Inr resp \<in> set os"
  by (induction os d rule: last_response.induct) auto

text \<open>
  The specification of the reply: the first answer of the Pi-holes, or else the answer of
  the public resolvers, or else the last error response of a Pi-hole, or else SERVFAIL.
\<close>

definition reply_of :: "config \<Rightarrow> bytes \<Rightarrow> bytes result list \<Rightarrow> bytes option \<Rightarrow> bytes option" where
  "reply_of cfg req os fb =
     (case fst (first_good cfg os) of
        Some resp \<Rightarrow> Some resp
      | None \<Rightarrow> (case fb of
          Some resp \<Rightarrow> Some resp
        | None \<Rightarrow> (case last_response os None of Some resp \<Rightarrow> Some resp | None \<Rightarrow> ErrorResponse req RCodeServFail)))"

definition fallback_reply :: "env \<Rightarrow> bytes \<Rightarrow> string \<Rightarrow> resolver \<Rightarrow> nat \<Rightarrow> tracker \<Rightarrow> metrics \<Rightarrow> bytes option" where
  "fallback_reply en req proto r k t m =
     (if Enabled r then
        (case Resolver_Resolve (en_exch en) (en_ctx en) req proto r k t m of
           Some (Inr (resp, _), _) \<Rightarrow> Some resp
         | _ \<Rightarrow> None)
      else None)"

context transport
begin

lemma outcome_replies:
  assumes "en_exch en = exch" "Inr resp \<in> set (outcomes en cfg req proto s k es)"
  shows "replies_to req resp"
  using assms(2)
proof (induction es arbitrary: k)
  case (Cons e es)
  show ?case
  proof (cases "Inr resp \<in> set (outcomes en cfg req proto s (k + 1) es)")
    case False
    with Cons.prems assms(1) obtain rtt where "exch k proto (e_Addr (ep_of s e)) req (qc_Timeout (c_Query cfg)) = (Inr resp, rtt)"
      by (cases "exch k proto (e_Addr (ep_of s e)) req (qc_Timeout (c_Query cfg))") (auto split: if_splits)
    then show ?thesis unfolding replies_to_def by (rule response_header)
  qed (rule Cons.IH)
qed simp

lemma fallback_replies:
  assumes "Resolver_Resolve exch ctx req proto r k t m = Some (Inr (resp, server), r', k', t', m')"
  shows "replies_to req resp"
proof -
  from Resolver_response [OF assms] obtain j rtt where "exch j proto server req (rv_timeout r) = (Inr resp, rtt)" by (metis prod.collapse)
  then show ?thesis unfolding replies_to_def by (rule response_header)
qed

lemma fallback_reply_replies:
  assumes "en_exch en = exch" "fallback_reply en req proto r k t m = Some resp"
  shows "replies_to req resp"
  using assms fallback_replies [of "en_ctx en" req proto r k t m resp]
  by (auto simp: fallback_reply_def split: if_splits option.splits sum.splits)

end

lemma Record_total [frame_simps]: "k_total (Record tz now r c) = k_total c + 1"
  by (simp add: Record_def Let_def)

lemma file_record_frame [frame_simps]:
  "sy_pool (file_record en start rc s) = sy_pool s" "sy_tracker (file_record en start rc s) = sy_tracker s"
  "sy_resolver (file_record en start rc s) = sy_resolver s" "sy_k (file_record en start rc s) = sy_k s"
  "k_total (sy_stats (file_record en start rc s)) = k_total (sy_stats s) + 1"
  by (simp_all add: file_record_def frame_simps)

lemma resolveViaFallback_spec:
  fixes en req proto
  assumes "uint (rv_rr (sy_resolver s)) < 2 ^ 63"
  defines "fb \<equiv> fallback_reply en req proto (sy_resolver s) (sy_k s) (sy_tracker s) (sy_metrics s)"
  shows "\<exists>rc' s'. resolveViaFallback en req proto rc s = Some (fb, rc', s') \<and>
    sy_pool s' = sy_pool s \<and> sy_stats s' = sy_stats s \<and> sy_k s \<le> sy_k s' \<and>
    tk_queries (sy_tracker s') = tk_queries (sy_tracker s) + word_of_nat (sy_k s' - sy_k s) \<and>
    (fb \<noteq> None \<longrightarrow> sy_k s < sy_k s' \<and> sy_k s' \<le> sy_k s + length (rv_servers (sy_resolver s)))"
proof (cases "Enabled (sy_resolver s)")
  case True
  from Resolver_total [OF assms(1)] obtain res r' k' t' m' where R:
    "Resolver_Resolve (en_exch en) (en_ctx en) req proto (sy_resolver s) (sy_k s) (sy_tracker s) (sy_metrics s) = Some (res, r', k', t', m')"
    by (metis option.exhaust prod_cases5)
  note Resolver_counted [OF R]
  moreover have "sy_k s < k' \<and> k' \<le> sy_k s + length (rv_servers (sy_resolver s))" if "res = Inr (resp, server)" for resp server
    using Resolver_response R that by blast
  ultimately show ?thesis
    using True R by (cases res) (auto simp: resolveViaFallback_def fb_def fallback_reply_def Let_def)
qed (simp add: resolveViaFallback_def fb_def fallback_reply_def)

lemma HealthyUpstreams_rr: "HealthyUpstreams (p\<lparr>p_rr := c\<rparr>) = HealthyUpstreams p"
proof -
  have "Healthy (p\<lparr>p_rr := c\<rparr>) = Healthy p" by (rule ext) (simp add: Healthy_def)
  then show ?thesis by (simp add: HealthyUpstreams_def Upstream_Healthy_def Drained_def)
qed

text \<open>
  What one query leaves behind, given what the Pi-holes said and what the public resolvers
  said: every exchange after the attempts on Pi-holes went to a public resolver and was
  counted by the tracker, there is none if a Pi-hole answered, the query was filed once, and
  the pool has the same members.
\<close>

definition accounted :: "config \<Rightarrow> bytes result list \<Rightarrow> bytes option \<Rightarrow> system \<Rightarrow> system \<Rightarrow> bool" where
  "accounted cfg os fb s s' \<longleftrightarrow>
     (let k = sy_k s + snd (first_good cfg os) in
      k \<le> sy_k s' \<and> tk_queries (sy_tracker s') = tk_queries (sy_tracker s) + word_of_nat (sy_k s' - k) \<and>
      (fst (first_good cfg os) \<noteq> None \<longrightarrow> sy_k s' = k \<and> sy_resolver s' = sy_resolver s) \<and>
      (fst (first_good cfg os) = None \<longrightarrow> fb \<noteq> None \<longrightarrow> k < sy_k s' \<and> sy_k s' \<le> k + length (rv_servers (sy_resolver s)))) \<and>
     k_total (sy_stats s') = k_total (sy_stats s) + 1 \<and> pool_wf (sy_pool s') \<and> pool_entries (sy_pool s') = pool_entries (sy_pool s)"

lemma accounted_metrics: "accounted cfg os fb (s\<lparr>sy_metrics := m\<rparr>) s' = accounted cfg os fb s s'"
  "accounted cfg os fb s (s'\<lparr>sy_metrics := m\<rparr>) = accounted cfg os fb s s'"
  by (simp_all add: accounted_def)

text \<open>The whole of \<open>forward\<close> against the specification, with what it leaves behind.\<close>

lemma forward_refines:
  fixes en cfg req proto
  assumes "pool_wf (sy_pool s)" "Plan (sy_pool s) (sy_rng s) = Some (plan, p, r)" "uint (rv_rr (sy_resolver s)) < 2 ^ 63"
  defines "os \<equiv> outcomes en cfg req proto s (sy_k s) (take (attempts_of cfg s plan) plan)"
  shows "\<exists>s' t m. let fb = fallback_reply en req proto (sy_resolver s) (sy_k s + snd (first_good cfg os)) t m in
    forward en cfg req proto s = Some (reply_of cfg req os fb, s') \<and> accounted cfg os fb s s'"
proof -
  define s1 where "s1 = s\<lparr>sy_pool := p, sy_rng := r\<rparr>"
  have k1: "kept s s1"
    using assms(1) Plan_pool [OF assms(2)] Plan_wf [OF assms(1,2)] by (auto simp: s1_def kept_def same_identity_def pool_entries_def)
  have n1: "sy_k s1 = sy_k s" by (simp add: s1_def)
  have a1: "attempts_of cfg s1 plan = attempts_of cfg s plan"
    using Plan_pool [OF assms(2)] by (auto simp: s1_def attempts_of_def HealthyUpstreams_rr)
  obtain start rc0 where f: "forward en cfg req proto s =
      (case attempt_loop en cfg req proto (take (attempts_of cfg s plan) plan) 0 ''no_attempt'' None rc0 s1 of
               (Some resp, _, rc, s2) \<Rightarrow> Some (Some resp, file_record en start rc s2)
             | (None, lastResp, rc, s2) \<Rightarrow>
                 (case resolveViaFallback en req proto rc s2 of
                    None \<Rightarrow> None
                  | Some (Some resp, rc', s3) \<Rightarrow> Some (Some resp, file_record en start rc' s3)
                  | Some (None, rc', s3) \<Rightarrow>
                      let rc'' = rc'\<lparr>r_Failed := True\<rparr>;
                          m = sy_metrics s3;
                          s4 = s3\<lparr>sy_metrics := m\<lparr>m_Servfails := Counter_Inc [] (m_Servfails m)\<rparr>\<rparr>
                      in case lastResp of
                           Some resp \<Rightarrow>
                             Some (Some resp, file_record en start
                               (case ParseHeader resp of Inl _ \<Rightarrow> rc'' | Inr h \<Rightarrow> rc''\<lparr>r_RCode := RCode_String (h_RCode h)\<rparr>) s4)
                         | None \<Rightarrow>
                             Some (ErrorResponse req RCodeServFail,
                                   file_record en start (rc''\<lparr>r_RCode := RCode_String RCodeServFail\<rparr>) s4)))"
    by (simp add: forward_def assms(2) a1 [unfolded s1_def] s1_def Let_def)
  obtain res lastResp rc s2 where l: "attempt_loop en cfg req proto (take (attempts_of cfg s plan) plan) 0 ''no_attempt'' None rc0 s1 = (res, lastResp, rc, s2)"
    by (metis prod_cases4)
  note A = attempt_loop_outcomes [OF kept_wf [OF k1], where en = en and cfg = cfg and req = req and proto = proto and
      es = "take (attempts_of cfg s plan) plan" and i = 0 and why = "''no_attempt''" and lastResp = None and rc = rc0,
      unfolded l prod.case Let_def outcomes_kept [OF k1] n1, folded os_def]
  have k2: "kept s s2" using A kept_trans [OF k1] by blast
  show ?thesis
  proof (cases res)
    case (Some resp)
    then have "forward en cfg req proto s = Some (Some resp, file_record en start rc s2)" by (simp add: f l)
    moreover have g: "fst (first_good cfg os) = Some resp" using A Some by simp
    ultimately show ?thesis using A k2 unfolding reply_of_def accounted_def g by (simp add: frame_simps kept_def)
  next
    case None
    have "uint (rv_rr (sy_resolver s2)) < 2 ^ 63" using assms(3) k2 by (simp add: kept_def)
    let ?fb = "fallback_reply en req proto (sy_resolver s2) (sy_k s2) (sy_tracker s2) (sy_metrics s2)"
    from resolveViaFallback_spec [OF \<open>uint (rv_rr (sy_resolver s2)) < 2 ^ 63\<close>, of en req proto rc] obtain rc' s3 where
      v: "resolveViaFallback en req proto rc s2 = Some (?fb, rc', s3)" "sy_pool s3 = sy_pool s2" "sy_stats s3 = sy_stats s2" "sy_k s2 \<le> sy_k s3"
        "tk_queries (sy_tracker s3) = tk_queries (sy_tracker s2) + word_of_nat (sy_k s3 - sy_k s2)"
        "?fb \<noteq> None \<longrightarrow> sy_k s2 < sy_k s3 \<and> sy_k s3 \<le> sy_k s2 + length (rv_servers (sy_resolver s2))" by blast
    have g: "fst (first_good cfg os) = None" "lastResp = last_response os None" "sy_k s2 = sy_k s + snd (first_good cfg os)"
      "sy_resolver s2 = sy_resolver s" using A None k2 by (simp_all add: kept_def)
    have "reply_of cfg req os (fallback_reply en req proto (sy_resolver s) (sy_k s + snd (first_good cfg os)) (sy_tracker s2) (sy_metrics s2)) =
        (case fallback_reply en req proto (sy_resolver s2) (sy_k s2) (sy_tracker s2) (sy_metrics s2) of
           Some resp \<Rightarrow> Some resp | None \<Rightarrow> (case lastResp of Some resp \<Rightarrow> Some resp | None \<Rightarrow> ErrorResponse req RCodeServFail))"
      unfolding reply_of_def g by simp
    then show ?thesis using g(1,3) None k2 v
      by (intro exI [of _ "snd (the (forward en cfg req proto s))"] exI [of _ "sy_tracker s2"] exI [of _ "sy_metrics s2"])
        (auto simp: f l frame_simps kept_def accounted_def Let_def split: option.splits)
  qed
qed

lemma Plan_total:
  assumes "uint (p_rr p) < 2 ^ 63"
  shows "Plan p r \<noteq> None"
proof -
  have "rotate_by (int_of_u64 (p_rr p)) (healthy_members p) \<noteq> None" if "healthy_members p \<noteq> []"
    using rotate_by_nonneg [OF _ that, of "uint (p_rr p)"] int_of_u64_small [OF assms] by simp
  then show ?thesis unfolding Plan_None_iff by (cases "healthy_members p") (auto simp: orderLocked_def Let_def split: prod.splits)
qed

lemma reply_of_replies:
  assumes "\<And>resp. Inr resp \<in> set os \<Longrightarrow> replies_to req resp" "\<And>resp. fb = Some resp \<Longrightarrow> replies_to req resp"
    and "ErrorResponse req RCodeServFail \<noteq> None"
  shows "\<exists>resp. reply_of cfg req os fb = Some resp \<and> replies_to req resp"
proof (cases "fst (first_good cfg os)")
  case None
  show ?thesis
  proof (cases fb)
    case fb: None
    show ?thesis
    proof (cases "last_response os None")
      case last: None
      from assms(3) obtain resp where "ErrorResponse req RCodeServFail = Some resp" by blast
      with ErrorResponse_replies [OF this] show ?thesis using None fb last by (simp add: reply_of_def)
    next
      case (Some resp)
      then show ?thesis using None fb assms(1) last_response_in [OF Some] by (simp add: reply_of_def)
    qed
  qed (use None assms(2) in \<open>simp add: reply_of_def\<close>)
qed (use assms(1) first_good_in [of cfg os] in \<open>simp add: reply_of_def\<close>)

text \<open>The states in which no counter is about to index below zero.\<close>

definition steady :: "system \<Rightarrow> bool" where
  "steady s \<longleftrightarrow> pool_wf (sy_pool s) \<and> uint (p_rr (sy_pool s)) < 2 ^ 63 \<and> uint (rv_rr (sy_resolver s)) < 2 ^ 63"

lemma Server_Resolve_forward:
  assumes "ParseHeader req = Inr hdr" "\<not> h_QR hdr"
  shows "\<exists>m. Server_Resolve en cfg req proto s =
    (case forward en cfg req proto (s\<lparr>sy_metrics := m\<rparr>) of
       None \<Rightarrow> None
     | Some (resp, s2) \<Rightarrow> Some (resp, s2\<lparr>sy_metrics := (sy_metrics s2)\<lparr>m_Duration :=
         Histogram_Observe (Seconds (now_of en s2 - now_of en s)) (m_Duration (sy_metrics s2))\<rparr>\<rparr>))"
proof -
  let ?m = "(sy_metrics s)\<lparr>m_Queries := Counter_Inc [\<lparr>lb_Name = ''proto'', lb_Value = proto\<rparr>] (m_Queries (sy_metrics s))\<rparr>"
  have "now_of en (s\<lparr>sy_metrics := ?m\<rparr>) = now_of en s" by (simp add: now_of_def)
  with assms show ?thesis by (intro exI [of _ ?m]) (simp add: Server_Resolve_def Let_def split: option.split)
qed

lemma outcomes_metrics: "outcomes en cfg req proto (s\<lparr>sy_metrics := m\<rparr>) k es = outcomes en cfg req proto s k es"
  by (induction es arbitrary: k) (simp_all add: ep_of_def)

lemma attempts_of_bounds:
  "int (attempts_of cfg s plan) \<le> max 0 (qc_MaxAttempts (c_Query cfg))"
  "Enabled (sy_resolver s) \<Longrightarrow> HealthyUpstreams (sy_pool s) = 0 \<Longrightarrow> attempts_of cfg s plan \<le> 1"
  by (auto simp: attempts_of_def Let_def outageProbeAttempts_def)

lemma Resolve_refines_forward:
  fixes en cfg req proto
  assumes "steady s" "ParseHeader req = Inr hdr" "\<not> h_QR hdr" "Plan (sy_pool s) (sy_rng s) = Some (plan, p, r)"
  defines "os \<equiv> outcomes en cfg req proto s (sy_k s) (take (attempts_of cfg s plan) plan)"
  shows "\<exists>s' t m. let fb = fallback_reply en req proto (sy_resolver s) (sy_k s + snd (first_good cfg os)) t m in
    Server_Resolve en cfg req proto s = Some (reply_of cfg req os fb, s') \<and> accounted cfg os fb s s'"
proof -
  from Server_Resolve_forward [OF assms(2,3), of en cfg proto s] obtain m where
    R: "Server_Resolve en cfg req proto s =
      (case forward en cfg req proto (s\<lparr>sy_metrics := m\<rparr>) of
         None \<Rightarrow> None
       | Some (resp, s2) \<Rightarrow> Some (resp, s2\<lparr>sy_metrics := (sy_metrics s2)\<lparr>m_Duration :=
           Histogram_Observe (Seconds (now_of en s2 - now_of en s)) (m_Duration (sy_metrics s2))\<rparr>\<rparr>))" by blast
  have a: "attempts_of cfg (s\<lparr>sy_metrics := m\<rparr>) plan = attempts_of cfg s plan" by (simp add: attempts_of_def)
  have "pool_wf (sy_pool (s\<lparr>sy_metrics := m\<rparr>))" "uint (rv_rr (sy_resolver (s\<lparr>sy_metrics := m\<rparr>))) < 2 ^ 63"
    "Plan (sy_pool (s\<lparr>sy_metrics := m\<rparr>)) (sy_rng (s\<lparr>sy_metrics := m\<rparr>)) = Some (plan, p, r)"
    using assms(1,4) by (simp_all add: steady_def)
  from forward_refines [OF this(1,3,2), where en = en and cfg = cfg and req = req and proto = proto] obtain s2 t m2 where
    "forward en cfg req proto (s\<lparr>sy_metrics := m\<rparr>) =
       Some (reply_of cfg req os (fallback_reply en req proto (sy_resolver s) (sy_k s + snd (first_good cfg os)) t m2), s2)"
    "accounted cfg os (fallback_reply en req proto (sy_resolver s) (sy_k s + snd (first_good cfg os)) t m2) s s2"
    unfolding a outcomes_metrics accounted_metrics by (auto simp: os_def Let_def)
  then show ?thesis unfolding R Let_def
    by (intro exI [of _ "s2\<lparr>sy_metrics := _\<rparr>"] exI [of _ t] exI [of _ m2]) (simp add: accounted_metrics)
qed

text \<open>No query makes the program panic, and one that can be answered is answered.\<close>

lemma Resolve_defined:
  assumes "steady s"
  shows "\<exists>reply s'. Server_Resolve en cfg req proto s = Some (reply, s') \<and> pool_wf (sy_pool s') \<and> pool_entries (sy_pool s') = pool_entries (sy_pool s)"
proof (cases "\<exists>hdr. ParseHeader req = Inr hdr \<and> \<not> h_QR hdr")
  case True
  then obtain hdr where h: "ParseHeader req = Inr hdr" "\<not> h_QR hdr" by blast
  from Plan_total [of "sy_pool s" "sy_rng s"] assms obtain plan p r where "Plan (sy_pool s) (sy_rng s) = Some (plan, p, r)"
    by (auto simp: steady_def)
  from Resolve_refines_forward [OF assms h this, where en = en and cfg = cfg and proto = proto] show ?thesis
    unfolding accounted_def Let_def by blast
next
  case False
  then show ?thesis using assms by (auto simp: Server_Resolve_def steady_def Let_def split: sum.splits)
qed

lemma Resolve_answers:
  assumes "en_exch en = Exchange net" "steady s"
    and "ParseHeader req = Inr hdr" "\<not> h_QR hdr" "h_QDCount hdr = 0 \<or> ParseQuestion req = Inr q"
  shows "\<exists>resp s'. Server_Resolve en cfg req proto s = Some (Some resp, s') \<and> replies_to req resp \<and>
    k_total (sy_stats s') = k_total (sy_stats s) + 1 \<and> pool_wf (sy_pool s') \<and> pool_entries (sy_pool s') = pool_entries (sy_pool s)"
proof -
  from Plan_total [of "sy_pool s" "sy_rng s"] assms(2) obtain plan p r where P: "Plan (sy_pool s) (sy_rng s) = Some (plan, p, r)"
    by (auto simp: steady_def)
  let ?os = "outcomes en cfg req proto s (sy_k s) (take (attempts_of cfg s plan) plan)"
  from Resolve_refines_forward [OF assms(2-4) P, where en = en and cfg = cfg and proto = proto] obtain s' t m where
    R: "Server_Resolve en cfg req proto s =
      Some (reply_of cfg req ?os (fallback_reply en req proto (sy_resolver s) (sy_k s + snd (first_good cfg ?os)) t m), s')"
    and rest: "k_total (sy_stats s') = k_total (sy_stats s) + 1" "pool_wf (sy_pool s')" "pool_entries (sy_pool s') = pool_entries (sy_pool s)"
    unfolding accounted_def Let_def by blast
  note os = net_exchange.outcome_replies [OF assms(1), of _ cfg req proto s "sy_k s" "take (attempts_of cfg s plan) plan"]
  have "\<exists>resp. reply_of cfg req ?os (fallback_reply en req proto (sy_resolver s) k t m) = Some resp \<and> replies_to req resp" for k
    by (rule reply_of_replies) (use os ErrorResponse_answers [OF assms(3-5)] net_exchange.fallback_reply_replies [OF assms(1)] in blast)+
  then obtain resp where "reply_of cfg req ?os (fallback_reply en req proto (sy_resolver s) (sy_k s + snd (first_good cfg ?os)) t m) = Some resp"
    "replies_to req resp" by blast
  with R rest show ?thesis by simp
qed

section \<open>Properties\<close>

text \<open>
  A client that asks a well-formed question is never left without a reply: whatever the
  Pi-holes and the public resolvers do, \<open>Resolve\<close> returns a DNS response with the QR bit
  set and the transaction id of the request; the query is filed with the statistics exactly
  once, and the pool keeps its invariant and its members.
\<close>

lemma Resolve_never_silent:
  assumes "en_exch en = Exchange net" "steady s"
    and "ParseHeader req = Inr hdr" "\<not> h_QR hdr" "h_QDCount hdr = 0 \<or> ParseQuestion req = Inr q"
  shows "\<exists>resp s'. Server_Resolve en cfg req proto s = Some (Some resp, s') \<and> replies_to req resp \<and>
    k_total (sy_stats s') = k_total (sy_stats s) + 1 \<and> pool_wf (sy_pool s') \<and> pool_entries (sy_pool s') = pool_entries (sy_pool s)"
  by (rule Resolve_answers [OF assms])

text \<open>
  A query for the root name, an environment in which the path \<open>10.0.1.1:53\<close> never answers
  and every other server does, and a configuration that allows one attempt.
\<close>

definition root_request :: bytes where
  "root_request = [0, 7, 1, 0, 0, 1, 0, 0, 0, 0, 0, 0, 0, 0, 1, 0, 1]"

definition flaky_net :: "nat \<Rightarrow> string \<Rightarrow> string \<Rightarrow> bytes \<Rightarrow> duration \<Rightarrow> net_script" where
  "flaky_net k proto addr query timeout =
     (if addr = ''10.0.1.1:53'' then example_script\<lparr>ns_datagrams := []\<rparr> else example_script)"

definition flaky :: env where
  "flaky = \<lparr>en_exch = Exchange flaky_net, en_ctx = (\<lambda>_. None), en_now = (\<lambda>k. int k), en_tz = 0\<rparr>"

definition one_try :: config where
  "one_try = pair_config\<lparr>c_Query := (c_Query pair_config)\<lparr>qc_MaxAttempts := 1\<rparr>\<rparr>"

lemma pair_system_steady: "steady (pair_system StrategyFailover)"
  using pair_failover_wf pair_pool_eval(3) [of StrategyFailover]
  by (simp add: steady_def pair_system_def start_system_def NewResolver_def)

lemma root_request_header:
  "\<exists>hdr. ParseHeader root_request = Inr hdr \<and> \<not> h_QR hdr" "\<exists>q. ParseQuestion root_request = Inr q" "ID root_request = 7"
proof -
  show "\<exists>hdr. ParseHeader root_request = Inr hdr \<and> \<not> h_QR hdr"
    by (simp add: root_request_def ParseHeader_def HeaderLen_def get16_def be16_def Let_def)
  have "ParseQuestion root_request = Inr (projr (ParseQuestion root_request))" by code_simp
  then show "\<exists>q. ParseQuestion root_request = Inr q" by blast
  show "ID root_request = 7" by code_simp
qed

text \<open>
  C5. The reply is the one the specification gives: the first answer of the planned
  endpoints, passed on unchanged, if one of them answers with a code that is not to be
  retried; then the public resolvers; then the last error response; then SERVFAIL. At most
  \<open>max_attempts\<close> endpoints are asked, one when the pool is known to be down and public
  resolvers are set, and a public resolver is asked only if every one of them failed.
\<close>

theorem Resolve_refines:
  assumes "steady s" "ParseHeader req = Inr hdr" "\<not> h_QR hdr" "Plan (sy_pool s) (sy_rng s) = Some (plan, p, r)"
    and "os = outcomes en cfg req proto s (sy_k s) (take (attempts_of cfg s plan) plan)"
  shows "(\<exists>s' t m. let fb = fallback_reply en req proto (sy_resolver s) (sy_k s + snd (first_good cfg os)) t m in
      Server_Resolve en cfg req proto s = Some (reply_of cfg req os fb, s') \<and> accounted cfg os fb s s') \<and>
    int (length os) \<le> max 0 (qc_MaxAttempts (c_Query cfg)) \<and>
    (Enabled (sy_resolver s) \<and> HealthyUpstreams (sy_pool s) = 0 \<longrightarrow> length os \<le> 1)"
proof -
  have "length os \<le> attempts_of cfg s plan"
    using outcomes_length [of en cfg req proto s "sy_k s" "take (attempts_of cfg s plan) plan"] assms(5) by simp
  with attempts_of_bounds [where cfg = cfg and s = s and plan = plan] have "int (length os) \<le> max 0 (qc_MaxAttempts (c_Query cfg))"
    "Enabled (sy_resolver s) \<and> HealthyUpstreams (sy_pool s) = 0 \<longrightarrow> length os \<le> 1" by auto
  with Resolve_refines_forward [OF assms(1-4), where en = en and cfg = cfg and proto = proto] show ?thesis
    unfolding assms(5) by blast
qed

lemma flaky_exchange:
  "\<exists>err. fst (Exchange flaky_net k ProtoUDP ''10.0.1.1:53'' root_request t) = Inl err"
  "addr \<noteq> ''10.0.1.1:53'' \<Longrightarrow> fst (Exchange flaky_net k ProtoUDP addr root_request t) = Inr [0, 7, 0x80, 0, 0, 0, 0, 0, 0, 0, 0, 0]"
  by (simp_all add: Exchange_def flaky_net_def example_script_def exchangeUDP_def ProtoUDP_def ProtoTCP_def MaxMessageSize_def root_request_def
      HeaderLen_def get16_def be16_def ID_def ValidateResponse_def ParseHeader_def Let_def)

lemma pair_first_path:
  "\<exists>es p r. Plan (sy_pool (pair_system StrategyFailover)) (sy_rng (pair_system StrategyFailover)) = Some (0 # es, p, r)"
proof -
  let ?p = "pair_pool StrategyFailover"
  from pair_Plan_total [of StrategyFailover] obtain plan p r where P: "Plan ?p [] = Some (plan, p, r)" by auto
  have "orderLocked (healthy_members ?p) ?p [] = Some ([0, 1], ?p, [])" using pair_pool_eval(2) by (simp add: orderLocked_def pair_healthy)
  from hd_Plan [OF P _ this] have "hd plan = 0" by (simp add: pair_healthy pair_preferred)
  moreover have "mset plan = mset (all_paths ?p (if undrained ?p = [] then p_upstreams ?p else undrained ?p))"
    by (rule Plan_mset [OF pair_failover_wf P])
  then have "plan \<noteq> []" using pair_pool_eval [of StrategyFailover] by (auto simp: undrained_def Drained_def all_paths_def)
  ultimately show ?thesis using P by (cases plan) (auto simp: pair_system_def start_system_def)
qed

lemma flaky_outcomes:
  "\<exists>err. outcomes flaky one_try root_request ProtoUDP (pair_system StrategyFailover) 0 (take (attempts_of one_try (pair_system StrategyFailover) (0 # es)) (0 # es)) =
     [Inl err]"
proof -
  have "attempts_of one_try (pair_system StrategyFailover) (0 # es) = 1"
    by (simp add: attempts_of_def one_try_def pair_config_def Default_def outageProbeAttempts_def)
  moreover have "e_Addr (ep_of (pair_system StrategyFailover) 0) = ''10.0.1.1:53''" by (simp add: ep_of_def pair_system_def pair_eval)
  ultimately show ?thesis using flaky_exchange(1) [of 0 "qc_Timeout (c_Query one_try)"] by (auto simp: flaky_def)
qed

theorem Resolve_refines_witness:
  "\<exists>err s' t m. Server_Resolve flaky one_try root_request ProtoUDP (pair_system StrategyFailover) =
     Some (reply_of one_try root_request [Inl err] (fallback_reply flaky root_request ProtoUDP (NewResolver Default) 1 t m), s')"
proof -
  let ?s = "pair_system StrategyFailover"
  obtain es p r where P: "Plan (sy_pool ?s) (sy_rng ?s) = Some (0 # es, p, r)" using pair_first_path by blast
  obtain err where os: "[Inl err] = outcomes flaky one_try root_request ProtoUDP ?s (sy_k ?s) (take (attempts_of one_try ?s (0 # es)) (0 # es))"
    using flaky_outcomes [of es] by (auto simp: pair_system_def start_system_def)
  obtain hdr where "ParseHeader root_request = Inr hdr" "\<not> h_QR hdr" using root_request_header(1) by blast
  from Resolve_refines [OF pair_system_steady this P os] show ?thesis
    by (auto simp: pair_system_def start_system_def answer_def Let_def)
qed

text \<open>
  A query can reach a public resolver while a healthy Pi-hole would have answered it:
  \<open>max_attempts\<close> bounds the endpoints tried, not the Pi-holes. Here both Pi-holes are
  healthy, the one chosen first does not answer, the other one answers every query, and
  with a single attempt the reply comes from a public resolver, unfiltered.
\<close>

lemma public_dns_despite_pihole:
  "(\<exists>s'. Server_Resolve flaky one_try root_request ProtoUDP (pair_system StrategyFailover) =
      Some (Some [0, 7, 0x80, 0, 0, 0, 0, 0, 0, 0, 0, 0], s') \<and> tk_queries (sy_tracker s') \<noteq> 0) \<and>
   HealthyUpstreams (sy_pool (pair_system StrategyFailover)) = 2 \<and>
   (\<forall>k t. fst (Exchange flaky_net k ProtoUDP (e_Addr (ep_of (pair_system StrategyFailover) 2)) root_request t) =
      Inr [0, 7, 0x80, 0, 0, 0, 0, 0, 0, 0, 0, 0])"
proof (intro conjI)
  let ?s = "pair_system StrategyFailover" and ?ans = "[0, 7, 0x80, 0, 0, 0, 0, 0, 0, 0, 0, 0] :: bytes"
  have s: "sy_k ?s = 0" "sy_resolver ?s = NewResolver Default" "tk_queries (sy_tracker ?s) = 0" "sy_pool ?s = pair_pool StrategyFailover"
    by (simp_all add: pair_system_def start_system_def NewTracker_def)
  show "\<forall>k t. fst (Exchange flaky_net k ProtoUDP (e_Addr (ep_of ?s 2)) root_request t) = Inr ?ans"
    using flaky_exchange(2) by (simp add: ep_of_def pair_system_def pair_eval)
  show "HealthyUpstreams (sy_pool ?s) = 2"
    using pair_pool_eval [of StrategyFailover] by (simp add: s HealthyUpstreams_def Upstream_Healthy_def Drained_def Healthy_def)
  obtain es p r where P: "Plan (sy_pool ?s) (sy_rng ?s) = Some (0 # es, p, r)" using pair_first_path by blast
  obtain err where os: "outcomes flaky one_try root_request ProtoUDP ?s (sy_k ?s) (take (attempts_of one_try ?s (0 # es)) (0 # es)) = [Inl err]"
    using flaky_outcomes [of es] by (auto simp: s)
  obtain hdr where h: "ParseHeader root_request = Inr hdr" "\<not> h_QR hdr" using root_request_header(1) by blast
  have fb: "fallback_reply flaky root_request ProtoUDP (NewResolver Default) 1 t m = Some ?ans" for t m
    using flaky_exchange(2) [of "''8.8.8.8''"]
    by (simp add: fallback_reply_def Enabled_def NewResolver_def Default_def Resolver_Resolve_def flaky_def rotate_by_def int_of_u64_def resp_rcode_def
        ParseHeader_def HeaderLen_def get16_def be16_def ShouldRetryRCode_def signed_modulo_int_def signed_divide_int_def Let_def)
  have srv: "length (rv_servers (NewResolver Default)) = 2" by (simp add: NewResolver_def Default_def)
  from Resolve_refines_forward [OF pair_system_steady h P, where en = flaky and cfg = one_try and proto = ProtoUDP]
  obtain s' t m where "Server_Resolve flaky one_try root_request ProtoUDP ?s = Some (Some ?ans, s')"
    and a: "accounted one_try [Inl err] (Some ?ans) ?s s'"
    unfolding os by (auto simp: s fb [unfolded One_nat_def] answer_def reply_of_def Let_def)
  moreover have "sy_k s' = 2 \<or> sy_k s' = 3" using a by (auto simp: accounted_def answer_def s srv)
  then have "tk_queries (sy_tracker s') \<noteq> 0" using a by (auto simp: accounted_def answer_def s)
  ultimately show "\<exists>s'. Server_Resolve flaky one_try root_request ProtoUDP ?s = Some (Some ?ans, s') \<and> tk_queries (sy_tracker s') \<noteq> 0"
    by blast
qed

end
