(* ===== verification/Listen.thy ===== *)
theory Listen
  imports Proxy
begin

text \<open>
  The listeners of package \<open>internal/proxy\<close>: the semaphore that bounds the queries in
  flight, the life of the sockets and the accept loop, the loop that serves one TCP connection, and the UDP listener with its goroutines
  as a step relation. A goroutine's work on the shared state is one step, at the point where
  it finishes.
\<close>

section \<open>What Resolve sends\<close>

context transport
begin

lemma resolveViaFallback_replies:
  assumes "en_exch en = exch" "resolveViaFallback en req proto rc s = Some (reply, rc', s')"
  shows "sy_pool s' = sy_pool s" "reply = Some resp \<Longrightarrow> replies_to req resp"
  using assms fallback_replies [of "en_ctx en" req proto "sy_resolver s" "sy_k s" "sy_tracker s" "sy_metrics s"]
  by (auto simp: resolveViaFallback_def Let_def split: if_splits option.splits sum.splits prod.splits)

lemma forward_replies:
  assumes "en_exch en = exch" "pool_wf (sy_pool s)" "forward en cfg req proto s = Some (reply, s')"
  shows "pool_wf (sy_pool s') \<and> (reply = Some resp \<longrightarrow> replies_to req resp)"
proof -
  from assms(3) obtain plan p r where P: "Plan (sy_pool s) (sy_rng s) = Some (plan, p, r)"
    by (auto simp: forward_def Let_def split: option.splits)
  define s1 where "s1 = s\<lparr>sy_pool := p, sy_rng := r\<rparr>"
  have wf1: "pool_wf (sy_pool s1)" using Plan_wf [OF assms(2) P] by (simp add: s1_def)
  define rc0 where "rc0 = \<lparr>r_Proto = proto, r_QType = (case ParseQuestion req of Inl _ \<Rightarrow> [] | Inr q \<Rightarrow> TypeString (q_Type q)),
     r_Upstream = [], r_Endpoint = [], r_RCode = [], r_Latency = 0, r_Attempts = 0, r_Fallback = False, r_Failed = False\<rparr>"
  obtain res lastResp rc s2 where
    l: "attempt_loop en cfg req proto (take (attempts_of cfg s1 plan) plan) 0 ''no_attempt'' None rc0 s1 = (res, lastResp, rc, s2)"
    by (metis prod_cases4)
  note F = assms(3) [unfolded forward_def P option.case prod.case Let_def, folded s1_def rc0_def, unfolded l prod.case]
  note A = attempt_loop_outcomes [OF wf1, where en = en and cfg = cfg and req = req and proto = proto and
      es = "take (attempts_of cfg s1 plan) plan" and i = 0 and why = "''no_attempt''" and lastResp = None and rc = rc0, unfolded l prod.case Let_def]
  note out = outcome_replies [OF assms(1), where cfg = cfg and req = req and proto = proto and s = s1 and k = "sy_k s1" and es = "take (attempts_of cfg s1 plan) plan"]
  have wf2: "pool_wf (sy_pool s2)" using A kept_wf by blast
  show ?thesis
  proof (cases res)
    case (Some x)
    then have "replies_to req x" using A first_good_in out by metis
    with Some F wf2 show ?thesis by (auto simp: frame_simps)
  next
    case None
    have last: "replies_to req x" if "lastResp = Some x" for x using that A None last_response_in out by (metis option.distinct(1))
    from F None obtain fb rc' s3 where v: "resolveViaFallback en req proto rc s2 = Some (fb, rc', s3)"
      by (auto split: option.splits)
    from resolveViaFallback_replies [OF assms(1) v] wf2 F None v last ErrorResponse_replies [of req RCodeServFail] show ?thesis
      by (cases fb; cases lastResp) (auto simp: frame_simps)
  qed
qed

lemma Resolve_replies:
  assumes "en_exch en = exch" "pool_wf (sy_pool s)" "Server_Resolve en cfg req proto s = Some (reply, s')"
  shows "pool_wf (sy_pool s')" "reply = Some resp \<Longrightarrow> replies_to req resp"
proof -
  have "pool_wf (sy_pool s') \<and> (reply = Some resp \<longrightarrow> replies_to req resp)"
  proof (cases "\<exists>hdr. ParseHeader req = Inr hdr \<and> \<not> h_QR hdr")
    case True
    then obtain hdr where "ParseHeader req = Inr hdr" "\<not> h_QR hdr" by blast
    from Server_Resolve_forward [OF this, of en cfg proto s] assms(3) obtain m s2 where
      "forward en cfg req proto (s\<lparr>sy_metrics := m\<rparr>) = Some (reply, s2)" "sy_pool s' = sy_pool s2"
      by (auto split: option.splits)
    with forward_replies [OF assms(1) _ this(1), of resp] assms(2) show ?thesis by simp
  next
    case False
    with assms show ?thesis by (auto simp: Server_Resolve_def Let_def split: sum.splits if_splits)
  qed
  then show "pool_wf (sy_pool s')" "reply = Some resp \<Longrightarrow> replies_to req resp" by simp_all
qed

end

section \<open>The concurrency limit\<close>

text \<open>The semaphore channel of capacity \<open>query.max_concurrent\<close>, as the number of tokens in it.\<close>

definition acquire :: "config \<Rightarrow> nat \<Rightarrow> bool \<times> nat" where
  "acquire cfg n = (if int n < qc_MaxConcurrent (c_Query cfg) then (True, n + 1) else (False, n))"

definition release :: "nat \<Rightarrow> nat" where
  "release n = n - 1"

section \<open>The sockets\<close>

text \<open>
  The accept loop: what each \<open>Accept\<close> returns, with whether the context has ended by then.
  The result is the connections handed to \<open>serveTCPConn\<close> and, once the loop has ended, its error.
\<close>

fun serveTCP :: "(bool \<times> (goerr + 'c)) list \<Rightarrow> 'c list \<times> goerr option option" where
  "serveTCP [] = ([], None)"
| "serveTCP ((done, Inl err) # rest) =
     (if done \<or> err_is err ErrClosed then ([], Some None)
      else if net_timeout err = Some True then serveTCP rest
      else ([], Some (Some (Wrapf ''tcp accept: %w'' [] err))))"
| "serveTCP ((done, Inr conn) # rest) = (case serveTCP rest of (conns, e) \<Rightarrow> (conn # conns, e))"

text \<open>
  What happens to \<open>ListenAndServe\<close> once its sockets are bound: a server ends, or the context
  does. It goes on waiting until the context ends, whatever the servers do.
\<close>

datatype lifecycle = Ended "goerr option" | Cancelled

definition first_error :: "goerr option \<Rightarrow> goerr option \<Rightarrow> goerr option" where
  "first_error err retErr = (if retErr = None then err else retErr)"

fun await_done :: "lifecycle list \<Rightarrow> goerr option \<Rightarrow> goerr option option" where
  "await_done [] retErr = None"
| "await_done (Ended err # evs) retErr = await_done evs (first_error err retErr)"
| "await_done (Cancelled # evs) retErr = Some (fold (\<lambda>ev. case ev of Ended err \<Rightarrow> first_error err | Cancelled \<Rightarrow> id) evs retErr)"

datatype socket_event = Bound string string | Closed string string

text \<open>
  \<open>ListenAndServe\<close>: how binding each address ends, and the events after that. The result is
  the value returned, if it has returned, and what was done to the sockets.
\<close>

definition ListenAndServe ::
  "listen_cfg \<Rightarrow> (string \<Rightarrow> goerr option) \<Rightarrow> (string \<Rightarrow> goerr option) \<Rightarrow> lifecycle list \<Rightarrow> goerr option option \<times> socket_event list" where
  "ListenAndServe l bindUDP bindTCP evs =
     (case (if l_UDP l \<noteq> [] then bindUDP (l_UDP l) else None) of
        Some err \<Rightarrow> (Some (Some (Wrapf ''listen udp %s: %w'' [l_UDP l] err)), [])
      | None \<Rightarrow>
          let bound = (if l_UDP l \<noteq> [] then [Bound ''udp'' (l_UDP l)] else []);
              closers = (if l_UDP l \<noteq> [] then [Closed ''udp'' (l_UDP l)] else []) in
          (case (if l_TCP l \<noteq> [] then bindTCP (l_TCP l) else None) of
             Some err \<Rightarrow> (Some (Some (Wrapf ''listen tcp %s: %w'' [l_TCP l] err)), bound @ closers)
           | None \<Rightarrow>
               let bound = bound @ (if l_TCP l \<noteq> [] then [Bound ''tcp'' (l_TCP l)] else []);
                   closers = closers @ (if l_TCP l \<noteq> [] then [Closed ''tcp'' (l_TCP l)] else []) in
               (case await_done evs None of
                  None \<Rightarrow> (None, bound)
                | Some retErr \<Rightarrow> (Some retErr, bound @ closers))))"

text \<open>Whenever \<open>ListenAndServe\<close> has returned, every socket it bound is closed, each of them once.\<close>

lemma sockets_closed:
  assumes "ListenAndServe l bindUDP bindTCP evs = (Some res, acts)"
  shows "mset [(proto, addr). Bound proto addr \<leftarrow> acts] = mset [(proto, addr). Closed proto addr \<leftarrow> acts]"
  using assms by (auto simp: ListenAndServe_def Let_def split: option.splits if_splits)

text \<open>
  A server that fails after the sockets are bound ends nothing: without a cancelled context
  \<open>ListenAndServe\<close> does not return, whatever error the accept loop ended with.
\<close>

lemma failed_listener_waits: "Cancelled \<notin> set evs \<Longrightarrow> await_done evs retErr = None"
  by (induction evs retErr rule: await_done.induct) auto

lemma accept_error_unreported:
  assumes "\<not> err_is err ErrClosed" "net_timeout err \<noteq> Some True" "bindUDP (l_UDP l) = None" "bindTCP (l_TCP l) = None"
  shows "serveTCP [(False, Inl err)] = ([], Some (Some (Wrapf ''tcp accept: %w'' [] err))) \<and>
    fst (ListenAndServe l bindUDP bindTCP [Ended (Some (Wrapf ''tcp accept: %w'' [] err))]) = None"
  using assms by (simp add: ListenAndServe_def Let_def)

section \<open>One TCP connection\<close>

text \<open>
  What a client connection does: how the stream of its bytes ends, and for the \<open>j\<close>-th query
  the errors of setting the two deadlines, whether the limit is reached, and the error of
  the write.
\<close>

record conn_script =
  cn_end :: goerr
  cn_deadline :: "nat \<Rightarrow> goerr option"
  cn_busy :: "nat \<Rightarrow> bool"
  cn_wdeadline :: "nat \<Rightarrow> goerr option"
  cn_write :: "nat \<Rightarrow> goerr option"

lemma ReadMessage_shrinks [termination_simp]: "ReadMessage avail fin = Inr (msg, rest) \<Longrightarrow> length rest < length avail"
  using ReadMessage_length by blast

function serveTCPConn :: "env \<Rightarrow> config \<Rightarrow> conn_script \<Rightarrow> nat \<Rightarrow> bytes \<Rightarrow> system \<Rightarrow> (bytes list \<times> system) option" where
  "serveTCPConn en cfg cn j avail s =
     (if cn_deadline cn j \<noteq> None then Some ([], s)
      else case ReadMessage avail (cn_end cn) of
        Inl _ \<Rightarrow> Some ([], s)
      | Inr (req, rest) \<Rightarrow>
          (case (if cn_busy cn j then Some (overloaded_reply req s) else Server_Resolve en cfg req ProtoTCP s) of
             None \<Rightarrow> None
           | Some (None, s') \<Rightarrow> Some ([], s')
           | Some (Some resp, s') \<Rightarrow>
               if \<not> cn_busy cn j \<and> cn_wdeadline cn j \<noteq> None then Some ([], s')
               else (case WriteMessage (cn_write cn j) resp of
                  Inl _ \<Rightarrow> Some ([], s')
                | Inr frame \<Rightarrow>
                    map_option (\<lambda>(frames, s''). (frame # frames, s'')) (serveTCPConn en cfg cn (j + 1) rest s'))))"
  by pat_completeness auto
termination by (relation "measure (\<lambda>(en, cfg, cn, j, avail, s). length avail)") (auto simp: termination_simp)

declare serveTCPConn.simps [simp del]

text \<open>Whichever way a query is handled, a reply to it is a reply to its id.\<close>

lemma overloaded_replies: "overloaded_reply req s = (Some resp, s') \<Longrightarrow> replies_to req resp \<and> sy_pool s' = sy_pool s"
  by (auto simp: overloaded_reply_def Let_def intro: ErrorResponse_replies)

text \<open>A connection that has sent a frame has read a query, handled it, and gone on.\<close>

lemma serveTCPConn_ConsE:
  assumes "serveTCPConn en cfg cn j avail s = Some (frame # frames, s')"
  obtains req rest resp s1 where "ReadMessage avail (cn_end cn) = Inr (req, rest)"
    "(if cn_busy cn j then Some (overloaded_reply req s) else Server_Resolve en cfg req ProtoTCP s) = Some (Some resp, s1)"
    "WriteMessage (cn_write cn j) resp = Inr frame" "serveTCPConn en cfg cn (j + 1) rest s1 = Some (frames, s')"
  using assms [unfolded serveTCPConn.simps [of en cfg cn j avail s]]
  by (auto split: if_splits sum.splits option.splits prod.splits)

lemma WriteMessage_Inr: "WriteMessage werr resp = Inr frame \<Longrightarrow> WriteMessage None resp = Inr frame"
  by (auto simp: WriteMessage_def Let_def split: if_splits option.splits)

lemma serveTCPConn_replies:
  assumes "en_exch en = Exchange net" "pool_wf (sy_pool s)" "serveTCPConn en cfg cn j avail s = Some (frames, s')"
  shows "\<exists>resps. list_all2 replies_to (read_all (length frames) avail (cn_end cn)) resps \<and> map (WriteMessage None) resps = map Inr frames"
  using assms(2,3)
proof (induction frames arbitrary: j avail s)
  case (Cons frame frames)
  from Cons.prems(2) obtain req rest resp s1 where r: "ReadMessage avail (cn_end cn) = Inr (req, rest)"
    and h: "(if cn_busy cn j then Some (overloaded_reply req s) else Server_Resolve en cfg req ProtoTCP s) = Some (Some resp, s1)"
    and w: "WriteMessage (cn_write cn j) resp = Inr frame" and go: "serveTCPConn en cfg cn (j + 1) rest s1 = Some (frames, s')"
    by (rule serveTCPConn_ConsE)
  have "replies_to req resp \<and> pool_wf (sy_pool s1)"
    using h overloaded_replies [of req s resp s1] net_exchange.Resolve_replies [OF assms(1) Cons.prems(1), of cfg req ProtoTCP _ s1] Cons.prems(1)
    by (auto split: if_splits)
  with Cons.IH [OF _ go] obtain resps where "list_all2 replies_to (read_all (length frames) rest (cn_end cn)) resps"
    "map (WriteMessage None) resps = map Inr frames" "replies_to req resp" by blast
  with r WriteMessage_Inr [OF w] show ?case by (intro exI [of _ "resp # resps"]) simp
qed simp

section \<open>The UDP listener\<close>

text \<open>
  The listener's goroutines: the tokens in the semaphore, the queries being resolved with
  the client that asked, the tokens held by TCP connections, and, for the statements, the
  datagrams received and sent.
\<close>

record listener =
  ls_sem :: nat
  ls_jobs :: "(string \<times> bytes) list"
  ls_tcp :: nat
  ls_got :: "(string \<times> bytes) list"
  ls_sent :: "(string \<times> bytes) list"
  ls_sys :: system

definition send_to :: "string \<Rightarrow> bytes option \<Rightarrow> (string \<times> bytes) list" where
  "send_to client reply = (case reply of None \<Rightarrow> [] | Some resp \<Rightarrow> [(client, resp)])"

inductive udp_step :: "env \<Rightarrow> config \<Rightarrow> listener \<Rightarrow> listener \<Rightarrow> bool" for en cfg where
  shed: "udp_step en cfg l (l\<lparr>ls_got := ls_got l @ [(client, req)], ls_sent := ls_sent l @ send_to client reply, ls_sys := s'\<rparr>)"
    if "acquire cfg (ls_sem l) = (False, n)" "overloaded_reply req (ls_sys l) = (reply, s')"
| accept: "udp_step en cfg l (l\<lparr>ls_got := ls_got l @ [(client, req)], ls_sem := n, ls_jobs := ls_jobs l @ [(client, req)]\<rparr>)"
    if "acquire cfg (ls_sem l) = (True, n)"
| finish: "udp_step en cfg l (l\<lparr>ls_jobs := take i (ls_jobs l) @ drop (Suc i) (ls_jobs l), ls_sem := release (ls_sem l),
      ls_sent := ls_sent l @ send_to client reply, ls_sys := s'\<rparr>)"
    if "i < length (ls_jobs l)" "ls_jobs l ! i = (client, req)" "Server_Resolve en cfg req ProtoUDP (ls_sys l) = Some (reply, s')"
| tcp_take: "udp_step en cfg l (l\<lparr>ls_sem := n, ls_tcp := ls_tcp l + 1\<rparr>)" if "acquire cfg (ls_sem l) = (True, n)"
| tcp_done: "udp_step en cfg l (l\<lparr>ls_sem := release (ls_sem l), ls_tcp := ls_tcp l - 1, ls_sys := s'\<rparr>)"
    if "0 < ls_tcp l" "Server_Resolve en cfg req ProtoTCP (ls_sys l) = Some (reply, s')"

inductive_cases udp_stepE: "udp_step en cfg l l'"

definition fresh_listener :: "system \<Rightarrow> listener" where
  "fresh_listener s = \<lparr>ls_sem = 0, ls_jobs = [], ls_tcp = 0, ls_got = [], ls_sent = [], ls_sys = s\<rparr>"

text \<open>
  The invariant: the tokens are the queries in flight and never exceed the limit, a job was
  received, and what was sent replies to something received from the same client.
\<close>

definition listener_ok :: "config \<Rightarrow> listener \<Rightarrow> bool" where
  "listener_ok cfg l \<longleftrightarrow> ls_sem l = length (ls_jobs l) + ls_tcp l \<and> int (ls_sem l) \<le> max 0 (qc_MaxConcurrent (c_Query cfg)) \<and>
     set (ls_jobs l) \<subseteq> set (ls_got l) \<and>
     (\<forall>client resp. (client, resp) \<in> set (ls_sent l) \<longrightarrow> (\<exists>req. (client, req) \<in> set (ls_got l) \<and> replies_to req resp)) \<and>
     pool_wf (sy_pool (ls_sys l))"

lemma udp_step_ok:
  assumes "en_exch en = Exchange net" "listener_ok cfg l" "udp_step en cfg l l'"
  shows "listener_ok cfg l'"
  using assms(3)
proof (cases rule: udp_step.cases)
  case (shed n req reply s' client)
  then have "replies_to req resp" if "reply = Some resp" for resp using that overloaded_replies by blast
  moreover have "sy_pool s' = sy_pool (ls_sys l)" using shed(3) by (auto simp: overloaded_reply_def Let_def)
  ultimately show ?thesis using assms(2) by (auto simp: shed(1) listener_ok_def send_to_def split: option.splits) blast+
next
  case (accept n client req)
  then show ?thesis using assms(2) by (auto simp: listener_ok_def acquire_def split: if_splits) blast+
next
  case (finish i client req reply s')
  have job: "(client, req) \<in> set (ls_got l)" using finish(2,3) assms(2) nth_mem [of i "ls_jobs l"] by (auto simp: listener_ok_def)
  have "pool_wf (sy_pool (ls_sys l))" using assms(2) by (simp add: listener_ok_def)
  note R = net_exchange.Resolve_replies [OF assms(1) this finish(4)]
  have "set (take i (ls_jobs l) @ drop (Suc i) (ls_jobs l)) \<subseteq> set (ls_jobs l)" by (auto dest: in_set_takeD in_set_dropD)
  with assms(2) finish(2) job R show ?thesis
    by (auto simp: finish(1) listener_ok_def release_def send_to_def split: option.splits)
next
  case (tcp_take n)
  then show ?thesis using assms(2) by (auto simp: listener_ok_def acquire_def split: if_splits)
next
  case (tcp_done req reply s')
  have "pool_wf (sy_pool (ls_sys l))" using assms(2) by (simp add: listener_ok_def)
  note R = net_exchange.Resolve_replies(1) [OF assms(1) this tcp_done(3)]
  with assms(2) tcp_done(2) show ?thesis by (auto simp: tcp_done(1) listener_ok_def release_def)
qed

lemma udp_run_ok:
  assumes "(udp_step en cfg)\<^sup>*\<^sup>* (fresh_listener s) l" "en_exch en = Exchange net" "pool_wf (sy_pool s)"
  shows "listener_ok cfg l"
  using assms(1)
proof (induction rule: rtranclp_induct)
  case base
  show ?case using assms(3) by (simp add: listener_ok_def fresh_listener_def)
next
  case (step l l')
  then show ?case using udp_step_ok [OF assms(2)] by blast
qed

lemma flaky_reply: "\<exists>resp s'. Server_Resolve flaky one_try root_request ProtoUDP (pair_system StrategyFailover) = Some (Some resp, s')"
proof -
  obtain es p r where P: "Plan (sy_pool (pair_system StrategyFailover)) (sy_rng (pair_system StrategyFailover)) = Some (0 # es, p, r)"
    using pair_first_path by blast
  obtain hdr q where h: "ParseHeader root_request = Inr hdr" "\<not> h_QR hdr" "ParseQuestion root_request = Inr q"
    using root_request_header by blast
  have "\<exists>resp. reply_of one_try root_request os fb = Some resp" for os fb
    using ErrorResponse_answers [OF h(1,2), of q RCodeServFail] h(3) by (auto simp: reply_of_def split: option.splits)
  with Resolve_refines_forward [OF pair_system_steady h(1,2) P, where en = flaky and cfg = one_try and proto = ProtoUDP] show ?thesis
    unfolding Let_def by metis
qed

section \<open>Properties\<close>

text \<open>
  C27. On a TCP connection the replies come in the order of the queries: the \<open>n\<close> frames a
  client gets carry DNS responses to the first \<open>n\<close> messages it sent, each with the
  transaction id of its own query, also when a query was shed because of the limit; so a
  client that pipelines queries is never given an answer out of step.
\<close>

theorem tcp_replies_in_order:
  assumes "en_exch en = Exchange net" "pool_wf (sy_pool s)" "serveTCPConn en cfg cn 0 avail s = Some (frames, s')"
  shows "\<exists>resps. list_all2 replies_to (read_all (length frames) avail (cn_end cn)) resps \<and> map (WriteMessage None) resps = map Inr frames"
  by (rule serveTCPConn_replies [OF assms])

text \<open>A connection that sends one query while the limit is reached.\<close>

definition busy_conn :: conn_script where
  "busy_conn = \<lparr>cn_end = Sentinel EOF, cn_deadline = (\<lambda>_. None), cn_busy = (\<lambda>_. True), cn_wdeadline = (\<lambda>_. None), cn_write = (\<lambda>_. None)\<rparr>"

lemma busy_reply: "ErrorResponse root_request RCodeServFail = Some [0, 7, 0x81, 0x82, 0, 1, 0, 0, 0, 0, 0, 0, 0, 0, 1, 0, 1]"
  by code_simp

theorem tcp_replies_in_order_witness:
  "\<exists>frame s'. serveTCPConn flaky one_try busy_conn 0 ([0, 17] @ root_request) (pair_system StrategyFailover) = Some ([frame], s') \<and>
     (\<exists>resp. replies_to root_request resp \<and> WriteMessage None resp = Inr frame)"
proof -
  let ?s = "pair_system StrategyFailover"
  have r: "ReadMessage ([0, 17] @ root_request) (Sentinel EOF) = Inr (root_request, [])"
    by (simp add: ReadMessage_def ReadFull_def root_request_def get16_def be16_def Let_def)
  have e: "ReadMessage [] (Sentinel EOF) = Inl (Sentinel EOF)" by (simp add: ReadMessage_def ReadFull_def)
  obtain frame where w: "WriteMessage None [0, 7, 0x81, 0x82, 0, 1, 0, 0, 0, 0, 0, 0, 0, 0, 1, 0, 1] = Inr frame"
    by (simp add: WriteMessage_def MaxMessageSize_def Let_def)
  obtain s' where o: "overloaded_reply root_request ?s = (Some [0, 7, 0x81, 0x82, 0, 1, 0, 0, 0, 0, 0, 0, 0, 0, 1, 0, 1], s')"
    by (simp add: overloaded_reply_def busy_reply Let_def)
  have b: "cn_deadline busy_conn j = None" "cn_busy busy_conn j" "cn_write busy_conn j = None" "cn_end busy_conn = Sentinel EOF" for j
    by (simp_all add: busy_conn_def)
  have "serveTCPConn flaky one_try busy_conn (Suc 0) [] s' = Some ([], s')" by (subst serveTCPConn.simps) (simp add: b e)
  then have run: "serveTCPConn flaky one_try busy_conn 0 ([0, 17] @ root_request) ?s = Some ([frame], s')"
    by (subst serveTCPConn.simps) (use r o w in \<open>simp add: b\<close>)
  have "en_exch flaky = Exchange flaky_net" "pool_wf (sy_pool ?s)" using pair_system_steady by (simp_all add: flaky_def steady_def)
  from tcp_replies_in_order [OF this run] run r show ?thesis by (auto simp: b)
qed

text \<open>
  C28. The UDP listener under any interleaving of its goroutines with each other and with the
  TCP connections: never more than \<open>max_concurrent\<close> queries are in flight, and every
  datagram sent goes to a client and is a response to a query that client sent, with its
  transaction id, so that no client is sent anything it did not ask for.
\<close>

theorem udp_solicited:
  assumes "(udp_step en cfg)\<^sup>*\<^sup>* (fresh_listener s) l" "en_exch en = Exchange net" "pool_wf (sy_pool s)" "1 \<le> qc_MaxConcurrent (c_Query cfg)"
  shows "int (length (ls_jobs l) + ls_tcp l) \<le> qc_MaxConcurrent (c_Query cfg) \<and>
    ((client, resp) \<in> set (ls_sent l) \<longrightarrow> (\<exists>req. (client, req) \<in> set (ls_got l) \<and> replies_to req resp))"
  using udp_run_ok [OF assms(1-3)] assms(4) unfolding listener_ok_def by force

theorem udp_solicited_witness:
  "\<exists>l resp. (udp_step flaky one_try)\<^sup>*\<^sup>* (fresh_listener (pair_system StrategyFailover)) l \<and>
     ls_sent l = [(''10.0.9.9:4000'', resp)] \<and> replies_to root_request resp"
proof -
  let ?s = "pair_system StrategyFailover" and ?c = "''10.0.9.9:4000''"
  let ?l1 = "(fresh_listener ?s)\<lparr>ls_got := [(?c, root_request)], ls_sem := 1, ls_jobs := [(?c, root_request)]\<rparr>"
  have m: "qc_MaxConcurrent (c_Query one_try) = 1024" by (simp add: one_try_def pair_config_def Default_def)
  have s1: "udp_step flaky one_try (fresh_listener ?s) ?l1"
    using udp_step.accept [of one_try "fresh_listener ?s" 1 flaky ?c root_request] m by (simp add: fresh_listener_def acquire_def)
  have en: "en_exch flaky = Exchange flaky_net" and wf: "pool_wf (sy_pool ?s)" using pair_system_steady by (simp_all add: flaky_def steady_def)
  obtain resp s' where R: "Server_Resolve flaky one_try root_request ProtoUDP ?s = Some (Some resp, s')" using flaky_reply by blast
  let ?l2 = "?l1\<lparr>ls_jobs := [], ls_sem := 0, ls_sent := [(?c, resp)], ls_sys := s'\<rparr>"
  have "udp_step flaky one_try ?l1 ?l2"
    using udp_step.finish [of 0 ?l1 ?c root_request flaky one_try "Some resp" s'] R by (simp add: fresh_listener_def release_def send_to_def)
  with s1 have run: "(udp_step flaky one_try)\<^sup>*\<^sup>* (fresh_listener ?s) ?l2" by (rule converse_rtranclp_into_rtranclp [OF _ r_into_rtranclp])
  from udp_solicited [OF run en wf, of ?c resp] m run show ?thesis by (intro exI [of _ ?l2] exI [of _ resp]) (simp add: fresh_listener_def)
qed

end
