(* ===== verification/Persist.thy ===== *)
theory Persist
  imports Config
begin

text \<open>
  Saving and loading the configuration (\<open>Config.Save\<close> and \<open>Load\<close> of \<open>internal/config\<close>) over a model of the file system: a file has contents, permission
  bits, and a flag that says whether its contents have reached the disk. The YAML encoder
  and decoder are parameters, and which of the system calls fail is a script.
\<close>

section \<open>The file system\<close>

record disk_file =
  f_data :: string
  f_mode :: u16
  f_synced :: bool

type_synonym fs = "string \<Rightarrow> disk_file option"

text \<open>
  A crash keeps the directory and every file that was flushed; a file that was not may hold
  anything afterwards.
\<close>

definition crash :: "fs \<Rightarrow> fs \<Rightarrow> bool" where
  "crash f f' \<longleftrightarrow> (\<forall>name. (f' name = None \<longleftrightarrow> f name = None) \<and>
     (\<forall>x. f name = Some x \<and> f_synced x \<longrightarrow> f' name = Some x))"

section \<open>Save\<close>

text \<open>
  The outcome of each system call: the name of the temporary file or an error; for a write
  that fails, how much of it was written.
\<close>

record save_script =
  sv_temp :: "string result"
  sv_write :: "(nat \<times> goerr) option"
  sv_sync :: "goerr option"
  sv_close :: "goerr option"
  sv_stat :: "goerr option"
  sv_read :: "goerr option"
  sv_backup :: "(nat \<times> goerr) option"
  sv_chmod :: "goerr option"
  sv_rename :: "goerr option"
  sv_umask :: u16

definition managedHeader :: string where
  "managedHeader =
     ''# hole-balancer configuration.'' @ [CHR 0x0A] @ ''#'' @ [CHR 0x0A] @
     ''# This file is written by the management interface. Comments are not preserved'' @ [CHR 0x0A] @
     ''# across a save, so keep notes elsewhere if you edit it by hand.'' @ [CHR 0x0A] @ ''#'' @ [CHR 0x0A] @
     ''# The full annotated reference lives in config.example.yaml.'' @ [CHR 0x0A]"

definition bak_name :: "string \<Rightarrow> string" where
  "bak_name path = path @ ''.bak''"

text \<open>
  The backup: the error, and the states the file system goes through. \<open>os.WriteFile\<close>
  truncates first, and gives its mode only to a file it creates.
\<close>

definition write_backup :: "save_script \<Rightarrow> string \<Rightarrow> u16 \<Rightarrow> fs \<Rightarrow> goerr option \<times> fs list" where
  "write_backup sv path mode fs =
     (case sv_read sv of
        Some e \<Rightarrow> (Some (Wrapf ''reading existing config: %w'' [] e), [])
      | None \<Rightarrow>
          (case fs path of
             None \<Rightarrow> (None, [])
           | Some prev \<Rightarrow>
               let m = (case fs (bak_name path) of Some b \<Rightarrow> f_mode b | None \<Rightarrow> mode AND NOT (sv_umask sv));
                   put = (\<lambda>data. fs(bak_name path \<mapsto> \<lparr>f_data = data, f_mode = m, f_synced = False\<rparr>))
               in case sv_backup sv of
                    Some (n, e) \<Rightarrow> (Some (Wrapf ''writing backup: %w'' [] e), [put [], put (take n (f_data prev))])
                  | None \<Rightarrow> (None, [put [], put (f_data prev)])))"

text \<open>
  The part of \<open>Save\<close> that works on the temporary file \<open>tmp\<close>. \<open>os.CreateTemp\<close> gives it the
  mode 0600 (hexadecimal 180); the default mode is 0644 (hexadecimal 1A4).
\<close>

definition put_temp :: "string \<Rightarrow> string \<Rightarrow> bool \<Rightarrow> fs \<Rightarrow> fs" where
  "put_temp tmp data synced fs = fs(tmp \<mapsto> \<lparr>f_data = data, f_mode = 0x180, f_synced = synced\<rparr>)"

definition save_mode :: "save_script \<Rightarrow> string \<Rightarrow> fs \<Rightarrow> u16" where
  "save_mode sv path fs = (case (sv_stat sv, fs path) of (None, Some f) \<Rightarrow> f_mode f | _ \<Rightarrow> 0x1A4)"

definition commit :: "save_script \<Rightarrow> string \<Rightarrow> string \<Rightarrow> u16 \<Rightarrow> fs \<Rightarrow> goerr option \<times> fs list" where
  "commit sv path tmp mode fs =
     (case sv_chmod sv of
        Some e \<Rightarrow> (Some e, [])
      | None \<Rightarrow>
          let fs' = fs(tmp := map_option (\<lambda>f. f\<lparr>f_mode := mode\<rparr>) (fs tmp)) in
          (case sv_rename sv of
             Some e \<Rightarrow> (Some e, [fs'])
           | None \<Rightarrow> (None, [fs', fs'(path := fs' tmp, tmp := None)])))"

definition save_temp :: "save_script \<Rightarrow> string \<Rightarrow> string \<Rightarrow> string \<Rightarrow> fs \<Rightarrow> goerr option \<times> fs list" where
  "save_temp sv path tmp out fs0 =
     (let fs1 = put_temp tmp [] False fs0 in
      case sv_write sv of
        Some (n, e) \<Rightarrow> (Some (Wrapf ''writing config: %w'' [] e), [fs1, put_temp tmp (take n out) False fs0])
      | None \<Rightarrow>
        let fs2 = put_temp tmp out False fs0 in
        case sv_sync sv of
          Some e \<Rightarrow> (Some (Wrapf ''syncing config: %w'' [] e), [fs1, fs2])
        | None \<Rightarrow>
          let fs3 = put_temp tmp out True fs0 in
          case sv_close sv of
            Some e \<Rightarrow> (Some e, [fs1, fs2, fs3])
          | None \<Rightarrow>
            let mode = save_mode sv path fs3 in
            case write_backup sv path mode fs3 of
              (Some e, bss) \<Rightarrow> (Some e, [fs1, fs2, fs3] @ bss)
            | (None, bss) \<Rightarrow>
                (case commit sv path tmp mode (last (fs3 # bss)) of (err, css) \<Rightarrow> (err, [fs1, fs2, fs3] @ bss @ css)))"

text \<open>
  \<open>Save\<close>: the error, and every state of the file system from the first to the last. The
  deferred \<open>os.Remove\<close> comes after every return.
\<close>

definition Save :: "(config \<Rightarrow> string result) \<Rightarrow> save_script \<Rightarrow> config \<Rightarrow> string \<Rightarrow> fs \<Rightarrow> goerr option \<times> fs list" where
  "Save marshal sv c path fs =
     (case marshal c of
        Inl e \<Rightarrow> (Some (Wrapf ''encoding config: %w'' [] e), [fs])
      | Inr body \<Rightarrow>
          (case sv_temp sv of
             Inl e \<Rightarrow> (Some (Wrapf ''creating temp file: %w'' [] e), [fs])
           | Inr tmp \<Rightarrow>
               (case save_temp sv path tmp (managedHeader @ body) fs of
                  (err, fss) \<Rightarrow> (err, fs # fss @ [(last fss)(tmp := None)]))))"

text \<open>\<open>Load\<close>, with the error of reading a file that is not there.\<close>

definition Load :: "(string \<Rightarrow> config \<Rightarrow> config result) \<Rightarrow> string \<Rightarrow> fs \<Rightarrow> config result" where
  "Load decode path fs =
     (case fs path of
        None \<Rightarrow> Inl (Errorf ''open %s: no such file or directory'' [path])
      | Some f \<Rightarrow> Parse decode (f_data f))"

text \<open>What the encoder can see of a configuration: not the fields \<open>Validate\<close> derives.\<close>

definition exported :: "config \<Rightarrow> config" where
  "exported c = c\<lparr>c_Query := (c_Query c)\<lparr>qc_retryRCodes := (\<lambda>_. False)\<rparr>,
     c_Health := (c_Health c)\<lparr>hc_Probe := (hc_Probe (c_Health c))\<lparr>pr_qtype := 0\<rparr>\<rparr>\<rparr>"

section \<open>What a save does to the file system\<close>

definition temp_fresh :: "save_script \<Rightarrow> string \<Rightarrow> fs \<Rightarrow> bool" where
  "temp_fresh sv path fs \<longleftrightarrow> (case sv_temp sv of Inl _ \<Rightarrow> True | Inr tmp \<Rightarrow> fs tmp = None \<and> tmp \<noteq> path \<and> tmp \<noteq> bak_name path)"

lemma bak_name_neq [simp]: "bak_name path \<noteq> path" "path \<noteq> bak_name path"
  by (simp_all add: bak_name_def)

text \<open>A state of the file system in the middle of a save, before the rename.\<close>

definition staged :: "fs \<Rightarrow> string \<Rightarrow> string \<Rightarrow> fs \<Rightarrow> bool" where
  "staged fs0 path tmp f \<longleftrightarrow> (\<forall>name. name \<noteq> tmp \<longrightarrow> name \<noteq> bak_name path \<longrightarrow> f name = fs0 name)"

lemma write_backup_states:
  assumes "write_backup sv path mode fs = (err, fss)" "tmp \<noteq> bak_name path"
  shows "\<forall>f \<in> set fss. staged fs path tmp f \<and> f tmp = fs tmp"
  using assms by (auto simp: write_backup_def staged_def Let_def split: option.splits)

lemma write_backup_done:
  assumes "write_backup sv path mode fs = (None, fss)" "fs path = Some prev"
  shows "\<exists>b. last (fs # fss) (bak_name path) = Some b \<and> f_data b = f_data prev"
  using assms by (auto simp: write_backup_def Let_def split: option.splits)

lemma staged_trans: "staged fs0 path tmp f \<Longrightarrow> staged f path tmp f' \<Longrightarrow> staged fs0 path tmp f'"
  by (simp add: staged_def)

text \<open>Until the rename, nothing but the temporary file and the backup has changed; the renamed file is complete and flushed.\<close>

definition renamed :: "fs \<Rightarrow> string \<Rightarrow> string \<Rightarrow> string \<Rightarrow> fs \<Rightarrow> bool" where
  "renamed fs0 path tmp out f \<longleftrightarrow> f tmp = None \<and> (\<forall>name. name \<noteq> tmp \<longrightarrow> name \<noteq> bak_name path \<longrightarrow> name \<noteq> path \<longrightarrow> f name = fs0 name) \<and>
     (\<exists>x. f path = Some x \<and> f_data x = out \<and> f_synced x)"

lemma commit_states:
  assumes "commit sv path tmp mode fs = (err, css)" "fs tmp = Some x" "f_data x = out" "f_synced x" "tmp \<noteq> path"
  shows "(\<forall>f \<in> set css. staged fs path tmp f \<or> renamed fs path tmp out f) \<and>
    (err = None \<longrightarrow> css \<noteq> [] \<and> renamed fs path tmp out (last css)) \<and> (err \<noteq> None \<longrightarrow> (\<forall>f \<in> set css. staged fs path tmp f))"
  using assms by (cases "sv_chmod sv"; cases "sv_rename sv") (auto simp: commit_def Let_def staged_def renamed_def, metis+)

lemma renamed_staged: "staged fs path tmp f \<Longrightarrow> renamed f path tmp out g \<Longrightarrow> renamed fs path tmp out g"
  by (simp add: staged_def renamed_def)

lemma save_temp_states:
  assumes "save_temp sv path tmp out fs = (err, fss)" "tmp \<noteq> path" "tmp \<noteq> bak_name path"
  shows "fss \<noteq> [] \<and> (\<forall>f \<in> set fss. staged fs path tmp f \<or> renamed fs path tmp out f) \<and>
    (err = None \<longrightarrow> renamed fs path tmp out (last fss)) \<and> (err \<noteq> None \<longrightarrow> staged fs path tmp (last fss))"
proof -
  let ?f3 = "put_temp tmp out True fs"
  define mode where "mode = save_mode sv path ?f3"
  have put: "staged fs path tmp (put_temp tmp data synced fs)" for data synced by (simp add: staged_def put_temp_def)
  obtain berr bss where b: "write_backup sv path mode ?f3 = (berr, bss)" by fastforce
  have bss: "staged fs path tmp f \<and> f tmp = ?f3 tmp" if "f \<in> set (?f3 # bss)" for f
    using that write_backup_states [OF b assms(3)] staged_trans [OF put] put by auto
  define f4 where "f4 = last (?f3 # bss)"
  have f4: "staged fs path tmp f4" "f4 tmp = ?f3 tmp" unfolding f4_def using bss last_in_set by blast+
  obtain cerr css where c: "commit sv path tmp mode f4 = (cerr, css)" by fastforce
  have "f4 tmp = Some \<lparr>f_data = out, f_mode = 0x180, f_synced = True\<rparr>" using f4(2) by (simp add: put_temp_def)
  note C = commit_states [OF c this _ _ assms(2), of out, simplified]
  have C1: "staged fs path tmp f \<or> renamed fs path tmp out f" if "f \<in> set css" for f
    using that C staged_trans [OF f4(1), of f] renamed_staged [OF f4(1), of out f] by blast
  have C2: "cerr = None \<Longrightarrow> css \<noteq> [] \<and> renamed fs path tmp out (last css)" using C renamed_staged [OF f4(1)] by blast
  have C3: "cerr \<noteq> None \<Longrightarrow> f \<in> set css \<Longrightarrow> staged fs path tmp f" for f
    using C staged_trans [OF f4(1), of f] by blast
  note S = assms(1) [unfolded save_temp_def Let_def, folded mode_def, unfolded b prod.case, folded f4_def, unfolded c prod.case]
  show ?thesis
  proof (cases "sv_write sv = None \<and> sv_sync sv = None \<and> sv_close sv = None \<and> berr = None \<and> cerr = None")
    case True
    then have "err = None" "fss = put_temp tmp [] False fs # put_temp tmp out False fs # (?f3 # bss) @ css" using S by simp_all
    then show ?thesis using put bss C1 C2 True by auto
  next
    case False
    then have "err \<noteq> None \<and> (\<forall>f \<in> set fss. staged fs path tmp f) \<and> fss \<noteq> []"
      using S put bss C3 by (auto split: option.splits prod.splits, metis)
    then show ?thesis using last_in_set by blast
  qed
qed

lemma Save_states:
  assumes "Save marshal sv c path fs = (err, fss)" "temp_fresh sv path fs" "marshal c = Inr body"
  shows "\<exists>tmp. (fss = [fs] \<or> fs tmp = None \<and> tmp \<noteq> path \<and> tmp \<noteq> bak_name path) \<and>
    (\<forall>f \<in> set fss. staged fs path tmp f \<or> renamed fs path tmp (managedHeader @ body) f) \<and>
    (err = None \<longrightarrow> renamed fs path tmp (managedHeader @ body) (last fss)) \<and>
    (err \<noteq> None \<longrightarrow> staged fs path tmp (last fss) \<and> last fss tmp = fs tmp)"
proof (cases "sv_temp sv")
  case (Inl e)
  then show ?thesis using assms(1,3) by (auto simp: Save_def staged_def)
next
  case (Inr tmp)
  then have t: "fs tmp = None" "tmp \<noteq> path" "tmp \<noteq> bak_name path" using assms(2) by (auto simp: temp_fresh_def)
  obtain fss' where s: "save_temp sv path tmp (managedHeader @ body) fs = (err, fss')" and fss: "fss = fs # fss' @ [(last fss')(tmp := None)]"
    using assms(1,3) Inr by (auto simp: Save_def split: prod.splits)
  note T = save_temp_states [OF s t(2,3)]
  have "renamed fs path tmp (managedHeader @ body) ((last fss')(tmp := None))" if "renamed fs path tmp (managedHeader @ body) (last fss')"
    using that t by (auto simp: renamed_def)
  moreover have "staged fs path tmp ((last fss')(tmp := None))" if "staged fs path tmp (last fss')" using that by (simp add: staged_def)
  moreover have "staged fs path tmp fs" by (simp add: staged_def)
  ultimately show ?thesis using T t unfolding fss by (intro exI [of _ tmp]) auto
qed

section \<open>Validated configurations survive\<close>

lemma Validate_exported: "Validate (exported c) = Validate c"
proof -
  have q: "validate_query (c_Query (exported c)) = validate_query (c_Query c)"
    by (simp add: validate_query_def exported_def)
  have h: "validate_health (c_Health (exported c)) = validate_health (c_Health c)"
    by (simp add: validate_health_def exported_def Let_def split: sum.splits)
  show ?thesis
    unfolding Validate_def q h by (cases "validate_query (c_Query c)"; cases "validate_health (c_Health c)") (simp_all add: exported_def)
qed

text \<open>A configuration that \<open>Validate\<close> accepts and leaves as it is.\<close>

definition settled :: "config \<Rightarrow> bool" where
  "settled c \<longleftrightarrow> Validate c = Inr c"

lemma settled_iff:
  "settled c \<longleftrightarrow> (l_UDP (c_Listen c) \<noteq> [] \<or> l_TCP (c_Listen c) \<noteq> []) \<and> contains validStrategies (c_Strategy c) \<and>
     validate_query (c_Query c) = Inr (c_Query c) \<and> validate_health (c_Health c) = Inr (c_Health c) \<and>
     validate_fallback (c_Fallback c) = Inr (c_Fallback c) \<and> contains [''debug'', ''info'', ''warn'', ''error''] (lg_Level (c_Log c)) \<and>
     c_Upstreams c \<noteq> [] \<and> validate_upstreams 0 (c_Upstreams c) [] [] = Inr (c_Upstreams c)"
proof
  assume s: "settled c"
  then have "Validate c = Inr c" by (simp add: settled_def)
  with Validate_Inr [OF this] show "(l_UDP (c_Listen c) \<noteq> [] \<or> l_TCP (c_Listen c) \<noteq> []) \<and> contains validStrategies (c_Strategy c) \<and>
     validate_query (c_Query c) = Inr (c_Query c) \<and> validate_health (c_Health c) = Inr (c_Health c) \<and>
     validate_fallback (c_Fallback c) = Inr (c_Fallback c) \<and> contains [''debug'', ''info'', ''warn'', ''error''] (lg_Level (c_Log c)) \<and>
     c_Upstreams c \<noteq> [] \<and> validate_upstreams 0 (c_Upstreams c) [] [] = Inr (c_Upstreams c)"
    by (auto simp: Validate_def fail_if_Inr and_then_Inr simp del: contains.simps)
qed (auto simp: settled_def Validate_def fail_if_def simp del: contains.simps)

lemma save_temp_None:
  assumes "save_temp sv path tmp out fs = (None, fss)" "tmp \<noteq> path" "tmp \<noteq> bak_name path"
  shows "\<exists>bss. write_backup sv path (save_mode sv path fs) (put_temp tmp out True fs) = (None, bss) \<and>
    last fss path = Some \<lparr>f_data = out, f_mode = save_mode sv path fs, f_synced = True\<rparr> \<and>
    last fss (bak_name path) = last (put_temp tmp out True fs # bss) (bak_name path)"
proof -
  let ?f3 = "put_temp tmp out True fs"
  have m: "save_mode sv path ?f3 = save_mode sv path fs" using assms(2) by (simp add: save_mode_def put_temp_def)
  from assms(1) obtain bss css where b: "write_backup sv path (save_mode sv path fs) ?f3 = (None, bss)"
    and c: "commit sv path tmp (save_mode sv path fs) (last (?f3 # bss)) = (None, css)"
    and fss: "fss = [put_temp tmp [] False fs, put_temp tmp out False fs, ?f3] @ bss @ css"
    by (auto simp: save_temp_def Let_def m split: option.splits prod.splits)
  have "last (?f3 # bss) tmp = ?f3 tmp" using write_backup_states [OF b assms(3)] last_in_set [of "?f3 # bss"] by auto
  then have "last (?f3 # bss) tmp = Some \<lparr>f_data = out, f_mode = 0x180, f_synced = True\<rparr>" by (simp add: put_temp_def)
  with c b fss assms(2,3) show ?thesis
    by (auto simp: commit_def Let_def split: option.splits)
qed

section \<open>Properties\<close>

text \<open>
  C33. A crash cannot destroy the configuration: whichever system calls fail and at whatever
  point of a save the machine stops, the file at the configured path afterwards is the old
  one, or the complete new one; never a truncated or empty file.
\<close>

theorem save_crash_safe:
  assumes "Save marshal sv c path fs = (err, fss)" "temp_fresh sv path fs" "marshal c = Inr body"
    and "fs path = Some old" "f_synced old" "f \<in> set fss" "crash f f'"
  shows "f' path = Some old \<or> (\<exists>x. f' path = Some x \<and> f_data x = managedHeader @ body)"
proof -
  from Save_states [OF assms(1-3)] obtain tmp where t: "fss = [fs] \<or> tmp \<noteq> path"
    and f: "staged fs path tmp f \<or> renamed fs path tmp (managedHeader @ body) f" using assms(6) by blast
  from t show ?thesis
  proof
    assume "fss = [fs]"
    then show ?thesis using assms(4-7) by (simp add: crash_def)
  next
    assume "tmp \<noteq> path"
    from f show ?thesis
    proof
      assume "staged fs path tmp f"
      then have "f path = Some old" using \<open>tmp \<noteq> path\<close> assms(4) by (simp add: staged_def)
      then show ?thesis using assms(5,7) by (simp add: crash_def)
    next
      assume "renamed fs path tmp (managedHeader @ body) f"
      then obtain x where "f path = Some x" "f_data x = managedHeader @ body" "f_synced x" by (auto simp: renamed_def)
      then show ?thesis using assms(7) by (simp add: crash_def)
    qed
  qed
qed

text \<open>A file system with one configuration file, and a save that meets no error.\<close>

definition example_fs :: fs where
  "example_fs = [''/etc/config.yaml'' \<mapsto> \<lparr>f_data = ''old'', f_mode = 0x180, f_synced = True\<rparr>]"

definition smooth_save :: save_script where
  "smooth_save = \<lparr>sv_temp = Inr ''/etc/.hole-balancer-config-1.yaml'', sv_write = None, sv_sync = None, sv_close = None, sv_stat = None,
     sv_read = None, sv_backup = None, sv_chmod = None, sv_rename = None, sv_umask = 0\<rparr>"

lemma smooth_fresh: "temp_fresh smooth_save ''/etc/config.yaml'' example_fs"
  by (simp add: temp_fresh_def smooth_save_def example_fs_def bak_name_def)

theorem save_crash_safe_witness:
  "let torn = smooth_save\<lparr>sv_write := Some (3, Errorf ''no space left on device'' [])\<rparr>;
       r = Save (\<lambda>c. Inr ''new'') torn Default ''/etc/config.yaml'' example_fs in
   fst r \<noteq> None \<and> last (snd r) ''/etc/config.yaml'' = Some \<lparr>f_data = ''old'', f_mode = 0x180, f_synced = True\<rparr>"
proof -
  let ?torn = "smooth_save\<lparr>sv_write := Some (3, Errorf ''no space left on device'' [])\<rparr>" and ?p = "''/etc/config.yaml''"
  let ?old = "\<lparr>f_data = ''old'', f_mode = 0x180, f_synced = True\<rparr>" and ?m = "\<lambda>c :: config. Inr ''new'' :: string result"
  obtain err fss where r: "Save ?m ?torn Default ?p example_fs = (err, fss)" by fastforce
  have fr: "temp_fresh ?torn ?p example_fs" using smooth_fresh by (simp add: temp_fresh_def)
  have old: "example_fs ?p = Some ?old" by (simp add: example_fs_def)
  have e: "err \<noteq> None" "fss \<noteq> []" using r by (auto simp: Save_def save_temp_def smooth_save_def Let_def)
  have c: "crash (last fss) (last fss)" by (simp add: crash_def)
  have "last fss ?p = Some ?old \<or> (\<exists>x. last fss ?p = Some x \<and> f_data x = managedHeader @ ''new'')"
    using save_crash_safe [OF r fr refl old _ last_in_set [OF e(2)] c] by simp
  moreover have "last fss ?p = Some ?old" using r by (auto simp: Save_def save_temp_def smooth_save_def put_temp_def example_fs_def Let_def)
  ultimately show ?thesis using r e by (simp add: Let_def)
qed

text \<open>
  What a save leaves behind: on success the file holds the header and the encoding, with
  the permission bits the file had before, and the previous contents are in the backup; on an
  error the file is as it was; in both cases no temporary file is left, and no other file has
  changed.
\<close>

lemma save_effect:
  assumes "Save marshal sv c path fs = (err, fss)" "temp_fresh sv path fs" "marshal c = Inr body" "fs path = Some old" "sv_stat sv = None"
  shows "last fss path = (if err = None then Some \<lparr>f_data = managedHeader @ body, f_mode = f_mode old, f_synced = True\<rparr> else Some old) \<and>
    (err = None \<longrightarrow> (\<exists>b. last fss (bak_name path) = Some b \<and> f_data b = f_data old)) \<and>
    (\<forall>name. name \<noteq> path \<longrightarrow> name \<noteq> bak_name path \<longrightarrow> last fss name = fs name)"
proof (cases err)
  case None
  with assms(1,3) obtain tmp fss' where tmp: "sv_temp sv = Inr tmp" and s: "save_temp sv path tmp (managedHeader @ body) fs = (None, fss')"
    and fss: "fss = fs # fss' @ [(last fss')(tmp := None)]" by (auto simp: Save_def split: sum.splits prod.splits)
  have t: "fs tmp = None" "tmp \<noteq> path" "tmp \<noteq> bak_name path" using assms(2) tmp by (auto simp: temp_fresh_def)
  from save_temp_None [OF s t(2,3)] obtain bss where b: "write_backup sv path (save_mode sv path fs) (put_temp tmp (managedHeader @ body) True fs) = (None, bss)"
    and l: "last fss' path = Some \<lparr>f_data = managedHeader @ body, f_mode = save_mode sv path fs, f_synced = True\<rparr>"
      "last fss' (bak_name path) = last (put_temp tmp (managedHeader @ body) True fs # bss) (bak_name path)" by blast
  have "save_mode sv path fs = f_mode old" using assms(4,5) by (simp add: save_mode_def)
  moreover have "put_temp tmp (managedHeader @ body) True fs path = Some old" using t(2) assms(4) by (simp add: put_temp_def)
  note write_backup_done [OF b this]
  moreover have "renamed fs path tmp (managedHeader @ body) (last fss')" using save_temp_states [OF s t(2,3)] by simp
  ultimately show ?thesis using None l t by (auto simp: fss renamed_def)
next
  case (Some e)
  from Save_states [OF assms(1-3)] Some obtain tmp where "fss = [fs] \<or> tmp \<noteq> path" "staged fs path tmp (last fss)" "last fss tmp = fs tmp" by auto
  then show ?thesis using Some assms(4) by (auto simp: staged_def)
qed

text \<open>
  C34. A saved configuration loads back: if the decoder reads what the encoder wrote, a
  configuration that passed validation unchanged is, after a successful save, exactly what
  the next start of the program gets, the derived fields included.
\<close>

theorem save_load_roundtrip:
  assumes "Save marshal sv c path fs = (None, fss)" "temp_fresh sv path fs" "marshal c = Inr body" "settled c"
    and "decode (managedHeader @ body) Default = Inr (exported c)"
  shows "Load decode path (last fss) = Inr c"
proof -
  from Save_states [OF assms(1-3)] obtain x where "last fss path = Some x" "f_data x = managedHeader @ body" by (auto simp: renamed_def)
  then show ?thesis using assms(4,5) by (simp add: Load_def Parse_def Validate_exported settled_def)
qed

theorem save_load_roundtrip_witness:
  "\<exists>c fss. Validate home_config = Inr c \<and> Save (\<lambda>c. Inr ''new'') smooth_save c ''/etc/config.yaml'' example_fs = (None, fss) \<and>
     Load (\<lambda>data d. Inr (exported c)) ''/etc/config.yaml'' (last fss) = Inr c"
proof -
  obtain c where c: "Validate home_config = Inr c" using home_valid by blast
  have st: "settled c" using Validate_idempotent [OF c home_stable] by (simp add: settled_def)
  obtain err fss where r: "Save (\<lambda>c. Inr ''new'') smooth_save c ''/etc/config.yaml'' example_fs = (err, fss)" by fastforce
  have e: "err = None" using r by (auto simp: Save_def save_temp_def smooth_save_def put_temp_def write_backup_def example_fs_def commit_def Let_def)
  from save_load_roundtrip [OF r [unfolded e] smooth_fresh refl st, of "\<lambda>data d. Inr (exported c)"] c r e show ?thesis by auto
qed

end
