(* ===== verification/Control.thy ===== *)
theory Control
  imports Listen Persist
begin

text \<open>
  Package \<open>internal/control\<close>: the manager that applies changes made through the management
  interface to the running parts and writes them to the configuration file. The world is
  the manager, the shared state of the running program, and the file system; the lock is
  held for the whole of each operation, so operations are steps.
\<close>

section \<open>The manager\<close>

record manager =
  mg_cfg :: config
  mg_path :: string
  mg_allowWrite :: bool
  mg_persist :: bool

record world =
  w_mgr :: manager
  w_sys :: system
  w_fs :: fs

text \<open>The configuration is a value here, so the private copy \<open>New\<close> makes is the value itself;
  that the copy really is private is shown over slices in \<open>Aliasing\<close>.\<close>

definition NewManager :: "config \<Rightarrow> string \<Rightarrow> bool \<Rightarrow> manager" where
  "NewManager cfg path allowWrite = \<lparr>mg_cfg = cfg, mg_path = path, mg_allowWrite = allowWrite, mg_persist = (path \<noteq> [])\<rparr>"

definition checkWritable :: "manager \<Rightarrow> goerr option" where
  "checkWritable m = (if \<not> mg_allowWrite m then Some (Sentinel ErrReadOnly) else None)"

definition ConfigPath :: "manager \<Rightarrow> string" where
  "ConfigPath m = (if \<not> mg_persist m then [] else mg_path m)"

definition set_cfg :: "(config \<Rightarrow> config) \<Rightarrow> world \<Rightarrow> world" where
  "set_cfg f w = w\<lparr>w_mgr := (w_mgr w)\<lparr>mg_cfg := f (mg_cfg (w_mgr w))\<rparr>\<rparr>"

definition set_pool :: "pool \<Rightarrow> world \<Rightarrow> world" where
  "set_pool p w = w\<lparr>w_sys := (w_sys w)\<lparr>sy_pool := p\<rparr>\<rparr>"

definition set_resolver :: "resolver \<Rightarrow> world \<Rightarrow> world" where
  "set_resolver r w = w\<lparr>w_sys := (w_sys w)\<lparr>sy_resolver := r\<rparr>\<rparr>"

definition w_pool :: "world \<Rightarrow> pool" where "w_pool w = sy_pool (w_sys w)"

definition w_cfg :: "world \<Rightarrow> config" where "w_cfg w = mg_cfg (w_mgr w)"

text \<open>\<open>saveLocked\<close>, with the rollback as a function.\<close>

definition saveLocked :: "(config \<Rightarrow> string result) \<Rightarrow> save_script \<Rightarrow> (world \<Rightarrow> world) \<Rightarrow> world \<Rightarrow> goerr option \<times> world" where
  "saveLocked marshal sv rollback w =
     (let m = w_mgr w in
      if \<not> mg_persist m then (None, w)
      else case Save marshal sv (mg_cfg m) (mg_path m) (w_fs w) of
        (None, fss) \<Rightarrow> (None, w\<lparr>w_fs := last fss\<rparr>)
      | (Some e, fss) \<Rightarrow> (Some (Wrapf ''saving %s: %w'' [mg_path m] e), rollback (w\<lparr>w_fs := last fss\<rparr>)))"

definition AddUpstream :: "(config \<Rightarrow> string result) \<Rightarrow> save_script \<Rightarrow> upstream_cfg \<Rightarrow> world \<Rightarrow> goerr option \<times> world" where
  "AddUpstream marshal sv u w =
     (case checkWritable (w_mgr w) of
        Some e \<Rightarrow> (Some e, w)
      | None \<Rightarrow>
          (case PrepareUpstream u of
             Inl e \<Rightarrow> (Some (Wrapf ''invalid upstream: %w'' [] e), w)
           | Inr clean \<Rightarrow>
               (case Add clean (w_pool w) of
                  Inl e \<Rightarrow> (Some e, w)
                | Inr (_, p) \<Rightarrow>
                    saveLocked marshal sv
                      (\<lambda>w. set_cfg (\<lambda>c. c\<lparr>c_Upstreams := butlast (c_Upstreams c)\<rparr>)
                         (case Remove (uc_Name clean) (w_pool w) of Inl _ \<Rightarrow> w | Inr p \<Rightarrow> set_pool p w))
                      (set_cfg (\<lambda>c. c\<lparr>c_Upstreams := c_Upstreams c @ [clean]\<rparr>) (set_pool p w)))))"

text \<open>The position of the first configured upstream of that name, the number of upstreams if there is none.\<close>

definition cfg_index :: "string \<Rightarrow> upstream_cfg list \<Rightarrow> nat" where
  "cfg_index name us = length (takeWhile (\<lambda>u. uc_Name u \<noteq> name) us)"

definition RemoveUpstream :: "(config \<Rightarrow> string result) \<Rightarrow> save_script \<Rightarrow> string \<Rightarrow> world \<Rightarrow> goerr option \<times> world" where
  "RemoveUpstream marshal sv name w =
     (case checkWritable (w_mgr w) of
        Some e \<Rightarrow> (Some e, w)
      | None \<Rightarrow>
          let us = c_Upstreams (w_cfg w); idx = cfg_index name us in
          if idx = length us then (Some (Wrapf ''%w: %s'' [name] (Sentinel ErrNotFound)), w)
          else (case Remove name (w_pool w) of
             Inl e \<Rightarrow> (Some e, w)
           | Inr p \<Rightarrow>
               (let removed = us ! idx in
                case saveLocked marshal sv
                  (\<lambda>w. set_cfg (\<lambda>c. c\<lparr>c_Upstreams := c_Upstreams c @ [removed]\<rparr>)
                     (case Add removed (w_pool w) of Inl _ \<Rightarrow> w | Inr (_, p) \<Rightarrow> set_pool p w))
                  (set_cfg (\<lambda>c. c\<lparr>c_Upstreams := take idx us @ drop (idx + 1) us\<rparr>) (set_pool p w)) of
                  (Some e, w') \<Rightarrow> (Some e, w')
                | (None, w') \<Rightarrow>
                    (None, w'\<lparr>w_sys := (w_sys w')\<lparr>sy_stats := ForgetUpstream name (sy_stats (w_sys w'))\<rparr>\<rparr>))))"

definition Manager_SetDrained :: "string \<Rightarrow> bool \<Rightarrow> world \<Rightarrow> goerr option \<times> world" where
  "Manager_SetDrained name drained w =
     (case checkWritable (w_mgr w) of
        Some e \<Rightarrow> (Some e, w)
      | None \<Rightarrow>
          (case Lookup (w_pool w) name of
             None \<Rightarrow> (Some (Wrapf ''%w: %s'' [name] (Sentinel ErrNotFound)), w)
           | Some u \<Rightarrow> (None, set_pool (SetDrained u drained (w_pool w)) w)))"

definition Manager_SetStrategy :: "(config \<Rightarrow> string result) \<Rightarrow> save_script \<Rightarrow> string \<Rightarrow> world \<Rightarrow> goerr option \<times> world" where
  "Manager_SetStrategy marshal sv name w =
     (case checkWritable (w_mgr w) of
        Some e \<Rightarrow> (Some e, w)
      | None \<Rightarrow>
          let previous = c_Strategy (w_cfg w) in
          (case SetStrategy name (w_pool w) of
             Inl e \<Rightarrow> (Some e, w)
           | Inr p \<Rightarrow>
               saveLocked marshal sv
                 (\<lambda>w. set_cfg (\<lambda>c. c\<lparr>c_Strategy := previous\<rparr>)
                    (case SetStrategy previous (w_pool w) of Inl _ \<Rightarrow> w | Inr p \<Rightarrow> set_pool p w))
                 (set_cfg (\<lambda>c. c\<lparr>c_Strategy := name\<rparr>) (set_pool p w))))"

fun clean_servers :: "string list \<Rightarrow> string list \<Rightarrow> string list result" where
  "clean_servers [] seen = Inr []"
| "clean_servers (raw # raws) seen =
     (case normaliseAddr raw of
        Inl e \<Rightarrow> Inl (Wrapf ''invalid resolver %q: %w'' [raw] e)
      | Inr addr \<Rightarrow>
          if addr \<in> set seen then Inl (Errorf ''resolver %s is listed twice'' [addr])
          else and_then (clean_servers raws (addr # seen)) (\<lambda>addrs. Inr (addr # addrs)))"

definition set_fallback :: "bool \<Rightarrow> string list \<Rightarrow> world \<Rightarrow> world" where
  "set_fallback enabled servers w =
     set_cfg (\<lambda>c. c\<lparr>c_Fallback := (c_Fallback c)\<lparr>fc_Enabled := enabled, fc_Servers := servers\<rparr>\<rparr>)
       (set_resolver (SetServers enabled servers (sy_resolver (w_sys w))) w)"

definition SetFallback :: "(config \<Rightarrow> string result) \<Rightarrow> save_script \<Rightarrow> bool \<Rightarrow> string list \<Rightarrow> world \<Rightarrow> goerr option \<times> world" where
  "SetFallback marshal sv enabled servers w =
     (case checkWritable (w_mgr w) of
        Some e \<Rightarrow> (Some e, w)
      | None \<Rightarrow>
          (case clean_servers servers [] of
             Inl e \<Rightarrow> (Some e, w)
           | Inr clean \<Rightarrow>
               if enabled \<and> clean = [] then (Some (Errorf ''at least one resolver is required to enable fallback'' []), w)
               else
                 let prev = c_Fallback (w_cfg w) in
                 saveLocked marshal sv (set_fallback (fc_Enabled prev) (fc_Servers prev)) (set_fallback enabled clean w)))"

section \<open>Sequences of operations\<close>

datatype request =
    ReqAdd upstream_cfg
  | ReqRemove string
  | ReqDrain string bool
  | ReqStrategy string
  | ReqFallback bool "string list"

fun manage :: "(config \<Rightarrow> string result) \<Rightarrow> save_script \<times> request \<Rightarrow> world \<Rightarrow> goerr option \<times> world" where
  "manage marshal (sv, ReqAdd u) w = AddUpstream marshal sv u w"
| "manage marshal (sv, ReqRemove name) w = RemoveUpstream marshal sv name w"
| "manage marshal (sv, ReqDrain name b) w = Manager_SetDrained name b w"
| "manage marshal (sv, ReqStrategy name) w = Manager_SetStrategy marshal sv name w"
| "manage marshal (sv, ReqFallback b servers) w = SetFallback marshal sv b servers w"

text \<open>The manager's configuration describes what is running.\<close>

definition agrees :: "world \<Rightarrow> bool" where
  "agrees w \<longleftrightarrow> pool_wf (w_pool w) \<and> pool_entries (w_pool w) = c_Upstreams (w_cfg w) \<and> p_strategy (w_pool w) = c_Strategy (w_cfg w) \<and>
     rv_servers (sy_resolver (w_sys w)) = (if fc_Enabled (c_Fallback (w_cfg w)) then fc_Servers (c_Fallback (w_cfg w)) else [])"

lemma world_simps [simp]:
  "w_cfg (w\<lparr>w_sys := s'\<rparr>) = w_cfg w"
  "w_pool (set_cfg f w) = w_pool w" "w_pool (set_pool p w) = p" "w_pool (set_resolver r w) = w_pool w" "w_pool (w\<lparr>w_fs := f'\<rparr>) = w_pool w"
  "w_cfg (set_cfg f w) = f (w_cfg w)" "w_cfg (set_pool p w) = w_cfg w" "w_cfg (set_resolver r w) = w_cfg w" "w_cfg (w\<lparr>w_fs := f'\<rparr>) = w_cfg w"
  "sy_resolver (w_sys (set_cfg f w)) = sy_resolver (w_sys w)" "sy_resolver (w_sys (set_pool p w)) = sy_resolver (w_sys w)"
  "sy_resolver (w_sys (set_resolver r w)) = r" "w_fs (set_cfg f w) = w_fs w" "w_fs (set_pool p w) = w_fs w" "w_fs (set_resolver r w) = w_fs w"
  "mg_path (w_mgr (set_cfg f w)) = mg_path (w_mgr w)" "mg_path (w_mgr (set_pool p w)) = mg_path (w_mgr w)"
  "mg_path (w_mgr (set_resolver r w)) = mg_path (w_mgr w)"
  "mg_persist (w_mgr (set_cfg f w)) = mg_persist (w_mgr w)" "mg_persist (w_mgr (set_pool p w)) = mg_persist (w_mgr w)"
  "mg_persist (w_mgr (set_resolver r w)) = mg_persist (w_mgr w)"
  "mg_allowWrite (w_mgr (set_cfg f w)) = mg_allowWrite (w_mgr w)" "mg_allowWrite (w_mgr (set_pool p w)) = mg_allowWrite (w_mgr w)"
  "mg_allowWrite (w_mgr (set_resolver r w)) = mg_allowWrite (w_mgr w)"
  by (simp_all add: w_pool_def w_cfg_def set_cfg_def set_pool_def set_resolver_def)

text \<open>How an operation ends: with the change in place, or with the change taken back and an error.\<close>

lemma saveLocked_cases:
  assumes "saveLocked marshal sv rollback w = (err, w')"
  obtains "err = None" "\<exists>f. w' = w\<lparr>w_fs := f\<rparr>"
  | "err \<noteq> None" "\<exists>f. w' = rollback (w\<lparr>w_fs := f\<rparr>)"
proof (cases "mg_persist (w_mgr w)")
  case False
  then have "err = None" "w' = w\<lparr>w_fs := w_fs w\<rparr>" using assms by (simp_all add: saveLocked_def Let_def)
  then show ?thesis using that(1) by blast
next
  case True
  then show ?thesis using assms that by (auto simp: saveLocked_def Let_def split: prod.splits option.splits)
qed

lemma strategy_frames:
  "Add uc p = Inr (u, p') \<Longrightarrow> p_strategy p' = p_strategy p" "Remove name p = Inr p' \<Longrightarrow> p_strategy p' = p_strategy p"
  "p_strategy (SetDrained i b p) = p_strategy p"
  by (auto simp: Add_Inr Remove_def SetDrained_def append_upstream_def buildUpstream_def Let_def frame_simps split: if_splits)

lemma Remove_succeeds:
  assumes "name \<in> uc_Name ` set (pool_entries p)" "length (pool_entries p) \<noteq> 1"
  shows "\<exists>p'. Remove name p = Inr p'"
  using assms Remove_fails_iff [of name p] by (cases "Remove name p") auto

lemma filter_fresh: "name \<notin> uc_Name ` set us \<Longrightarrow> filter (\<lambda>u. uc_Name u \<noteq> name) us = us"
  by (rule filter_True) force

lemma AddUpstream_outcome:
  assumes "agrees w" "AddUpstream marshal sv u w = (err, w')"
  shows "agrees w' \<and> (err \<noteq> None \<longrightarrow> w_cfg w' = w_cfg w) \<and>
    (err = None \<longrightarrow> (\<exists>clean. PrepareUpstream u = Inr clean \<and> w_cfg w' = (w_cfg w)\<lparr>c_Upstreams := c_Upstreams (w_cfg w) @ [clean]\<rparr>))"
proof (cases "w' = w \<and> err \<noteq> None")
  case False
  with assms(2) obtain clean i p where c: "PrepareUpstream u = Inr clean" and p: "Add clean (w_pool w) = Inr (i, p)"
    and s: "saveLocked marshal sv
        (\<lambda>w. set_cfg (\<lambda>c. c\<lparr>c_Upstreams := butlast (c_Upstreams c)\<rparr>) (case Remove (uc_Name clean) (w_pool w) of Inl _ \<Rightarrow> w | Inr p \<Rightarrow> set_pool p w))
        (set_cfg (\<lambda>c. c\<lparr>c_Upstreams := c_Upstreams c @ [clean]\<rparr>) (set_pool p w)) = (err, w')"
    by (auto simp: AddUpstream_def split: option.splits sum.splits prod.splits)
  have wf: "pool_wf (w_pool w)" and e: "pool_entries (w_pool w) = c_Upstreams (w_cfg w)" using assms(1) by (simp_all add: agrees_def)
  have "wf_upstreams [clean]" using PrepareUpstream_Inr [OF c] by blast
  note A = Add_wf [OF wf this p] strategy_frames(1) [OF p]
  from s show ?thesis
  proof (cases rule: saveLocked_cases)
    case 1
    then show ?thesis using assms(1) A c by (auto simp: agrees_def)
  next
    case 2
    have "uc_Name clean \<in> uc_Name ` set (pool_entries p)" "length (pool_entries p) \<noteq> 1" using A wf by (auto simp: pool_wf_def pool_entries_def)
    then obtain p2 where p2: "Remove (uc_Name clean) p = Inr p2" using Remove_succeeds by blast
    have R: "pool_wf p2" "pool_entries p2 = filter (\<lambda>uc. uc_Name uc \<noteq> uc_Name clean) (c_Upstreams (w_cfg w) @ [clean])" "p_strategy p2 = p_strategy p"
      using Remove_wf [OF _ p2] A e strategy_frames(2) [OF p2] by simp_all
    have "filter (\<lambda>uc. uc_Name uc \<noteq> uc_Name clean) (c_Upstreams (w_cfg w)) = c_Upstreams (w_cfg w)"
      using p e by (intro filter_fresh) (simp add: Add_Inr)
    with 2 R A p2 assms(1) show ?thesis by (auto simp: agrees_def)
  qed
qed (use assms(1) in auto)

lemma cfg_index_split:
  assumes "cfg_index name us \<noteq> length us"
  shows "\<exists>xs u ys. us = xs @ u # ys \<and> uc_Name u = name \<and> u = us ! cfg_index name us \<and>
    take (cfg_index name us) us @ drop (cfg_index name us + 1) us = xs @ ys \<and> name \<notin> uc_Name ` set xs"
proof -
  have lt: "cfg_index name us < length us" using assms length_takeWhile_le [of _ us] by (simp add: cfg_index_def order_le_neq_trans)
  let ?i = "cfg_index name us"
  have "uc_Name (us ! ?i) = name" using nth_length_takeWhile [of "\<lambda>u. uc_Name u \<noteq> name" us] lt by (simp add: cfg_index_def)
  moreover have "name \<notin> uc_Name ` set (take ?i us)"
    using set_takeWhileD [of _ "\<lambda>u. uc_Name u \<noteq> name" us] by (auto simp: cfg_index_def takeWhile_eq_take [symmetric])
  moreover have "us = take ?i us @ us ! ?i # drop (?i + 1) us" using id_take_nth_drop [OF lt] by simp
  ultimately show ?thesis by blast
qed

lemma filter_name:
  assumes "wf_upstreams (xs @ u # ys)"
  shows "filter (\<lambda>v. uc_Name v \<noteq> uc_Name u) (xs @ u # ys) = xs @ ys"
  using assms by (simp add: wf_upstreams_def filter_fresh)

lemma RemoveUpstream_outcome:
  assumes "agrees w" "RemoveUpstream marshal sv name w = (err, w')"
  shows "agrees w' \<and> (err \<noteq> None \<longrightarrow> mset (c_Upstreams (w_cfg w')) = mset (c_Upstreams (w_cfg w)) \<and>
      w_cfg w' = (w_cfg w)\<lparr>c_Upstreams := c_Upstreams (w_cfg w')\<rparr>) \<and>
    (err = None \<longrightarrow> w_cfg w' = (w_cfg w)\<lparr>c_Upstreams := filter (\<lambda>u. uc_Name u \<noteq> name) (c_Upstreams (w_cfg w))\<rparr>)"
proof (cases "w' = w \<and> err \<noteq> None")
  case False
  let ?us = "c_Upstreams (w_cfg w)" and ?i = "cfg_index name (c_Upstreams (w_cfg w))"
  let ?undo = "\<lambda>w. set_cfg (\<lambda>c. c\<lparr>c_Upstreams := c_Upstreams c @ [?us ! ?i]\<rparr>) (case Add (?us ! ?i) (w_pool w) of Inl _ \<Rightarrow> w | Inr (_, p) \<Rightarrow> set_pool p w)"
  note R0 = assms(2) [unfolded RemoveUpstream_def Let_def]
  have ok: "checkWritable (w_mgr w) = None" using False R0 by (auto split: option.splits)
  then have i: "?i \<noteq> length ?us" using False R0 by (auto split: if_splits)
  with ok obtain p where p: "Remove name (w_pool w) = Inr p" using False R0 by (cases "Remove name (w_pool w)") auto
  obtain err1 w1 where s1: "saveLocked marshal sv ?undo (set_cfg (\<lambda>c. c\<lparr>c_Upstreams := take ?i ?us @ drop (?i + 1) ?us\<rparr>) (set_pool p w)) = (err1, w1)"
    by fastforce
  have w': "err1 = err" "w' = (if err = None then w1\<lparr>w_sys := (w_sys w1)\<lparr>sy_stats := ForgetUpstream name (sy_stats (w_sys w1))\<rparr>\<rparr> else w1)"
    using R0 unfolding ok p s1 option.case sum.case prod.case by (cases err1; simp add: i; blast)+
  note s = s1 [unfolded w'(1)]
  from cfg_index_split [OF i] obtain xs u ys where us: "?us = xs @ u # ys" "uc_Name u = name" "u = ?us ! ?i"
    "take ?i ?us @ drop (?i + 1) ?us = xs @ ys" by blast
  have wf: "pool_wf (w_pool w)" and e: "pool_entries (w_pool w) = xs @ u # ys" using assms(1) us(1) by (simp_all add: agrees_def)
  then have wfu: "wf_upstreams (xs @ u # ys)" by (metis pool_wf_def)
  note f = filter_name [OF wfu, unfolded us(2)]
  note R = Remove_wf [OF wf p, unfolded e f] strategy_frames(2) [OF p]
  have stats: "agrees (w1\<lparr>w_sys := (w_sys w1)\<lparr>sy_stats := st\<rparr>\<rparr>) = agrees w1" "w_cfg (w1\<lparr>w_sys := (w_sys w1)\<lparr>sy_stats := st\<rparr>\<rparr>) = w_cfg w1" for st
    by (simp_all add: agrees_def w_pool_def w_cfg_def)
  from s show ?thesis
  proof (cases rule: saveLocked_cases)
    case 1
    then have "agrees w1" "w_cfg w1 = (w_cfg w)\<lparr>c_Upstreams := xs @ ys\<rparr>" using assms(1) R us(4) by (auto simp: agrees_def)
    then show ?thesis using 1(1) f unfolding w'(2) us(1) by (simp add: stats)
  next
    case 2
    have "wf_upstreams [u]" "wf_upstreams ((xs @ ys) @ [u])" using wfu by (auto simp: wf_upstreams_def all_addrs_append)
    then obtain j p2 where p2: "Add u p = Inr (j, p2)"
      using R unfolding Add_Inr by (metis Add_Inr prod.exhaust wf_upstreams_snoc)
    note A = Add_wf [OF _ \<open>wf_upstreams [u]\<close> p2] strategy_frames(1) [OF p2]
    have "agrees w1 \<and> w_cfg w1 = (w_cfg w)\<lparr>c_Upstreams := (xs @ ys) @ [u]\<rparr>" using 2 R A p2 assms(1) us(3,4) by (auto simp: agrees_def)
    moreover have "w' = w1" using 2(1) w'(2) by auto
    ultimately show ?thesis using 2(1) us(1) by auto
  qed
qed (use assms(1) in auto)

lemma SetDrained_outcome:
  assumes "agrees w" "Manager_SetDrained name b w = (err, w')"
  shows "agrees w' \<and> w_cfg w' = w_cfg w"
proof -
  have "pool_wf (w_pool w)" using assms(1) by (simp add: agrees_def)
  with SetDrained_wf [OF this] assms show ?thesis
    by (auto simp: Manager_SetDrained_def agrees_def strategy_frames split: option.splits)
qed

lemma SetStrategy_outcome:
  assumes "agrees w" "Manager_SetStrategy marshal sv name w = (err, w')"
  shows "agrees w' \<and> (err \<noteq> None \<longrightarrow> w_cfg w' = w_cfg w) \<and>
    (err = None \<longrightarrow> ValidStrategy name \<and> w_cfg w' = (w_cfg w)\<lparr>c_Strategy := name\<rparr>)"
proof (cases "w' = w \<and> err \<noteq> None")
  case False
  let ?prev = "c_Strategy (w_cfg w)"
  from False assms(2) obtain p where p: "SetStrategy name (w_pool w) = Inr p"
    and s: "saveLocked marshal sv
        (\<lambda>w. set_cfg (\<lambda>c. c\<lparr>c_Strategy := ?prev\<rparr>) (case SetStrategy ?prev (w_pool w) of Inl _ \<Rightarrow> w | Inr p \<Rightarrow> set_pool p w))
        (set_cfg (\<lambda>c. c\<lparr>c_Strategy := name\<rparr>) (set_pool p w)) = (err, w')"
    by (auto simp: Manager_SetStrategy_def Let_def split: option.splits sum.splits)
  have wf: "pool_wf (w_pool w)" and prev: "ValidStrategy ?prev" using assms(1) by (auto simp: agrees_def pool_wf_def)
  from SetStrategy_wf [OF wf p] p have P: "pool_wf p" "pool_entries p = pool_entries (w_pool w)" "ValidStrategy name" "p_strategy p = name"
    by (auto simp: SetStrategy_def split: if_splits)
  obtain p2 where p2: "SetStrategy ?prev p = Inr p2" "p_strategy p2 = ?prev" using prev by (simp add: SetStrategy_def)
  from SetStrategy_wf [OF P(1) p2(1)] P p2 s assms(1) show ?thesis
    by (elim saveLocked_cases) (auto simp: agrees_def)
qed (use assms(1) in auto)

lemma clean_servers_Inr:
  "clean_servers raws seen = Inr addrs \<Longrightarrow> distinct addrs \<and> set addrs \<inter> set seen = {} \<and> map normaliseAddr raws = map Inr addrs"
  by (induction raws seen arbitrary: addrs rule: clean_servers.induct)
    (auto simp: and_then_Inr split: sum.splits if_splits, fastforce+)

lemma set_fallback_agrees:
  assumes "agrees w"
  shows "agrees (set_fallback b servers w)"
    "w_cfg (set_fallback b servers w) = (w_cfg w)\<lparr>c_Fallback := (c_Fallback (w_cfg w))\<lparr>fc_Enabled := b, fc_Servers := servers\<rparr>\<rparr>"
  using assms by (simp_all add: set_fallback_def agrees_def SetServers_def)

lemma agrees_fs [simp]: "agrees (w\<lparr>w_fs := f\<rparr>) = agrees w"
  by (simp add: agrees_def)

lemma SetFallback_outcome:
  assumes "agrees w" "SetFallback marshal sv b servers w = (err, w')"
  shows "agrees w' \<and> (err \<noteq> None \<longrightarrow> w_cfg w' = w_cfg w) \<and>
    (err = None \<longrightarrow> (\<exists>clean. clean_servers servers [] = Inr clean \<and> (b \<longrightarrow> clean \<noteq> []) \<and>
       w_cfg w' = (w_cfg w)\<lparr>c_Fallback := (c_Fallback (w_cfg w))\<lparr>fc_Enabled := b, fc_Servers := clean\<rparr>\<rparr>))"
proof (cases "w' = w \<and> err \<noteq> None")
  case False
  let ?prev = "c_Fallback (w_cfg w)"
  from False assms(2) obtain clean where c: "clean_servers servers [] = Inr clean" "b \<longrightarrow> clean \<noteq> []"
    and s: "saveLocked marshal sv (set_fallback (fc_Enabled ?prev) (fc_Servers ?prev)) (set_fallback b clean w) = (err, w')"
    by (auto simp: SetFallback_def Let_def split: option.splits sum.splits if_splits)
  note A = set_fallback_agrees [OF assms(1), of b clean]
  from s show ?thesis
  proof (cases rule: saveLocked_cases)
    case 1
    then show ?thesis using A c by auto
  next
    case 2
    then obtain f where w': "w' = set_fallback (fc_Enabled ?prev) (fc_Servers ?prev) ((set_fallback b clean w)\<lparr>w_fs := f\<rparr>)" by blast
    have "agrees ((set_fallback b clean w)\<lparr>w_fs := f\<rparr>)" using A by simp
    from set_fallback_agrees [OF this] A 2(1) show ?thesis by (auto simp: w')
  qed
qed (use assms(1) in auto)

section \<open>Every operation\<close>

text \<open>What a request asks for, as a change of the configuration.\<close>

fun requested :: "request \<Rightarrow> config \<Rightarrow> config \<Rightarrow> bool" where
  "requested (ReqAdd u) c c' = (\<exists>clean. PrepareUpstream u = Inr clean \<and> c' = c\<lparr>c_Upstreams := c_Upstreams c @ [clean]\<rparr>)"
| "requested (ReqRemove name) c c' = (c' = c\<lparr>c_Upstreams := filter (\<lambda>u. uc_Name u \<noteq> name) (c_Upstreams c)\<rparr>)"
| "requested (ReqDrain name b) c c' = (c' = c)"
| "requested (ReqStrategy name) c c' = (ValidStrategy name \<and> c' = c\<lparr>c_Strategy := name\<rparr>)"
| "requested (ReqFallback b servers) c c' =
     (\<exists>clean. clean_servers servers [] = Inr clean \<and> (b \<longrightarrow> clean \<noteq> []) \<and>
        c' = c\<lparr>c_Fallback := (c_Fallback c)\<lparr>fc_Enabled := b, fc_Servers := clean\<rparr>\<rparr>)"

lemma manage_outcome:
  assumes "agrees w" "manage marshal (sv, req) w = (err, w')"
  shows "agrees w' \<and> (err = None \<longrightarrow> requested req (w_cfg w) (w_cfg w')) \<and>
    (err \<noteq> None \<longrightarrow> mset (c_Upstreams (w_cfg w')) = mset (c_Upstreams (w_cfg w)) \<and>
       w_cfg w' = (w_cfg w)\<lparr>c_Upstreams := c_Upstreams (w_cfg w')\<rparr> \<and> ((\<nexists>name. req = ReqRemove name) \<longrightarrow> w_cfg w' = w_cfg w))"
proof (cases req)
  case (ReqAdd u)
  then show ?thesis using AddUpstream_outcome [OF assms(1)] assms(2) by fastforce
next
  case (ReqRemove name)
  then show ?thesis using RemoveUpstream_outcome [OF assms(1)] assms(2) by simp
next
  case (ReqDrain name b)
  then show ?thesis using SetDrained_outcome [OF assms(1)] assms(2) by fastforce
next
  case (ReqStrategy name)
  then show ?thesis using SetStrategy_outcome [OF assms(1)] assms(2) by fastforce
next
  case (ReqFallback b servers)
  then show ?thesis using SetFallback_outcome [OF assms(1)] assms(2) by fastforce
qed

interpretation manager_machine: invariant_machine "\<lambda>e w. snd (manage marshal e w)" agrees for marshal
  by unfold_locales (metis manage_outcome prod.collapse)

section \<open>What the file holds\<close>

lemma saveLocked_fs:
  assumes "saveLocked marshal sv rollback w = (None, w')" "mg_persist (w_mgr w)"
  shows "\<exists>fss. Save marshal sv (w_cfg w) (mg_path (w_mgr w)) (w_fs w) = (None, fss) \<and> w' = w\<lparr>w_fs := last fss\<rparr>"
  using assms by (auto simp: saveLocked_def w_cfg_def Let_def split: prod.splits option.splits)

text \<open>A change that is reported as done has been saved as it is in the manager.\<close>

lemma set_fallback_frame [simp]:
  "w_fs (set_fallback b servers w) = w_fs w" "mg_path (w_mgr (set_fallback b servers w)) = mg_path (w_mgr w)"
  "mg_persist (w_mgr (set_fallback b servers w)) = mg_persist (w_mgr w)"
  by (simp_all add: set_fallback_def)

lemma manage_saves:
  assumes "manage marshal (sv, req) w = (None, w')" "mg_persist (w_mgr w)" "\<nexists>name b. req = ReqDrain name b"
  shows "\<exists>fss. Save marshal sv (w_cfg w') (mg_path (w_mgr w)) (w_fs w) = (None, fss) \<and> w_fs w' = last fss"
proof (cases req)
  case (ReqAdd u)
  with assms(1,2) show ?thesis
    by (auto simp: AddUpstream_def split: option.splits sum.splits prod.splits dest!: saveLocked_fs)
next
  case (ReqRemove name)
  with assms(1,2) show ?thesis
    by (auto simp: RemoveUpstream_def Let_def split: option.splits sum.splits prod.splits if_splits dest!: saveLocked_fs)
next
  case (ReqDrain name b)
  with assms(3) show ?thesis by blast
next
  case (ReqStrategy name)
  with assms(1,2) show ?thesis
    by (auto simp: Manager_SetStrategy_def Let_def split: option.splits sum.splits dest!: saveLocked_fs)
next
  case (ReqFallback b servers)
  with assms(1,2) show ?thesis
    by (auto simp: SetFallback_def Let_def split: option.splits sum.splits if_splits dest!: saveLocked_fs)
qed

text \<open>Which requests keep a configuration loadable.\<close>

fun loadable :: "request \<Rightarrow> config \<Rightarrow> bool" where
  "loadable (ReqAdd u) c = list_all (\<lambda>e. stable_addr (ec_Addr e)) (uc_Endpoints u)"
| "loadable (ReqFallback b servers) c =
     (list_all stable_addr servers \<and> (b \<longrightarrow> 0 < fc_Timeout (c_Fallback c) \<and> 0 < fc_SummaryInterval (c_Fallback c)))"
| "loadable _ c = True"

lemma all_addrs_concat: "all_addrs us = map ec_Addr (concat (map uc_Endpoints us))"
  by (simp add: all_addrs_def)

lemma settled_normal:
  assumes "validate_upstreams 0 us [] [] = Inr us" "a \<in> set (all_addrs us)"
  shows "normal_addr a"
proof -
  have m: "map (normaliseAddr \<circ> ec_Addr) (concat (map uc_Endpoints us)) = map Inr (all_addrs us)"
    using validate_upstreams_Inr [OF assms(1)] by blast
  from assms(2) obtain i where "i < length (all_addrs us)" "a = all_addrs us ! i" by (metis in_set_conv_nth)
  with arg_cong [OF m, of "\<lambda>xs. xs ! i"] show ?thesis by (simp add: normal_addr_def all_addrs_concat)
qed

lemma normalised_normal:
  assumes "map f raws = map Inr addrs" "\<And>raw b. raw \<in> set raws \<Longrightarrow> f raw = Inr b \<Longrightarrow> normal_addr b" "a \<in> set addrs"
  shows "normal_addr a"
  using map_Inr_mem [OF assms(1,3)] assms(2) by blast

lemma settled_requested:
  assumes "settled c" "requested req c c'" "loadable req c" "wf_upstreams (c_Upstreams c')" "c_Upstreams c' \<noteq> []"
  shows "settled c'"
proof (cases req)
  case (ReqAdd u)
  then obtain clean where p: "PrepareUpstream u = Inr clean" and c': "c' = c\<lparr>c_Upstreams := c_Upstreams c @ [clean]\<rparr>" using assms(2) by auto
  have "normal_addr a" if "a \<in> set (map ec_Addr (uc_Endpoints clean))" for a
  proof (rule normalised_normal [OF _ _ that])
    show "map (normaliseAddr \<circ> ec_Addr) (uc_Endpoints u) = map Inr (map ec_Addr (uc_Endpoints clean))" using PrepareUpstream_Inr [OF p] unfolding list.map_comp by blast
    show "normal_addr b" if "e \<in> set (uc_Endpoints u)" "(normaliseAddr \<circ> ec_Addr) e = Inr b" for e b
      using that assms(3) ReqAdd normaliseAddr_idem [of "ec_Addr e" b] by (auto simp: list_all_iff normal_addr_def)
  qed
  moreover have "normal_addr a" if "a \<in> set (all_addrs (c_Upstreams c))" for a
    using assms(1) settled_normal [OF _ that] unfolding settled_iff by blast
  ultimately have "validate_upstreams 0 (c_Upstreams c') [] [] = Inr (c_Upstreams c')"
    using assms(4) by (intro validate_upstreams_fix) (auto simp: c' all_addrs_append)
  then show ?thesis using assms(1) by (simp add: settled_iff c' del: contains.simps)
next
  case (ReqRemove name)
  then have c': "c' = c\<lparr>c_Upstreams := filter (\<lambda>u. uc_Name u \<noteq> name) (c_Upstreams c)\<rparr>" using assms(2) by simp
  have "normal_addr a" if "a \<in> set (all_addrs (c_Upstreams c'))" for a
    using that assms(1) settled_normal [of "c_Upstreams c" a] by (auto simp: c' settled_iff all_addrs_concat)
  then have "validate_upstreams 0 (c_Upstreams c') [] [] = Inr (c_Upstreams c')"
    using assms(4) by (intro validate_upstreams_fix) auto
  then show ?thesis using assms(1,5) by (simp add: settled_iff c' del: contains.simps)
next
  case (ReqFallback b servers)
  then obtain clean where cl: "clean_servers servers [] = Inr clean" "b \<longrightarrow> clean \<noteq> []"
    and c': "c' = c\<lparr>c_Fallback := (c_Fallback c)\<lparr>fc_Enabled := b, fc_Servers := clean\<rparr>\<rparr>" using assms(2) by auto
  note C = clean_servers_Inr [OF cl(1)]
  have "normal_addr a" if "a \<in> set clean" for a
  proof (rule normalised_normal [OF _ _ that])
    show "map normaliseAddr servers = map Inr clean" using C by blast
    show "normal_addr addr" if "raw \<in> set servers" "normaliseAddr raw = Inr addr" for raw addr
      using that assms(3) ReqFallback normaliseAddr_idem [of raw addr] by (auto simp: list_all_iff normal_addr_def)
  qed
  then have "validate_servers 0 clean [] = Inr clean" using C by (intro validate_servers_fix) auto
  then have "validate_fallback (c_Fallback c') = Inr (c_Fallback c')"
    using cl(2) assms(3) ReqFallback by (auto simp: c' validate_fallback_def fail_if_def)
  then show ?thesis using assms(1) by (simp add: settled_iff c' del: contains.simps)
qed (use assms in \<open>auto simp: settled_iff ValidStrategy_def simp del: contains.simps\<close>)

section \<open>A world to try the operations on\<close>

text \<open>
  The program started on the configuration of two Pi-holes, with control allowed and a
  configuration file, and an encoder whose output does not depend on its input.
\<close>

definition pair_world :: "config \<Rightarrow> world" where
  "pair_world cfg = \<lparr>w_mgr = NewManager cfg ''/etc/config.yaml'' True, w_sys = start_system cfg 0 [], w_fs = example_fs\<rparr>"

definition stuck_save :: save_script where
  "stuck_save = smooth_save\<lparr>sv_rename := Some (Errorf ''read-only file system'' [])\<rparr>"

lemma Save_smooth:
  assumes "marshal c = Inr body"
  shows "\<exists>fss. Save marshal smooth_save c ''/etc/config.yaml'' example_fs = (None, fss)"
    "\<exists>e fss. Save marshal stuck_save c ''/etc/config.yaml'' example_fs = (Some e, fss)"
  using assms
  by (simp_all add: Save_def save_temp_def smooth_save_def stuck_save_def put_temp_def write_backup_def example_fs_def commit_def Let_def)

lemma start_agrees:
  assumes "pool_wf (New cfg)"
  shows "agrees \<lparr>w_mgr = NewManager cfg path allow, w_sys = start_system cfg now r, w_fs = fs\<rparr>"
  using assms New_entries [of cfg] by (simp add: agrees_def w_pool_def w_cfg_def NewManager_def start_system_def NewResolver_def)

lemma pair_world_simps [simp]:
  "w_cfg (pair_world c) = c" "w_pool (pair_world c) = New c" "w_fs (pair_world c) = example_fs" "mg_path (w_mgr (pair_world c)) = ''/etc/config.yaml''"
  "mg_persist (w_mgr (pair_world c))" "checkWritable (w_mgr (pair_world c)) = None"
  by (simp_all add: pair_world_def w_cfg_def w_pool_def NewManager_def start_system_def checkWritable_def)

lemma saveLocked_script:
  "mg_persist (w_mgr w) \<Longrightarrow> Save marshal sv (w_cfg w) (mg_path (w_mgr w)) (w_fs w) = (None, fss) \<Longrightarrow>
     saveLocked marshal sv rollback w = (None, w\<lparr>w_fs := last fss\<rparr>)"
  "mg_persist (w_mgr w) \<Longrightarrow> Save marshal sv (w_cfg w) (mg_path (w_mgr w)) (w_fs w) = (Some e, fss) \<Longrightarrow>
     saveLocked marshal sv rollback w = (Some (Wrapf ''saving %s: %w'' [mg_path (w_mgr w)] e), rollback (w\<lparr>w_fs := last fss\<rparr>))"
  by (simp_all add: saveLocked_def w_cfg_def Let_def)

lemma pair_config_pool: "pool_wf (New pair_config)" "p_strategy (New pair_config) = StrategyRandom" "pool_entries (New pair_config) = c_Upstreams pair_config"
proof -
  show e: "p_strategy (New pair_config) = StrategyRandom" "pool_entries (New pair_config) = c_Upstreams pair_config"
    using New_entries [of pair_config] by (simp_all add: pair_config_def Default_def)
  have "p_upstreams (New pair_config) \<noteq> []" using e(2) by (auto simp: pair_config_def pool_entries_def)
  then show "pool_wf (New pair_config)"
    using New_entries [of pair_config] e by (simp add: pool_wf_def ValidStrategy_def validStrategies_def) (simp add: pair_config_def)
qed

lemma pair_world_agrees: "agrees (pair_world pair_config)"
  unfolding pair_world_def by (rule start_agrees [OF pair_config_pool(1)])

text \<open>Choosing failover on that world succeeds.\<close>

lemma choose_failover:
  assumes "marshal (c\<lparr>c_Strategy := StrategyFailover\<rparr>) = Inr body"
  shows "\<exists>w'. manage marshal (smooth_save, ReqStrategy StrategyFailover) (pair_world c) = (None, w')"
proof -
  from Save_smooth(1) [where marshal = marshal, OF assms] obtain fss where
    "Save marshal smooth_save (c\<lparr>c_Strategy := StrategyFailover\<rparr>) ''/etc/config.yaml'' example_fs = (None, fss)" by blast
  then show ?thesis
    by (simp add: Manager_SetStrategy_def SetStrategy_def ValidStrategy_def validStrategies_def saveLocked_script Let_def)
qed

section \<open>Properties\<close>

text \<open>
  The manager's configuration always describes what is running: from the start of the
  program, after any sequence of management requests, accepted or refused, with saves that
  succeed or fail at any system call, the pool has exactly the configured upstreams in the
  configured order and the configured strategy, and the fallback resolver has the
  configured servers.
\<close>

lemma control_agrees:
  assumes "valid_config cfg"
  shows "agrees (fold (\<lambda>e w. snd (manage marshal e w)) requests
    \<lparr>w_mgr = NewManager cfg path allow, w_sys = start_system cfg now r, w_fs = fs\<rparr>)"
  by (rule manager_machine.run_inv) (rule start_agrees [OF New_wf [OF assms]])



text \<open>
  C36. What the management interface changes survives a restart: after a request that was
  reported as done, the file on disk loads, and the program it would start has the same
  upstreams, strategy and resolvers as the one that is running. The addresses must be stable
  under normalisation, and enabling the fallback needs positive times in the configuration.
\<close>

theorem restart_resumes:
  assumes "agrees w" "settled (w_cfg w)" "mg_persist (w_mgr w)" "temp_fresh sv (mg_path (w_mgr w)) (w_fs w)"
    and "manage marshal (sv, req) w = (None, w')" "\<nexists>name b. req = ReqDrain name b" "loadable req (w_cfg w)"
    and "\<And>c body. marshal c = Inr body \<Longrightarrow> decode (managedHeader @ body) Default = Inr (exported c)"
  shows "\<exists>c. Load decode (mg_path (w_mgr w)) (w_fs w') = Inr c \<and> settled c \<and> pool_entries (New c) = pool_entries (w_pool w') \<and>
    p_strategy (New c) = p_strategy (w_pool w') \<and> rv_servers (NewResolver c) = rv_servers (sy_resolver (w_sys w'))"
proof -
  from manage_outcome [OF assms(1,5)] have ag: "agrees w'" and rq: "requested req (w_cfg w) (w_cfg w')" by auto
  then have "wf_upstreams (c_Upstreams (w_cfg w'))" "c_Upstreams (w_cfg w') \<noteq> []"
    unfolding agrees_def pool_wf_def by (metis, metis Nil_is_map_conv pool_entries_def)
  with settled_requested [OF assms(2) rq assms(7)] have st: "settled (w_cfg w')" by blast
  from manage_saves [OF assms(5,3,6)] obtain fss where s: "Save marshal sv (w_cfg w') (mg_path (w_mgr w)) (w_fs w) = (None, fss)" "w_fs w' = last fss" by blast
  then obtain body where b: "marshal (w_cfg w') = Inr body" by (auto simp: Save_def split: sum.splits)
  from Save_states [OF s(1) assms(4) b] obtain x where "w_fs w' (mg_path (w_mgr w)) = Some x" "f_data x = managedHeader @ body"
    using s(2) by (auto simp: renamed_def)
  then have "Load decode (mg_path (w_mgr w)) (w_fs w') = Inr (w_cfg w')"
    using st assms(8) [OF b] by (simp add: Load_def Parse_def Validate_exported settled_def)
  then show ?thesis using st ag New_entries [of "w_cfg w'"] by (simp add: agrees_def NewResolver_def)
qed

theorem restart_resumes_witness:
  "\<exists>c marshal decode w'. Validate home_config = Inr c \<and> manage marshal (smooth_save, ReqStrategy StrategyFailover) (pair_world c) = (None, w') \<and>
     (\<exists>c'. Load decode ''/etc/config.yaml'' (w_fs w') = Inr c' \<and> p_strategy (New c') = p_strategy (w_pool w'))"
proof -
  obtain c where c: "Validate home_config = Inr c" using home_valid by blast
  have st: "settled c" using Validate_idempotent [OF c home_stable] by (simp add: settled_def)
  let ?c = "c\<lparr>c_Strategy := StrategyFailover\<rparr>"
  let ?marshal = "\<lambda>d. if d = ?c then Inr ''new'' else Inl (Errorf ''unexpected'' []) :: string result"
  obtain w' where m: "manage ?marshal (smooth_save, ReqStrategy StrategyFailover) (pair_world c) = (None, w')"
    using choose_failover [of ?marshal c] by auto
  have "valid_config c" using Validate_Inr [OF c] by blast
  then have ag: "agrees (pair_world c)" unfolding pair_world_def by (intro start_agrees New_wf)
  have "\<exists>c'. Load (\<lambda>data d. Inr (exported ?c)) (mg_path (w_mgr (pair_world c))) (w_fs w') = Inr c' \<and> settled c' \<and>
      pool_entries (New c') = pool_entries (w_pool w') \<and> p_strategy (New c') = p_strategy (w_pool w') \<and>
      rv_servers (NewResolver c') = rv_servers (sy_resolver (w_sys w'))"
    by (rule restart_resumes [OF ag _ _ _ m]) (use st smooth_fresh in \<open>auto split: if_splits\<close>)
  then have "\<exists>c'. Load (\<lambda>data d. Inr (exported ?c)) ''/etc/config.yaml'' (w_fs w') = Inr c' \<and> p_strategy (New c') = p_strategy (w_pool w')" by auto
  with c m show ?thesis by blast
qed

text \<open>
  A removal whose save fails is taken back at the end of the list: the first of two
  upstreams, the one failover prefers, is the last one afterwards.
\<close>

lemma failed_remove_reorders:
  "\<exists>e w'. RemoveUpstream (\<lambda>c. Inr ''new'') stuck_save ''pihole-1'' (pair_world pair_config) = (Some e, w') \<and>
     map uc_Name (c_Upstreams (w_cfg (pair_world pair_config))) = [''pihole-1'', ''pihole-2''] \<and>
     map uc_Name (pool_entries (w_pool w')) = [''pihole-2'', ''pihole-1'']"
proof -
  let ?w = "pair_world pair_config" and ?m = "\<lambda>c :: config. Inr ''new'' :: string result"
  obtain p1 p2 where us: "c_Upstreams pair_config = [p1, p2]" "uc_Name p1 = ''pihole-1''" "uc_Name p2 = ''pihole-2''" by (simp add: pair_config_def)
  obtain p where p: "Remove ''pihole-1'' (New pair_config) = Inr p"
    using Remove_succeeds [of "''pihole-1''" "New pair_config"] by (auto simp: pair_config_pool us)
  have idx: "cfg_index ''pihole-1'' [p1, p2] = 0" by (simp add: cfg_index_def us)
  let ?w1 = "set_cfg (\<lambda>c. c\<lparr>c_Upstreams := [p2]\<rparr>) (set_pool p ?w)"
  obtain e fss where s: "Save ?m stuck_save (w_cfg ?w1) (mg_path (w_mgr ?w1)) (w_fs ?w1) = (Some e, fss)" using Save_smooth(2) [of ?m "w_cfg ?w1" "''new''", OF refl] by auto
  obtain err w' where r: "RemoveUpstream ?m stuck_save ''pihole-1'' ?w = (err, w')" by fastforce
  have "err \<noteq> None" "c_Upstreams (w_cfg w') = [p2, p1]"
    using r saveLocked_script(2) [OF _ s]
    by (auto simp: RemoveUpstream_def Let_def idx us p split: sum.splits prod.splits)
  moreover have "agrees w'" using RemoveUpstream_outcome [OF pair_world_agrees r] by blast
  ultimately show ?thesis using r us by (auto simp: agrees_def)
qed

text \<open>
  Enabling the fallback does not look at its times: if the configuration has none, the
  request succeeds and is saved, and the file does not load any more.
\<close>

lemma enable_fallback_unloadable:
  assumes "agrees w" "SetFallback marshal sv True servers w = (None, w')" "fc_Timeout (c_Fallback (w_cfg w)) \<le> 0"
  shows "\<exists>e. Validate (w_cfg w') = Inl e"
proof (rule ccontr)
  assume "\<nexists>e. Validate (w_cfg w') = Inl e"
  then obtain c' where "Validate (w_cfg w') = Inr c'" by (metis sum.exhaust)
  from Validate_Inr [OF this] have "validate_fallback (c_Fallback (w_cfg w')) = Inr (c_Fallback c')" by blast
  with SetFallback_outcome [OF assms(1,2)] assms(3) show False by (auto simp: validate_fallback_def fail_if_def split: if_splits)
qed

end
