(* ===== verification/Admin.thy ===== *)
theory Admin
  imports Control
begin

text \<open>
  Package \<open>internal/admin\<close>: the HTTP interface. A request is its method, the segments of
  its path, its query parameters and, for each shape of body a handler decodes, what the
  JSON decoder makes of the body. A response is a status code and a document; documents stay
  structured, their JSON or text encoding is left to the standard library. The embedded page
  and its icon are answered by \<open>http.ServeContent\<close> and named only.
\<close>

section \<open>Documents\<close>

record fallback_status =
  fb_Enabled :: bool
  fb_Active :: bool
  fb_Servers :: "string list"
  fb_Since :: instant
  fb_Queries :: u64
  fb_Outages :: int

record status_response =
  st_Version :: string
  st_UptimeSec :: rat
  st_Strategy :: string
  st_Healthy :: nat
  st_Total :: nat
  st_Fallback :: fallback_status
  st_Upstreams :: "upstream_status list"

record control_status =
  ct_Enabled :: bool
  ct_ConfigPath :: string
  ct_Reason :: string

record overview_response =
  ov_Version :: string
  ov_UptimeSec :: rat
  ov_Strategy :: string
  ov_Strategies :: "string list"
  ov_Healthy :: nat
  ov_Total :: nat
  ov_Fallback :: fallback_status
  ov_Upstreams :: "upstream_status list"
  ov_Control :: control_status

text \<open>
  The plain text summary: text, text padded on the right to a width, a number of milliseconds
  printed by \<open>%6.1f\<close>, an error printed by \<open>%q\<close>, a time.
\<close>

datatype item = Text string | Padded nat string | Millis rat | Quoted goerr | Stamp instant

datatype body =
    Plain string
  | PlainError goerr
  | Exposition "piece list"
  | Summary "item list"
  | ApiError goerr
  | StatusDoc status_response
  | OverviewDoc overview_response
  | StatsDoc stats_snapshot
  | ConfigDoc config
  | FallbackDoc fallback_status
  | Fields "(string \<times> string) list"

datatype response = Reply nat body | Static string

record upstream_request =
  ur_Name :: string
  ur_Weight :: int
  ur_Endpoints :: "string list"

record http_request =
  hq_method :: string
  hq_path :: "string list"
  hq_query :: "string \<Rightarrow> string"
  hq_upstream :: "upstream_request result"
  hq_drained :: "bool result"
  hq_fallback :: "(bool \<times> string list) result"
  hq_strategy :: "string result"

text \<open>The server's own fields; the running parts are the world.\<close>

record admin =
  as_version :: string
  as_started :: instant
  as_control :: bool

definition NewAdmin :: "string \<Rightarrow> config \<Rightarrow> instant \<Rightarrow> admin" where
  "NewAdmin version cfg now = \<lparr>as_version = version, as_started = now, as_control = ad_AllowControl (c_Admin cfg)\<rparr>"

text \<open>How long this server has been answering, in seconds.\<close>

definition uptime :: "instant \<Rightarrow> admin \<Rightarrow> rat" where
  "uptime now a = Seconds (now - as_started a)"

text \<open>
  \<open>ListenAndServe\<close>: the argument is the error the HTTP server ended with, if it ended before
  the context did.
\<close>

definition admin_ListenAndServe :: "config \<Rightarrow> goerr option \<Rightarrow> goerr option" where
  "admin_ListenAndServe cfg ended =
     (if ad_Listen (c_Admin cfg) = [] then None
      else case ended of
        Some err \<Rightarrow> if err_is err ErrServerClosed then None else Some (Wrapf ''admin server: %w'' [] err)
      | None \<Rightarrow> None)"

section \<open>Status codes\<close>

definition fail_code :: "goerr \<Rightarrow> nat" where
  "fail_code err =
     (let code = (if err_is err ErrReadOnly then 403
                  else if err_is err ErrNotFound then 404
                  else if err_is err ErrDuplicateName then 409
                  else if err_is err ErrLastUpstream then 409
                  else 500)
      in if code = 500 then 400 else code)"

definition api_fail :: "goerr \<Rightarrow> response" where
  "api_fail err = Reply (fail_code err) (ApiError err)"

definition decode_fail :: "goerr \<Rightarrow> response" where
  "decode_fail err = Reply 400 (ApiError (Wrapf ''invalid request body: %w'' [] err))"

section \<open>Reading\<close>

definition fallbackStatus :: "instant \<Rightarrow> system \<Rightarrow> fallback_status" where
  "fallbackStatus now s =
     (let servers = rv_servers (sy_resolver s); enabled = servers \<noteq> []; snap = snapshotLocked now (sy_tracker s)
      in \<lparr>fb_Enabled = enabled, fb_Active = (enabled \<and> HealthyUpstreams (sy_pool s) = 0), fb_Servers = servers,
          fb_Since = sm_Start snap, fb_Queries = sm_Queries snap, fb_Outages = sm_Episodes snap\<rparr>)"

definition handleHealthz :: "system \<Rightarrow> response" where
  "handleHealthz s =
     (let healthy = HealthyUpstreams (sy_pool s) in
      if healthy = 0 then Reply 503 (Plain (''unhealthy: no upstream Pi-hole is answering'' @ newline))
      else Reply 200 (Plain (''ok: '' @ dec_string healthy @ ''/'' @ dec_string (length (p_upstreams (sy_pool s))) @ '' upstreams healthy'' @ newline)))"

definition handleStatus :: "admin \<Rightarrow> instant \<Rightarrow> system \<Rightarrow> response" where
  "handleStatus a now s = Reply 200 (StatusDoc
     \<lparr>st_Version = as_version a, st_UptimeSec = Seconds (now - as_started a), st_Strategy = p_strategy (sy_pool s),
      st_Healthy = HealthyUpstreams (sy_pool s), st_Total = length (p_upstreams (sy_pool s)),
      st_Fallback = fallbackStatus now s, st_Upstreams = Status (sy_pool s)\<rparr>)"

definition boolToFloat :: "bool \<Rightarrow> rat" where
  "boolToFloat b = (if b then 1 else 0)"

definition upstream_gauges :: "upstream_status \<Rightarrow> gauge list" where
  "upstream_gauges u =
     [\<lparr>g_Name = ''holebalancer_upstream_up'', g_Help = ''1 if at least one path to this Pi-hole is answering.'',
       g_Labels = [\<lparr>lb_Name = ''upstream'', lb_Value = us_Name u\<rparr>], g_Value = boolToFloat (us_Healthy u)\<rparr>,
      \<lparr>g_Name = ''holebalancer_upstream_drained'', g_Help = ''1 if this Pi-hole has been drained for maintenance.'',
       g_Labels = [\<lparr>lb_Name = ''upstream'', lb_Value = us_Name u\<rparr>], g_Value = boolToFloat (us_Drained u)\<rparr>]"

definition endpoint_gauges :: "upstream_status \<Rightarrow> endpoint_status \<Rightarrow> gauge list" where
  "endpoint_gauges u e =
     (let labels = [\<lparr>lb_Name = ''upstream'', lb_Value = us_Name u\<rparr>, \<lparr>lb_Name = ''endpoint'', lb_Value = es_Name e\<rparr>,
                    \<lparr>lb_Name = ''addr'', lb_Value = es_Addr e\<rparr>]
      in [\<lparr>g_Name = ''holebalancer_endpoint_up'', g_Help = ''1 if this network path to a Pi-hole is answering.'',
           g_Labels = labels, g_Value = boolToFloat (es_Healthy e)\<rparr>,
          \<lparr>g_Name = ''holebalancer_endpoint_latency_seconds'', g_Help = ''Exponentially weighted mean round-trip time for this path.'',
           g_Labels = labels, g_Value = f64 (es_LatencyMS e / 1000)\<rparr>])"

definition gauges :: "admin \<Rightarrow> instant \<Rightarrow> system \<Rightarrow> gauge list" where
  "gauges a now s =
     [\<lparr>g_Name = ''holebalancer_build_info'', g_Help = ''Build information; always 1.'',
       g_Labels = [\<lparr>lb_Name = ''version'', lb_Value = as_version a\<rparr>], g_Value = 1\<rparr>,
      \<lparr>g_Name = ''holebalancer_fallback_active'',
       g_Help = ''1 while queries are being answered by public DNS because no Pi-hole is up.'',
       g_Labels = [], g_Value = boolToFloat (fb_Active (fallbackStatus now s))\<rparr>] @
     concat (map upstream_gauges (Status (sy_pool s))) @
     concat (map (\<lambda>u. concat (map (endpoint_gauges u) (us_Endpoints u))) (Status (sy_pool s)))"

definition handleMetrics :: "admin \<Rightarrow> instant \<Rightarrow> system \<Rightarrow> response" where
  "handleMetrics a now s = Reply 200 (Exposition (Render (sy_metrics s) (gauges a now s)))"

definition controlStatus :: "manager \<Rightarrow> control_status" where
  "controlStatus m =
     (if \<not> mg_allowWrite m then
        \<lparr>ct_Enabled = False, ct_ConfigPath = [],
         ct_Reason = ''Set admin.allow_control: true in the configuration to make changes here.''\<rparr>
      else
        \<lparr>ct_Enabled = True, ct_ConfigPath = ConfigPath m,
         ct_Reason = (if ConfigPath m = [] then ''Changes apply immediately but are not saved: no configuration file to write to.'' else [])\<rparr>)"

definition handleOverview :: "admin \<Rightarrow> instant \<Rightarrow> world \<Rightarrow> response" where
  "handleOverview a now w =
     (let s = w_sys w in
      Reply 200 (OverviewDoc
        \<lparr>ov_Version = as_version a, ov_UptimeSec = uptime now a, ov_Strategy = p_strategy (sy_pool s),
         ov_Strategies = validStrategies, ov_Healthy = HealthyUpstreams (sy_pool s), ov_Total = length (p_upstreams (sy_pool s)),
         ov_Fallback = fallbackStatus now s, ov_Upstreams = Status (sy_pool s), ov_Control = controlStatus (w_mgr w)\<rparr>))"

definition handleStats :: "duration \<Rightarrow> instant \<Rightarrow> system \<Rightarrow> response" where
  "handleStats tz now s = Reply 200 (StatsDoc (Snapshot tz now (sy_stats s)))"

definition handleConfig :: "manager \<Rightarrow> response" where
  "handleConfig m = Reply 200 (ConfigDoc (mg_cfg m))"

definition int_string :: "int \<Rightarrow> string" where
  "int_string n = (if n < 0 then ''-'' @ dec_string (nat (- n)) else dec_string (nat n))"

fun join_with :: "string \<Rightarrow> string list \<Rightarrow> string" where
  "join_with sep [] = []"
| "join_with sep [x] = x"
| "join_with sep (x # y # xs) = x @ sep @ join_with sep (y # xs)"

definition index_endpoint :: "endpoint_status \<Rightarrow> item list" where
  "index_endpoint e =
     [Text ''  '', Text (if es_IsPreferred e then ''*'' else '' ''), Text '' '', Padded 24 (es_Addr e), Text '' '',
      Padded 5 (if es_Healthy e then ''up'' else ''down''), Text '' '', Millis (es_LatencyMS e),
      Text (''ms  queries='' @ dec_string (unat (es_Queries e)) @ '' failures='' @ dec_string (unat (es_Failures e)))] @
     (case es_LastError e of
        Some err \<Rightarrow> if \<not> es_Healthy e then [Text ''  reason='', Quoted err] else []
      | None \<Rightarrow> []) @
     [Text newline]"

definition index_upstream :: "upstream_status \<Rightarrow> item list" where
  "index_upstream u =
     [Padded 20 (us_Name u), Text '' '', Padded 16 ((if us_Healthy u then ''UP'' else ''DOWN'') @ (if us_Drained u then '' (drained)'' else [])),
      Text ('' weight='' @ int_string (us_Weight u) @ newline)] @
     concat (map index_endpoint (us_Endpoints u))"

definition index_fallback :: "fallback_status \<Rightarrow> item list" where
  "index_fallback fs =
     (if fb_Enabled fs then
        [Text (newline @ ''fallback: ''), Padded 28 (join_with '', '' (fb_Servers fs)), Text '' '',
         Text ((if fb_Active fs then ''ACTIVE - answering unfiltered'' else ''standby'') @ newline)] @
        (if 0 < fb_Queries fs \<or> 0 < fb_Outages fs then
           [Text (''          '' @ dec_string (unat (fb_Queries fs)) @ '' queries over '' @ int_string (fb_Outages fs) @ '' outage(s) since ''),
            Stamp (fb_Since fs), Text newline]
         else [])
      else [])"

definition handleIndex :: "admin \<Rightarrow> instant \<Rightarrow> system \<Rightarrow> response" where
  "handleIndex a now s = Reply 200 (Summary (
     [Text (''hole-balancer '' @ as_version a @ newline @ newline), Text (''strategy: '' @ p_strategy (sy_pool s) @ newline),
      Text (''upstreams: '' @ dec_string (HealthyUpstreams (sy_pool s)) @ '' healthy of '' @ dec_string (length (p_upstreams (sy_pool s))) @ newline @ newline)] @
     concat (map index_upstream (Status (sy_pool s))) @
     index_fallback (fallbackStatus now s) @
     [Text (newline @ ''endpoints: /  (dashboard)  /summary  /healthz  /status  /metrics'' @ newline)] @
     (if as_control a then [Text (''control:   POST /drain?upstream=NAME  POST /undrain?upstream=NAME'' @ newline)] else [])))"

section \<open>Changing\<close>

definition handleDrain :: "bool \<Rightarrow> http_request \<Rightarrow> world \<Rightarrow> response \<times> world" where
  "handleDrain drain hq w =
     (let name = hq_query hq ''upstream'' in
      if name = [] then (Reply 400 (Plain (''missing required query parameter: upstream'' @ newline)), w)
      else case Lookup (w_pool w) name of
        None \<Rightarrow> (Reply 404 (PlainError (Errorf ''unknown upstream %q'' [name])), w)
      | Some u \<Rightarrow>
          (Reply 200 (Plain (name @ '' '' @ (if drain then ''drained'' else ''returned to rotation'') @ newline)),
           set_pool (SetDrained u drain (w_pool w)) w))"

text \<open>The upstream asked for, with the blank addresses left out.\<close>

definition upstream_of :: "upstream_request \<Rightarrow> upstream_cfg" where
  "upstream_of ur = \<lparr>uc_Name = ur_Name ur, uc_Weight = ur_Weight ur,
     uc_Endpoints = map (\<lambda>addr. \<lparr>ec_Name = [], ec_Addr = addr\<rparr>) (filter (\<lambda>addr. TrimSpace addr \<noteq> []) (ur_Endpoints ur))\<rparr>"

text \<open>The third component says whether an immediate health sweep was asked for.\<close>

definition handleAddUpstream ::
  "(config \<Rightarrow> string result) \<Rightarrow> save_script \<Rightarrow> http_request \<Rightarrow> world \<Rightarrow> response \<times> world \<times> bool" where
  "handleAddUpstream marshal sv hq w =
     (case hq_upstream hq of
        Inl e \<Rightarrow> (decode_fail e, w, False)
      | Inr ur \<Rightarrow>
          (case AddUpstream marshal sv (upstream_of ur) w of
             (Some e, w') \<Rightarrow> (api_fail e, w', False)
           | (None, w') \<Rightarrow> (Reply 201 (Fields [(''status'', ''added''), (''upstream'', ur_Name ur)]), w', True)))"

definition handleRemoveUpstream ::
  "(config \<Rightarrow> string result) \<Rightarrow> save_script \<Rightarrow> string \<Rightarrow> world \<Rightarrow> response \<times> world" where
  "handleRemoveUpstream marshal sv name w =
     (case RemoveUpstream marshal sv name w of
        (Some e, w') \<Rightarrow> (api_fail e, w')
      | (None, w') \<Rightarrow> (Reply 200 (Fields [(''status'', ''removed''), (''upstream'', name)]), w'))"

definition handleSetDrain :: "string \<Rightarrow> http_request \<Rightarrow> world \<Rightarrow> response \<times> world" where
  "handleSetDrain name hq w =
     (case hq_drained hq of
        Inl e \<Rightarrow> (decode_fail e, w)
      | Inr drained \<Rightarrow>
          (case Manager_SetDrained name drained w of
             (Some e, w') \<Rightarrow> (api_fail e, w')
           | (None, w') \<Rightarrow>
               (Reply 200 (Fields [(''upstream'', name), (''drained'', if drained then ''true'' else ''false'')]), w')))"

definition handleSetFallback ::
  "(config \<Rightarrow> string result) \<Rightarrow> save_script \<Rightarrow> instant \<Rightarrow> http_request \<Rightarrow> world \<Rightarrow> response \<times> world" where
  "handleSetFallback marshal sv now hq w =
     (case hq_fallback hq of
        Inl e \<Rightarrow> (decode_fail e, w)
      | Inr (enabled, servers) \<Rightarrow>
          (case SetFallback marshal sv enabled (filter (\<lambda>srv. TrimSpace srv \<noteq> []) servers) w of
             (Some e, w') \<Rightarrow> (api_fail e, w')
           | (None, w') \<Rightarrow> (Reply 200 (FallbackDoc (fallbackStatus now (w_sys w'))), w')))"

definition handleSetStrategy ::
  "(config \<Rightarrow> string result) \<Rightarrow> save_script \<Rightarrow> http_request \<Rightarrow> world \<Rightarrow> response \<times> world" where
  "handleSetStrategy marshal sv hq w =
     (case hq_strategy hq of
        Inl e \<Rightarrow> (decode_fail e, w)
      | Inr name \<Rightarrow>
          (case Manager_SetStrategy marshal sv name w of
             (Some e, w') \<Rightarrow> (api_fail e, w')
           | (None, w') \<Rightarrow> (Reply 200 (Fields [(''strategy'', name)]), w')))"

definition handleResetStats :: "instant \<Rightarrow> world \<Rightarrow> response \<times> world" where
  "handleResetStats now w =
     (case checkWritable (w_mgr w) of
        Some e \<Rightarrow> (api_fail e, w)
      | None \<Rightarrow> (Reply 200 (Fields [(''status'', ''reset'')]), w\<lparr>w_sys := (w_sys w)\<lparr>sy_stats := Reset now (sy_stats (w_sys w))\<rparr>\<rparr>))"

section \<open>Routes\<close>

text \<open>
  The route table, as the patterns are registered. A path is the list of its segments, the
  last of them empty for a trailing slash, so that the root is the one empty segment; a
  wildcard takes any one segment that is not empty.
\<close>

datatype seg = Lit string | Wild

datatype handler =
    HHealthz | HStatus | HMetrics | HIndex | HUI | HIcon | HOverview | HStats | HConfig
  | HAdd | HRemove | HSetDrain | HSetFallback | HSetStrategy | HReset | HDrain bool

record pattern =
  pt_method :: string
  pt_path :: "seg list"
  pt_handler :: handler

definition HandleFunc :: "string \<Rightarrow> seg list \<Rightarrow> handler \<Rightarrow> pattern" where
  "HandleFunc method path h = \<lparr>pt_method = method, pt_path = path, pt_handler = h\<rparr>"

definition apiRoutes :: "pattern list" where
  "apiRoutes =
     [HandleFunc ''GET'' [Lit ''api'', Lit ''overview''] HOverview,
      HandleFunc ''GET'' [Lit ''api'', Lit ''stats''] HStats,
      HandleFunc ''GET'' [Lit ''api'', Lit ''config''] HConfig,
      HandleFunc ''POST'' [Lit ''api'', Lit ''upstreams''] HAdd,
      HandleFunc ''DELETE'' [Lit ''api'', Lit ''upstreams'', Wild] HRemove,
      HandleFunc ''POST'' [Lit ''api'', Lit ''upstreams'', Wild, Lit ''drain''] HSetDrain,
      HandleFunc ''PUT'' [Lit ''api'', Lit ''fallback''] HSetFallback,
      HandleFunc ''PUT'' [Lit ''api'', Lit ''strategy''] HSetStrategy,
      HandleFunc ''POST'' [Lit ''api'', Lit ''stats'', Lit ''reset''] HReset]"

definition Handler :: "bool \<Rightarrow> pattern list" where
  "Handler allowControl =
     [HandleFunc ''GET'' [Lit ''healthz''] HHealthz,
      HandleFunc ''GET'' [Lit ''status''] HStatus,
      HandleFunc ''GET'' [Lit ''metrics''] HMetrics,
      HandleFunc ''GET'' [Lit ''summary''] HIndex,
      HandleFunc ''GET'' [Lit []] HUI,
      HandleFunc ''GET'' [Lit ''icon.svg''] HIcon] @
     apiRoutes @
     (if allowControl then
        [HandleFunc ''POST'' [Lit ''drain''] (HDrain True), HandleFunc ''POST'' [Lit ''undrain''] (HDrain False)]
      else [])"

fun seg_matches :: "seg \<Rightarrow> string \<Rightarrow> bool" where
  "seg_matches (Lit l) s = (l = s)"
| "seg_matches Wild s = (s \<noteq> [])"

definition path_matches :: "string list \<Rightarrow> pattern \<Rightarrow> bool" where
  "path_matches path pt = list_all2 seg_matches (pt_path pt) path"

text \<open>A pattern for GET also takes HEAD.\<close>

definition method_matches :: "string \<Rightarrow> pattern \<Rightarrow> bool" where
  "method_matches method pt \<longleftrightarrow> method = pt_method pt \<or> pt_method pt = ''GET'' \<and> method = ''HEAD''"

text \<open>What the wildcard of a pattern matched.\<close>

fun PathValue :: "seg list \<Rightarrow> string list \<Rightarrow> string" where
  "PathValue (Wild # segs) (x # xs) = x"
| "PathValue (Lit l # segs) (x # xs) = PathValue segs xs"
| "PathValue segs xs = []"

text \<open>
  One request: the response, the world after it, and whether a health sweep was asked for.
  The save script says how the system calls of a save end, should the request make one. A
  path known under another method is answered 405, an unknown path 404.
\<close>

fun run_handler ::
  "(config \<Rightarrow> string result) \<Rightarrow> duration \<Rightarrow> admin \<Rightarrow> save_script \<Rightarrow> instant \<Rightarrow> http_request \<Rightarrow> string \<Rightarrow> handler \<Rightarrow> world \<Rightarrow>
     response \<times> world \<times> bool" where
  "run_handler marshal tz a sv now hq name HHealthz w = (handleHealthz (w_sys w), w, False)"
| "run_handler marshal tz a sv now hq name HStatus w = (handleStatus a now (w_sys w), w, False)"
| "run_handler marshal tz a sv now hq name HMetrics w = (handleMetrics a now (w_sys w), w, False)"
| "run_handler marshal tz a sv now hq name HIndex w = (handleIndex a now (w_sys w), w, False)"
| "run_handler marshal tz a sv now hq name HUI w = (Static ''index.html'', w, False)"
| "run_handler marshal tz a sv now hq name HIcon w = (Static ''icon.svg'', w, False)"
| "run_handler marshal tz a sv now hq name HOverview w = (handleOverview a now w, w, False)"
| "run_handler marshal tz a sv now hq name HStats w = (handleStats tz now (w_sys w), w, False)"
| "run_handler marshal tz a sv now hq name HConfig w = (handleConfig (w_mgr w), w, False)"
| "run_handler marshal tz a sv now hq name HAdd w = handleAddUpstream marshal sv hq w"
| "run_handler marshal tz a sv now hq name HRemove w = (case handleRemoveUpstream marshal sv name w of (r, w') \<Rightarrow> (r, w', False))"
| "run_handler marshal tz a sv now hq name HSetDrain w = (case handleSetDrain name hq w of (r, w') \<Rightarrow> (r, w', False))"
| "run_handler marshal tz a sv now hq name HSetFallback w = (case handleSetFallback marshal sv now hq w of (r, w') \<Rightarrow> (r, w', False))"
| "run_handler marshal tz a sv now hq name HSetStrategy w = (case handleSetStrategy marshal sv hq w of (r, w') \<Rightarrow> (r, w', False))"
| "run_handler marshal tz a sv now hq name HReset w = (case handleResetStats now w of (r, w') \<Rightarrow> (r, w', False))"
| "run_handler marshal tz a sv now hq name (HDrain b) w = (case handleDrain b hq w of (r, w') \<Rightarrow> (r, w', False))"

definition serve ::
  "(config \<Rightarrow> string result) \<Rightarrow> duration \<Rightarrow> admin \<Rightarrow> save_script \<Rightarrow> instant \<Rightarrow> http_request \<Rightarrow> world \<Rightarrow> response \<times> world \<times> bool" where
  "serve marshal tz a sv now hq w =
     (let known = filter (path_matches (hq_path hq)) (Handler (as_control a)) in
      case filter (method_matches (hq_method hq)) known of
        pt # _ \<Rightarrow> run_handler marshal tz a sv now hq (PathValue (pt_path pt) (hq_path hq)) (pt_handler pt) w
      | [] \<Rightarrow> (Reply (if known = [] then 404 else 405) (Plain (if known = [] then ''404 page not found'' else ''Method Not Allowed'')), w, False))"

section \<open>Facts about single requests\<close>

lemma HandleFunc_simps [simp]:
  "pt_method (HandleFunc method path h) = method" "pt_path (HandleFunc method path h) = path" "pt_handler (HandleFunc method path h) = h"
  by (simp_all add: HandleFunc_def)

text \<open>The registered patterns never compete for a request, so their order is irrelevant.\<close>

lemma routes_unambiguous:
  "length (filter (\<lambda>pt. path_matches path pt \<and> method_matches method pt) (Handler allow)) \<le> 1"
proof -
  consider "path = []" | s1 where "path = [s1]" | s1 s2 where "path = [s1, s2]" | s1 s2 s3 where "path = [s1, s2, s3]"
    | s1 s2 s3 s4 where "path = [s1, s2, s3, s4]" | s1 s2 s3 s4 s5 rest where "path = s1 # s2 # s3 # s4 # s5 # rest"
    by (metis list.exhaust)
  then show ?thesis
    by cases (auto simp: Handler_def apiRoutes_def path_matches_def method_matches_def)
qed

text \<open>No error of the manager is reported as a fault of the server.\<close>

lemma fail_code_range: "fail_code err \<in> {400, 403, 404, 409}"
  by (simp add: fail_code_def Let_def)

lemma reset_agrees [simp]: "agrees (w\<lparr>w_sys := (w_sys w)\<lparr>sy_stats := st\<rparr>\<rparr>) = agrees w"
  by (simp add: agrees_def w_pool_def w_cfg_def)

lemma serve_cases:
  assumes "serve marshal tz a sv now hq w = res"
  obtains pt where "pt \<in> set (Handler (as_control a))" "method_matches (hq_method hq) pt"
      "res = run_handler marshal tz a sv now hq (PathValue (pt_path pt) (hq_path hq)) (pt_handler pt) w"
  | code msg where "code \<in> {404, 405}" "res = (Reply code (Plain msg), w, False)"
proof (cases "filter (method_matches (hq_method hq)) (filter (path_matches (hq_path hq)) (Handler (as_control a)))")
  case Nil
  then show ?thesis using that(2) assms by (auto simp: serve_def Let_def split: if_splits)
next
  case (Cons pt rest)
  then have "pt \<in> set (filter (method_matches (hq_method hq)) (filter (path_matches (hq_path hq)) (Handler (as_control a))))" by simp
  then show ?thesis using that(1) [of pt] assms Cons by (simp add: serve_def Let_def)
qed

text \<open>The handlers that read and those that change something, and the methods they are registered with.\<close>

fun reads :: "handler \<Rightarrow> bool" where
  "reads HHealthz = True" | "reads HStatus = True" | "reads HMetrics = True" | "reads HIndex = True" | "reads HUI = True"
| "reads HIcon = True" | "reads HOverview = True" | "reads HStats = True" | "reads HConfig = True" | "reads h = False"

lemma reads_frame: "reads h \<Longrightarrow> snd (run_handler marshal tz a sv now hq name h w) = (w, False)"
  by (cases h) simp_all

lemma Handler_reads: "pt \<in> set (Handler allow) \<Longrightarrow> reads (pt_handler pt) \<longleftrightarrow> pt_method pt = ''GET''"
  by (auto simp: Handler_def apiRoutes_def split: if_splits)

lemma Handler_head: "pt \<in> set (Handler allow) \<Longrightarrow> pt_method pt \<noteq> ''HEAD''"
  by (auto simp: Handler_def apiRoutes_def split: if_splits)

lemma Handler_drain: "pt \<in> set (Handler False) \<Longrightarrow> pt_handler pt \<noteq> HDrain b"
  by (auto simp: Handler_def apiRoutes_def)

fun refused :: "response \<Rightarrow> bool" where
  "refused (Reply code _) = (400 \<le> code)"
| "refused (Static _) = False"

lemma api_fail_refused [simp]: "refused (api_fail err)" "refused (decode_fail err)"
  using fail_code_range [of err] by (auto simp: api_fail_def decode_fail_def)

lemma readonly_manager:
  assumes "\<not> mg_allowWrite (w_mgr w)"
  shows "AddUpstream marshal sv u w = (Some (Sentinel ErrReadOnly), w)"
    "RemoveUpstream marshal sv name w = (Some (Sentinel ErrReadOnly), w)"
    "Manager_SetDrained name b w = (Some (Sentinel ErrReadOnly), w)"
    "Manager_SetStrategy marshal sv name w = (Some (Sentinel ErrReadOnly), w)"
    "SetFallback marshal sv b servers w = (Some (Sentinel ErrReadOnly), w)"
    "checkWritable (w_mgr w) = Some (Sentinel ErrReadOnly)"
  using assms by (simp_all add: AddUpstream_def RemoveUpstream_def Manager_SetDrained_def Manager_SetStrategy_def SetFallback_def checkWritable_def)

lemma readonly_handler:
  assumes "\<not> mg_allowWrite (w_mgr w)" "\<not> reads h" "\<And>b. h \<noteq> HDrain b"
    "run_handler marshal tz a sv now hq name h w = (r, w', now_probe)"
  shows "w' = w \<and> \<not> now_probe \<and> refused r"
  using assms
  by (cases h) (auto simp: handleAddUpstream_def handleRemoveUpstream_def handleSetDrain_def handleSetFallback_def handleSetStrategy_def
      handleResetStats_def readonly_manager split: sum.splits prod.splits)

text \<open>What a handler that goes through the manager leaves behind.\<close>

definition undone :: "config \<Rightarrow> config \<Rightarrow> bool" where
  "undone c c' \<longleftrightarrow> mset (c_Upstreams c') = mset (c_Upstreams c) \<and> c' = c\<lparr>c_Upstreams := c_Upstreams c'\<rparr>"

lemma undone_refl [simp]: "undone c c"
  by (simp add: undone_def)

lemma manage_undone:
  assumes "agrees w" "manage marshal (sv, req) w = (err, w')"
  shows "agrees w' \<and> (err \<noteq> None \<longrightarrow> undone (w_cfg w) (w_cfg w'))"
  using manage_outcome [OF assms] unfolding undone_def by blast

lemmas managed =
  manage_undone [of _ _ _ "ReqAdd u" for u, simplified] manage_undone [of _ _ _ "ReqRemove name" for name, simplified]
  manage_undone [of _ _ _ "ReqDrain name b" for name b, simplified] manage_undone [of _ _ _ "ReqStrategy name" for name, simplified]
  manage_undone [of _ _ _ "ReqFallback b servers" for b servers, simplified]

lemma drain_agrees: "agrees w \<Longrightarrow> agrees (set_pool (SetDrained u b (w_pool w)) w) \<and> w_cfg (set_pool (SetDrained u b (w_pool w)) w) = w_cfg w"
  using SetDrained_wf [of "w_pool w" u b] by (simp add: agrees_def) (simp add: SetDrained_def)

lemma run_handler_outcome:
  assumes "agrees w" "run_handler marshal tz a sv now hq name h w = (r, w', now_probe)"
  shows "agrees w' \<and> (refused r \<longrightarrow> undone (w_cfg w) (w_cfg w') \<and> \<not> now_probe)"
proof (cases "reads h")
  case True
  then show ?thesis using reads_frame [OF True, of marshal tz a sv now hq name w] assms by simp
next
  case False
  then show ?thesis
  proof (cases h)
    case HAdd
    then show ?thesis using assms managed(1) [OF assms(1)]
      by (fastforce simp: handleAddUpstream_def split: sum.splits prod.splits option.splits)
  next
    case HRemove
    then show ?thesis using assms managed(2) [OF assms(1)]
      by (fastforce simp: handleRemoveUpstream_def split: sum.splits prod.splits option.splits)
  next
    case HSetDrain
    then show ?thesis using assms managed(3) [OF assms(1)]
      by (fastforce simp: handleSetDrain_def split: sum.splits prod.splits option.splits)
  next
    case HSetFallback
    then show ?thesis using assms managed(5) [OF assms(1)]
      by (fastforce simp: handleSetFallback_def split: sum.splits prod.splits option.splits)
  next
    case HSetStrategy
    then show ?thesis using assms managed(4) [OF assms(1)]
      by (fastforce simp: handleSetStrategy_def split: sum.splits prod.splits option.splits)
  next
    case HReset
    then show ?thesis using assms by (auto simp: handleResetStats_def w_cfg_def split: option.splits)
  next
    case (HDrain b)
    then show ?thesis using assms drain_agrees [OF assms(1)]
      by (auto simp: handleDrain_def Let_def split: if_splits option.splits)
  qed simp_all
qed

section \<open>The gauges\<close>

lemma Status_names: "map us_Name (Status p) = map uc_Name (pool_entries p)"
  by (simp add: Status_def pool_entries_def upstream_entry_def)

lemma Status_addrs: "concat (map (\<lambda>u. map es_Addr (us_Endpoints u)) (Status p)) = all_addrs (pool_entries p)"
  by (simp add: Status_def pool_entries_def upstream_entry_def all_addrs_def endpoint_entry_def endpoint_view_def Let_def map_concat comp_def)

definition series :: "gauge \<Rightarrow> string \<times> label list" where
  "series g = (g_Name g, g_Labels g)"

lemma upstream_series:
  assumes "distinct (map us_Name us)"
  shows "distinct (map series (concat (map upstream_gauges us)))"
  using assms
proof (induction us)
  case (Cons u us)
  then show ?case by (force simp: upstream_gauges_def series_def)
qed simp

lemma endpoint_series:
  assumes "distinct (map es_Addr es)"
  shows "distinct (map series (concat (map (endpoint_gauges u) es)))"
  using assms
proof (induction es)
  case (Cons e es)
  then show ?case by (force simp: endpoint_gauges_def series_def Let_def)
qed simp

lemma endpoints_series:
  assumes "distinct (map us_Name us)" "distinct (concat (map (\<lambda>u. map es_Addr (us_Endpoints u)) us))"
  shows "distinct (map series (concat (map (\<lambda>u. concat (map (endpoint_gauges u) (us_Endpoints u))) us)))"
  using assms
proof (induction us)
  case (Cons u us)
  have "series g \<noteq> series h" if "e \<in> set (us_Endpoints u)" "g \<in> set (endpoint_gauges u e)"
      "v \<in> set us" "f \<in> set (us_Endpoints v)" "h \<in> set (endpoint_gauges v f)" for e g v f h
  proof -
    have "us_Name u \<noteq> us_Name v" using that(3) Cons.prems(1) by auto
    then show ?thesis using that(2,5) by (auto simp: endpoint_gauges_def series_def Let_def)
  qed
  then have "set (map series (concat (map (endpoint_gauges u) (us_Endpoints u)))) \<inter>
      set (map series (concat (map (\<lambda>u. concat (map (endpoint_gauges u) (us_Endpoints u))) us))) = {}" by fastforce
  then show ?case using Cons endpoint_series [of "us_Endpoints u" u] by simp
qed simp

lemma gauge_names:
  "g \<in> set (concat (map upstream_gauges us)) \<Longrightarrow> g_Name g \<in> {''holebalancer_upstream_up'', ''holebalancer_upstream_drained''}"
  "g \<in> set (concat (map (\<lambda>u. concat (map (endpoint_gauges u) (us_Endpoints u))) us)) \<Longrightarrow>
     g_Name g \<in> {''holebalancer_endpoint_up'', ''holebalancer_endpoint_latency_seconds''}"
  by (auto simp: upstream_gauges_def endpoint_gauges_def Let_def)

section \<open>Example requests\<close>

definition strategy_request :: "string \<Rightarrow> http_request" where
  "strategy_request name = \<lparr>hq_method = ''PUT'', hq_path = [''api'', ''strategy''], hq_query = (\<lambda>_. []),
     hq_upstream = Inl (Errorf ''EOF'' []), hq_drained = Inl (Errorf ''EOF'' []), hq_fallback = Inl (Errorf ''EOF'' []), hq_strategy = Inr name\<rparr>"

definition example_admin :: "bool \<Rightarrow> admin" where
  "example_admin allow = \<lparr>as_version = ''dev'', as_started = 0, as_control = allow\<rparr>"

lemma serve_strategy:
  "serve marshal tz (example_admin allow) sv now (strategy_request name) w =
     (case handleSetStrategy marshal sv (strategy_request name) w of (r, w') \<Rightarrow> (r, w', False))"
  by (simp add: serve_def strategy_request_def example_admin_def Handler_def apiRoutes_def path_matches_def method_matches_def Let_def)

definition locked_world :: world where
  "locked_world = (pair_world pair_config)\<lparr>w_mgr := NewManager pair_config ''/etc/config.yaml'' False\<rparr>"

lemma locked_strategy:
  "handleSetStrategy marshal sv (strategy_request name) locked_world = (Reply 403 (ApiError (Sentinel ErrReadOnly)), locked_world)"
  using readonly_manager(4) [of locked_world marshal sv name]
  by (simp add: handleSetStrategy_def strategy_request_def locked_world_def NewManager_def api_fail_def fail_code_def err_is_def)

text \<open>On a disk where the save cannot be completed, the change of strategy is refused.\<close>

lemma stuck_strategy:
  "\<exists>e w'. handleSetStrategy (\<lambda>c. Inr ''new'') stuck_save (strategy_request StrategyFailover) (pair_world pair_config) = (api_fail e, w')"
proof -
  obtain e fss where
    "Save (\<lambda>c. Inr ''new'') stuck_save (pair_config\<lparr>c_Strategy := StrategyFailover\<rparr>) ''/etc/config.yaml'' example_fs = (Some e, fss)"
    using Save_smooth(2) [of "\<lambda>c. Inr ''new''" "pair_config\<lparr>c_Strategy := StrategyFailover\<rparr>" "''new''", OF refl] by blast
  then show ?thesis
    by (auto simp: handleSetStrategy_def strategy_request_def Manager_SetStrategy_def SetStrategy_def ValidStrategy_def validStrategies_def saveLocked_script Let_def)
qed

section \<open>Properties\<close>

text \<open>
  C37. Looking never changes anything, and neither does anything else while control is off: a
  GET or HEAD request leaves the running system, the configuration and the disk exactly as
  they were, and so does every request to a server with control disabled, which moreover
  refuses, with an error status, every request that is not a read.
\<close>

theorem requests_readonly:
  assumes "serve marshal tz a sv now hq w = (r, w', now_probe)"
    and "hq_method hq \<in> {''GET'', ''HEAD''} \<or> \<not> as_control a \<and> \<not> mg_allowWrite (w_mgr w)"
  shows "w' = w \<and> \<not> now_probe \<and> (hq_method hq \<notin> {''GET'', ''HEAD''} \<longrightarrow> refused r)"
  using assms(1)
proof (cases rule: serve_cases)
  case (1 pt)
  show ?thesis
  proof (cases "reads (pt_handler pt)")
    case True
    then have "hq_method hq \<in> {''GET'', ''HEAD''}" using 1 Handler_reads by (auto simp: method_matches_def)
    moreover have "(w', now_probe) = (w, False)" using reads_frame [OF True] 1(3) by (metis snd_conv)
    ultimately show ?thesis by simp
  next
    case False
    then have "hq_method hq \<notin> {''GET'', ''HEAD''}" using 1 Handler_reads Handler_head by (auto simp: method_matches_def)
    then have off: "\<not> as_control a" "\<not> mg_allowWrite (w_mgr w)" using assms(2) by blast+
    then have "\<And>b. pt_handler pt \<noteq> HDrain b" using Handler_drain 1(1) by simp
    then show ?thesis using readonly_handler [OF off(2) False] 1(3) [symmetric] by blast
  qed
qed auto

theorem requests_readonly_witness:
  "serve (\<lambda>c. Inr ''new'') 0 (example_admin False) smooth_save 0 (strategy_request StrategyFailover) locked_world =
     (Reply 403 (ApiError (Sentinel ErrReadOnly)), locked_world, False) \<and> refused (Reply 403 (ApiError (Sentinel ErrReadOnly)))"
proof -
  have r: "serve (\<lambda>c. Inr ''new'') 0 (example_admin False) smooth_save 0 (strategy_request StrategyFailover) locked_world =
     (Reply 403 (ApiError (Sentinel ErrReadOnly)), locked_world, False)"
    by (simp only: serve_strategy locked_strategy prod.case)
  have "\<not> as_control (example_admin False) \<and> \<not> mg_allowWrite (w_mgr locked_world)"
    by (simp add: example_admin_def locked_world_def NewManager_def)
  then show ?thesis using requests_readonly [OF r] r by (simp add: strategy_request_def)
qed



text \<open>
  The metrics page never exposes two samples of the same series: on a well formed pool
  the gauges have distinct names and label sets, although two Pi-holes may share endpoint
  labels.
\<close>

lemma gauges_distinct:
  assumes "pool_wf (sy_pool s)"
  shows "distinct (map series (gauges a now s))"
proof -
  let ?us = "Status (sy_pool s)"
  have names: "distinct (map us_Name ?us)" and addrs: "distinct (concat (map (\<lambda>u. map es_Addr (us_Endpoints u)) ?us))"
    using assms unfolding Status_names Status_addrs pool_wf_def wf_upstreams_def by blast+
  show ?thesis
    using upstream_series [OF names] endpoints_series [OF names addrs] gauge_names [of _ ?us]
    unfolding gauges_def by (fastforce simp: series_def)
qed

end
