(* ===== verification/Program.thy ===== *)
theory Program
  imports Admin
begin

text \<open>
  Command \<open>hole-balancer\<close>: what \<open>run\<close> does with its flags, the building of the parts, the
  errors of the components, and the whole program as a machine whose events are the queries of
  clients, the sweeps, the reports of the tracker and the requests to the management
  interface, in any order.
\<close>

section \<open>Helpers of main\<close>

datatype level = LevelDebug | LevelInfo | LevelWarn | LevelError

definition newLogger :: "string \<Rightarrow> string \<Rightarrow> (level \<times> string) result" where
  "newLogger lvl format =
     and_then
       (if lvl = ''debug'' then Inr LevelDebug
        else if lvl = ''info'' then Inr LevelInfo
        else if lvl = ''warn'' then Inr LevelWarn
        else if lvl = ''error'' then Inr LevelError
        else Inl (Errorf ''unknown log level %q'' [lvl]))
       (\<lambda>l. if format = ''json'' \<or> format = ''text'' then Inr (l, format)
            else Inl (Errorf ''unknown log format %q: want text or json'' [format]))"

definition isPermissionError :: "goerr \<Rightarrow> bool" where
  "isPermissionError err \<longleftrightarrow> err_is err ErrPermission \<or> err_is err EACCES \<or> err_is err EPERM"

text \<open>The build settings are the key and value pairs the toolchain recorded, if any.\<close>

fun vcs_settings :: "(string \<times> string) list \<Rightarrow> string \<times> string \<Rightarrow> string \<times> string" where
  "vcs_settings [] (revision, dirty) = (revision, dirty)"
| "vcs_settings ((key, value) # settings) (revision, dirty) =
     vcs_settings settings
       (if key = ''vcs.revision'' then (if 12 < length value then take 12 value else value, dirty)
        else if key = ''vcs.modified'' then (revision, if value = ''true'' then ''-dirty'' else dirty)
        else (revision, dirty))"

definition buildVersion :: "string \<Rightarrow> (string \<times> string) list option \<Rightarrow> string" where
  "buildVersion version info =
     (if version \<noteq> ''dev'' then version
      else case info of
        None \<Rightarrow> version
      | Some settings \<Rightarrow>
          (case vcs_settings settings ([], []) of
             (revision, dirty) \<Rightarrow> if revision = [] then version else version @ ''+'' @ revision @ dirty))"

text \<open>The HTTP client takes a URL and gives the status code, the status line and the body.\<close>

definition runHealthcheck :: "(string \<Rightarrow> (nat \<times> string \<times> string) result) \<Rightarrow> string \<Rightarrow> string result" where
  "runHealthcheck get adminAddr =
     (if adminAddr = [] then Inl (Errorf ''-healthcheck needs admin.listen to be set in the configuration'' [])
      else case SplitHostPort adminAddr of
        None \<Rightarrow> Inl (Errorf ''admin.listen %q: %w'' [adminAddr])
      | Some (host, port) \<Rightarrow>
          let host = (if host = [] \<or> host = ''0.0.0.0'' \<or> host = ''::'' then ''127.0.0.1'' else host) in
          (case get (''http://'' @ JoinHostPort host port @ ''/healthz'') of
             Inl err \<Rightarrow> Inl (Wrapf ''health check: %w'' [] err)
           | Inr (code, status, body) \<Rightarrow>
               let body = take 4096 body in
               if code \<noteq> 200 then Inl (Errorf ''health check returned %s: %s'' [status, TrimSpace body])
               else Inr body))"

section \<open>Starting\<close>

record flags =
  fl_config :: string
  fl_validate :: bool
  fl_version :: bool
  fl_healthcheck :: bool
  fl_format :: string

text \<open>
  The program exits with an error or with some output, it dies in a goroutine it starts, or
  it runs: with the configuration it loaded, the management interface and the world.
\<close>

datatype started = Exits "goerr option" string | Panics | Runs config admin world

definition run_world :: "env \<Rightarrow> (nat \<times> u16) list \<Rightarrow> instant \<Rightarrow> rng \<Rightarrow> string \<Rightarrow> config \<Rightarrow> fs \<Rightarrow> world" where
  "run_world en order now r path cfg fs =
     \<lparr>w_mgr = NewManager cfg path (ad_AllowControl (c_Admin cfg)), w_sys = Bootstrap en cfg order (start_system cfg now r), w_fs = fs\<rparr>"

text \<open>The two goroutines with a ticker survive their start.\<close>

definition loops_start :: "env \<Rightarrow> config \<Rightarrow> system \<Rightarrow> bool" where
  "loops_start en cfg s \<longleftrightarrow> Checker_Run en cfg [] s \<noteq> None \<and> Tracker_Run [] (now_of en s) (sy_tracker s) \<noteq> None"

definition run_start ::
  "(string \<Rightarrow> config \<Rightarrow> config result) \<Rightarrow> (string \<Rightarrow> (nat \<times> string \<times> string) result) \<Rightarrow> string \<Rightarrow> (string \<times> string) list option \<Rightarrow>
     env \<Rightarrow> (nat \<times> u16) list \<Rightarrow> instant \<Rightarrow> rng \<Rightarrow> fs \<Rightarrow> flags \<Rightarrow> started" where
  "run_start decode get version info en order now r fs fl =
     (if fl_version fl then Exits None (buildVersion version info @ newline)
      else case Load decode (fl_config fl) fs of
        Inl err \<Rightarrow> Exits (Some err) []
      | Inr cfg \<Rightarrow>
          if fl_healthcheck fl then
            (case runHealthcheck get (ad_Listen (c_Admin cfg)) of Inl err \<Rightarrow> Exits (Some err) [] | Inr out \<Rightarrow> Exits None out)
          else if fl_validate fl then
            Exits None (fl_config fl @ '': ok ('' @ dec_string (length (c_Upstreams cfg)) @ '' upstreams, strategy '' @ c_Strategy cfg @ '')'' @ newline)
          else case newLogger (lg_Level (c_Log cfg)) (fl_format fl) of
            Inl err \<Rightarrow> Exits (Some err) []
          | Inr _ \<Rightarrow>
              let w = run_world en order now r (fl_config fl) cfg fs in
              if \<not> loops_start en cfg (w_sys w) then Panics
              else Runs cfg (NewAdmin (buildVersion version info) cfg (now_of en (w_sys w))) w)"

section \<open>Stopping\<close>

text \<open>\<open>fail\<close>: the first error is kept. The second component says whether \<open>stop\<close> was called.\<close>

fun run_fail :: "goerr option \<Rightarrow> goerr option \<times> bool \<Rightarrow> goerr option \<times> bool" where
  "run_fail None st = st"
| "run_fail (Some err) (errRet, stopped) = ((if errRet = None then Some err else errRet), True)"

definition run_result :: "goerr option \<Rightarrow> goerr option" where
  "run_result errRet =
     (case errRet of
        Some err \<Rightarrow>
          if isPermissionError err then Some (Wrapf (''%w'' @ newline @ newline @ ''binding port 53 needs privileges. Either run as root, grant the '' @
            ''capability with `setcap cap_net_bind_service=+ep /usr/local/bin/hole-balancer`, or '' @
            ''set listen.udp/listen.tcp to a high port'') [] err)
          else Some err
      | None \<Rightarrow> None)"

section \<open>The whole program\<close>

datatype event =
    Query string bytes
  | SweepDue "(nat \<times> u16) list"
  | ReportDue instant
  | Http save_script instant http_request

datatype emission = Answer "bytes option" | Page response | Logged "summary option" | Quiet

text \<open>A step returns what goes out and the world after it; \<open>None\<close> is a panic.\<close>

fun prog_step ::
  "(config \<Rightarrow> string result) \<Rightarrow> env \<Rightarrow> config \<Rightarrow> admin \<Rightarrow> event \<Rightarrow> world \<Rightarrow> (emission \<times> world) option" where
  "prog_step marshal en cfg a (Query proto req) w =
     map_option (\<lambda>(reply, s). (Answer reply, w\<lparr>w_sys := s\<rparr>)) (Server_Resolve en cfg req proto (w_sys w))"
| "prog_step marshal en cfg a (SweepDue order) w = Some (Quiet, w\<lparr>w_sys := Sweep en cfg order (w_sys w)\<rparr>)"
| "prog_step marshal en cfg a (ReportDue now) w =
     (case Report now (sy_tracker (w_sys w)) of
        (summary, t) \<Rightarrow> Some (Logged summary, w\<lparr>w_sys := (w_sys w)\<lparr>sy_tracker := t\<rparr>\<rparr>))"
| "prog_step marshal en cfg a (Http sv now hq) w =
     (case serve marshal (en_tz en) a sv now hq w of (r, w', _) \<Rightarrow> Some (Page r, w'))"

fun run_events ::
  "(config \<Rightarrow> string result) \<Rightarrow> env \<Rightarrow> config \<Rightarrow> admin \<Rightarrow> event list \<Rightarrow> world \<Rightarrow> (emission list \<times> world) option" where
  "run_events marshal en cfg a [] w = Some ([], w)"
| "run_events marshal en cfg a (ev # evs) w =
     (case prog_step marshal en cfg a ev w of
        None \<Rightarrow> None
      | Some (out, w') \<Rightarrow>
          (case run_events marshal en cfg a evs w' of
             None \<Rightarrow> None
           | Some (outs, w'') \<Rightarrow> Some (out # outs, w'')))"

section \<open>What an event keeps\<close>

text \<open>The two round robin counters, and the parts of the state they index.\<close>

definition counters :: "system \<Rightarrow> nat \<times> nat" where
  "counters s = (unat (p_rr (sy_pool s)), unat (rv_rr (sy_resolver s)))"

definition carried :: "system \<Rightarrow> system \<Rightarrow> bool" where
  "carried s s' \<longleftrightarrow> p_strategy (sy_pool s') = p_strategy (sy_pool s) \<and> p_rr (sy_pool s') = p_rr (sy_pool s) \<and> sy_resolver s' = sy_resolver s"

lemma carried_refl [simp]: "carried s s"
  by (simp add: carried_def)

lemma carried_trans: "carried s s' \<Longrightarrow> carried s' s'' \<Longrightarrow> carried s s''"
  by (simp add: carried_def)

lemma touched_carried:
  assumes "sy_pool s' = (sy_pool s)\<lparr>p_eps := eps\<rparr>" "sy_resolver s' = sy_resolver s"
  shows "carried s s'"
  using assms by (simp add: carried_def)

lemma report_carried:
  "carried s (count_upstream_failure e w (report_query en e ok rtt err (s\<lparr>sy_k := k\<rparr>)))"
  "carried s (count_upstream_response e c (report_query en e ok rtt err (s\<lparr>sy_k := k\<rparr>)))"
  "carried s (count_retry w s)"
proof -
  obtain e' where e: "fst (ReportQuery e ok rtt err (en_now en k) (sy_pool s)) = (sy_pool s)\<lparr>p_eps := (p_eps (sy_pool s))(e := e')\<rparr>"
    using ReportQuery_frame [of e ok rtt err "en_now en k" "sy_pool s"] by blast
  then show "carried s (count_upstream_failure e w (report_query en e ok rtt err (s\<lparr>sy_k := k\<rparr>)))"
    "carried s (count_upstream_response e c (report_query en e ok rtt err (s\<lparr>sy_k := k\<rparr>)))"
    by (simp_all add: carried_def frame_simps now_of_def)
  show "carried s (count_retry w s)" by (simp add: carried_def frame_simps)
qed

lemma attempt_loop_carried:
  "attempt_loop en cfg req proto eps i why lastResp rc s = (res, lastResp', rc', s') \<Longrightarrow> carried s s'"
proof (induction eps arbitrary: i why lastResp rc s)
  case (Cons ep eps)
  define s1 where "s1 = (if 0 < i then count_retry why s else s)"
  have 1: "carried s s1" by (simp add: s1_def report_carried)
  show ?case
  proof (cases "en_ctx en (sy_k s) = None")
    case True
    obtain res' rtt where x: "en_exch en (sy_k s1) proto (e_Addr (ep_of s1 ep)) req (qc_Timeout (c_Query cfg)) = (res', rtt)" by fastforce
    note P = Cons.prems [unfolded attempt_loop.simps Let_def, folded s1_def, unfolded x]
    show ?thesis
    proof (cases res')
      case (Inl err)
      with P True have "attempt_loop en cfg req proto eps (i + 1) (Classify (Some err)) lastResp (rc\<lparr>r_Attempts := int i + 1\<rparr>)
        (count_upstream_failure ep (Classify (Some err)) (report_query en ep False rtt (Some err) (s1\<lparr>sy_k := sy_k s1 + 1\<rparr>))) = (res, lastResp', rc', s')"
        by simp
      from Cons.IH [OF this] show ?thesis by (rule carried_trans [OF carried_trans [OF 1 report_carried(1)]])
    next
      case (Inr resp)
      show ?thesis
      proof (cases "ShouldRetryRCode (c_Query cfg) (resp_rcode resp)")
        case retry: True
        from P [unfolded Inr] True retry have "\<exists>r w lr. attempt_loop en cfg req proto eps (i + 1) w lr (rc\<lparr>r_Attempts := int i + 1\<rparr>)
          (count_upstream_failure ep w (report_query en ep False rtt r (s1\<lparr>sy_k := sy_k s1 + 1\<rparr>))) = (res, lastResp', rc', s')"
          by (simp only: sum.case prod.case if_True if_False simp_thms) blast
        then show ?thesis using Cons.IH carried_trans [OF carried_trans [OF 1 report_carried(1)]] by blast
      next
        case False
        with P [unfolded Inr] True have "s' = count_upstream_response ep (resp_rcode resp) (report_query en ep True rtt None (s1\<lparr>sy_k := sy_k s1 + 1\<rparr>))"
          by simp
        then show ?thesis using carried_trans [OF 1 report_carried(2)] by simp
      qed
    qed
  qed (use Cons.prems in simp)
qed simp

text \<open>A query moves each counter by at most one and leaves the strategy and the servers alone.\<close>

definition moved :: "system \<Rightarrow> system \<Rightarrow> bool" where
  "moved s s' \<longleftrightarrow> p_strategy (sy_pool s') = p_strategy (sy_pool s) \<and> rv_servers (sy_resolver s') = rv_servers (sy_resolver s) \<and>
     p_rr (sy_pool s') \<in> {p_rr (sy_pool s), p_rr (sy_pool s) + 1} \<and> rv_rr (sy_resolver s') \<in> {rv_rr (sy_resolver s), rv_rr (sy_resolver s) + 1}"

lemma resolveViaFallback_moved:
  assumes "resolveViaFallback en req proto rc s = Some (reply, rc', s')"
  shows "sy_pool s' = sy_pool s \<and> rv_servers (sy_resolver s') = rv_servers (sy_resolver s) \<and>
    rv_rr (sy_resolver s') \<in> {rv_rr (sy_resolver s), rv_rr (sy_resolver s) + 1}"
  using assms
  by (auto simp: resolveViaFallback_def Resolver_Resolve_def Let_def split: if_splits option.splits sum.splits prod.splits)

lemma forward_moved:
  assumes "forward en cfg req proto s = Some (reply, s')"
  shows "moved s s'"
proof -
  from assms obtain plan p r where P: "Plan (sy_pool s) (sy_rng s) = Some (plan, p, r)"
    by (auto simp: forward_def Let_def split: option.splits)
  define s1 where "s1 = s\<lparr>sy_pool := p, sy_rng := r\<rparr>"
  have 1: "p_strategy (sy_pool s1) = p_strategy (sy_pool s)" "sy_resolver s1 = sy_resolver s"
    "p_rr (sy_pool s1) \<in> {p_rr (sy_pool s), p_rr (sy_pool s) + 1}"
    using Plan_pool [OF P] by (auto simp: s1_def)
  define rc0 where "rc0 = \<lparr>r_Proto = proto, r_QType = (case ParseQuestion req of Inl _ \<Rightarrow> [] | Inr q \<Rightarrow> TypeString (q_Type q)),
     r_Upstream = [], r_Endpoint = [], r_RCode = [], r_Latency = 0, r_Attempts = 0, r_Fallback = False, r_Failed = False\<rparr>"
  obtain res lastResp rc s2 where
    l: "attempt_loop en cfg req proto (take (attempts_of cfg s1 plan) plan) 0 ''no_attempt'' None rc0 s1 = (res, lastResp, rc, s2)"
    by (metis prod_cases4)
  note 2 = attempt_loop_carried [OF l, unfolded carried_def]
  note F = assms [unfolded forward_def P option.case prod.case Let_def, folded s1_def rc0_def, unfolded l prod.case]
  show ?thesis
  proof (cases res)
    case (Some x)
    with F 1 2 show ?thesis by (auto simp: moved_def frame_simps)
  next
    case None
    from F None obtain fb rc' s3 where v: "resolveViaFallback en req proto rc s2 = Some (fb, rc', s3)"
      by (auto split: option.splits)
    from resolveViaFallback_moved [OF v] 1 2 F None v show ?thesis
      by (cases fb; cases lastResp) (auto simp: moved_def frame_simps)
  qed
qed

lemma Resolve_moved:
  assumes "Server_Resolve en cfg req proto s = Some (reply, s')"
  shows "moved s s'"
proof (cases "\<exists>hdr. ParseHeader req = Inr hdr \<and> \<not> h_QR hdr")
  case True
  then obtain hdr where "ParseHeader req = Inr hdr" "\<not> h_QR hdr" by blast
  from Server_Resolve_forward [OF this, of en cfg proto s] assms obtain m s2 where
    f: "forward en cfg req proto (s\<lparr>sy_metrics := m\<rparr>) = Some (reply, s2)" and s': "sy_pool s' = sy_pool s2" "sy_resolver s' = sy_resolver s2"
    by (auto split: option.splits)
  from forward_moved [OF f] s' show ?thesis by (simp add: moved_def)
next
  case False
  with assms show ?thesis by (auto simp: Server_Resolve_def moved_def Let_def split: sum.splits if_splits)
qed

lemma checks_carried:
  assumes "touches_only f"
  shows "carried s (fold (check_endpoint f en cfg) order s)"
proof (induction order arbitrary: s)
  case (Cons et order)
  obtain e txid where et: "et = (e, txid)" by (cases et)
  from check_endpoint_other [OF assms, of en cfg e txid s] obtain eps
    where "sy_pool (check_endpoint f en cfg et s) = (sy_pool s)\<lparr>p_eps := eps\<rparr>" by (auto simp: et)
  moreover have "sy_resolver (check_endpoint f en cfg et s) = sy_resolver s"
    by (simp add: et check_endpoint_def countCheck_def Let_def frame_simps split: prod.splits)
  ultimately have "carried s (check_endpoint f en cfg et s)" by (rule touched_carried)
  then show ?case using Cons [of "check_endpoint f en cfg et s"] carried_trans by simp
qed simp

lemma observe_carried: "carried s (observe_pool now s)"
  by (simp add: carried_def observe_pool_def)

lemma sweeps_carried: "carried s (Sweep en cfg order s)" "carried s (Bootstrap en cfg order s)"
  using carried_trans [OF checks_carried [OF verdicts_touch_only(1)] observe_carried] carried_trans [OF checks_carried [OF verdicts_touch_only(2)] observe_carried]
  by (simp_all add: Sweep_def Bootstrap_def Let_def)

lemma sweeps_wf:
  assumes "pool_wf (sy_pool s)"
  shows "pool_wf (sy_pool (Sweep en cfg order s)) \<and> pool_entries (sy_pool (Sweep en cfg order s)) = pool_entries (sy_pool s)"
    "pool_wf (sy_pool (Bootstrap en cfg order s)) \<and> pool_entries (sy_pool (Bootstrap en cfg order s)) = pool_entries (sy_pool s)"
  using checks_wf [OF verdicts_touch_only(1) assms] checks_wf [OF verdicts_touch_only(2) assms] assms
  by (simp_all add: Sweep_def Bootstrap_def Let_def)

section \<open>Management requests leave the counters alone\<close>

definition same_counters :: "world \<Rightarrow> world \<Rightarrow> bool" where
  "same_counters w w' \<longleftrightarrow> p_rr (w_pool w') = p_rr (w_pool w) \<and> rv_rr (sy_resolver (w_sys w')) = rv_rr (sy_resolver (w_sys w))"

lemma same_counters_refl [simp]: "same_counters w w"
  by (simp add: same_counters_def)

lemma Add_rr:
  assumes "Add u p = Inr (i, p')"
  shows "p_rr p' = p_rr p"
proof -
  have "p' = snd (append_upstream u p)" using assms by (cases "add_conflict p u (p_upstreams p)") (simp_all add: Add_def)
  then show ?thesis by (simp add: frame_simps)
qed

lemma pool_changes_rr:
  "Remove name p = Inr p' \<Longrightarrow> p_rr p' = p_rr p" "SetStrategy name p = Inr p' \<Longrightarrow> p_rr p' = p_rr p" "p_rr (SetDrained i b p) = p_rr p"
  by (auto simp: Remove_def SetStrategy_def SetDrained_def Let_def split: if_splits)

lemma saveLocked_counters:
  assumes "saveLocked marshal sv rollback w1 = (err, w')" "same_counters w w1" "\<And>f. same_counters w (rollback (w1\<lparr>w_fs := f\<rparr>))"
  shows "same_counters w w'"
  using assms(1)
proof (cases rule: saveLocked_cases)
  case 1
  then show ?thesis using assms(2) by (auto simp: same_counters_def)
next
  case 2
  then show ?thesis using assms(3) by blast
qed

lemma AddUpstream_counters:
  assumes "AddUpstream marshal sv u w = (err, w')"
  shows "same_counters w w'"
proof (cases "w' = w")
  case False
  then obtain clean i p where
    s: "Add clean (w_pool w) = Inr (i, p)"
      "saveLocked marshal sv
         (\<lambda>w. set_cfg (\<lambda>c. c\<lparr>c_Upstreams := butlast (c_Upstreams c)\<rparr>)
            (case Remove (uc_Name clean) (w_pool w) of Inl _ \<Rightarrow> w | Inr p \<Rightarrow> set_pool p w))
         (set_cfg (\<lambda>c. c\<lparr>c_Upstreams := c_Upstreams c @ [clean]\<rparr>) (set_pool p w)) = (err, w')"
    using assms by (auto simp: AddUpstream_def split: option.splits sum.splits prod.splits)
  show ?thesis
    by (rule saveLocked_counters [OF s(2)])
      (auto simp: same_counters_def Add_rr [OF s(1)] pool_changes_rr(1) set_pool_def set_cfg_def w_pool_def split: sum.splits)
qed simp

lemma RemoveUpstream_counters:
  assumes "RemoveUpstream marshal sv name w = (err, w')"
  shows "same_counters w w'"
proof (cases "w' = w")
  case False
  let ?us = "c_Upstreams (w_cfg w)" and ?idx = "cfg_index name (c_Upstreams (w_cfg w))"
  from False assms obtain p err1 w1 where
    s: "Remove name (w_pool w) = Inr p"
      "saveLocked marshal sv
         (\<lambda>w. set_cfg (\<lambda>c. c\<lparr>c_Upstreams := c_Upstreams c @ [?us ! ?idx]\<rparr>)
            (case Add (?us ! ?idx) (w_pool w) of Inl _ \<Rightarrow> w | Inr (_, p) \<Rightarrow> set_pool p w))
         (set_cfg (\<lambda>c. c\<lparr>c_Upstreams := take ?idx ?us @ drop (?idx + 1) ?us\<rparr>) (set_pool p w)) = (err1, w1)"
    and w': "w' = w1 \<or> (\<exists>st. w' = w1\<lparr>w_sys := (w_sys w1)\<lparr>sy_stats := st\<rparr>\<rparr>)"
    by (auto simp: RemoveUpstream_def Let_def split: option.splits sum.splits prod.splits if_splits)
  have "same_counters w w1"
    by (rule saveLocked_counters [OF s(2)])
      (auto simp: same_counters_def pool_changes_rr(1) [OF s(1)] dest!: Add_rr split: sum.splits prod.splits)
  with w' show ?thesis by (auto simp: same_counters_def w_pool_def)
qed simp

lemma SetStrategy_counters:
  assumes "Manager_SetStrategy marshal sv name w = (err, w')"
  shows "same_counters w w'"
proof (cases "w' = w")
  case False
  from False assms obtain p where
    s: "SetStrategy name (w_pool w) = Inr p"
      "saveLocked marshal sv
         (\<lambda>v. set_cfg (\<lambda>c. c\<lparr>c_Strategy := c_Strategy (w_cfg w)\<rparr>)
            (case SetStrategy (c_Strategy (w_cfg w)) (w_pool v) of Inl _ \<Rightarrow> v | Inr p \<Rightarrow> set_pool p v))
         (set_cfg (\<lambda>c. c\<lparr>c_Strategy := name\<rparr>) (set_pool p w)) = (err, w')"
    by (auto simp: Manager_SetStrategy_def Let_def split: option.splits sum.splits prod.splits)
  show ?thesis
    by (rule saveLocked_counters [OF s(2)])
      (auto simp: same_counters_def pool_changes_rr(2) [OF s(1)] dest!: pool_changes_rr(2) split: sum.splits)
qed simp

lemma set_fallback_counters: "same_counters w v \<Longrightarrow> same_counters w (set_fallback b servers v)"
  by (simp add: same_counters_def set_fallback_def SetServers_def)

lemma SetFallback_counters:
  assumes "SetFallback marshal sv b servers w = (err, w')"
  shows "same_counters w w'"
proof (cases "w' = w")
  case False
  from False assms obtain clean where
    s: "saveLocked marshal sv (set_fallback (fc_Enabled (c_Fallback (w_cfg w))) (fc_Servers (c_Fallback (w_cfg w)))) (set_fallback b clean w) = (err, w')"
    by (auto simp: SetFallback_def Let_def split: option.splits sum.splits if_splits)
  have "same_counters w (set_fallback b clean w)" by (rule set_fallback_counters) simp
  then show ?thesis
    by (intro saveLocked_counters [OF s] set_fallback_counters) (simp_all add: same_counters_def)
qed simp

lemma run_handler_counters:
  assumes "run_handler marshal tz a sv now hq name h w = (r, w', now_probe)"
  shows "same_counters w w'"
proof (cases "reads h")
  case True
  then show ?thesis using reads_frame [OF True, of marshal tz a sv now hq name w] assms by simp
next
  case False
  then show ?thesis using assms
    by (cases h)
      (auto simp: handleAddUpstream_def handleRemoveUpstream_def handleSetDrain_def handleSetFallback_def handleSetStrategy_def
        handleResetStats_def handleDrain_def Manager_SetDrained_def Let_def same_counters_def [of w "set_pool _ w"] pool_changes_rr(3)
        intro: AddUpstream_counters RemoveUpstream_counters SetStrategy_counters SetFallback_counters
        split: sum.splits prod.splits option.splits if_splits,
       simp_all add: same_counters_def w_pool_def)
qed

section \<open>Runs\<close>

text \<open>The queries that must be answered: a request whose question, if it says it has one, can be read.\<close>

definition askable :: "bytes \<Rightarrow> bool" where
  "askable req =
     (case ParseHeader req of
        Inl _ \<Rightarrow> False
      | Inr hdr \<Rightarrow> \<not> h_QR hdr \<and> (h_QDCount hdr = 0 \<or> (case ParseQuestion req of Inl _ \<Rightarrow> False | Inr _ \<Rightarrow> True)))"

fun served :: "event \<Rightarrow> emission \<Rightarrow> bool" where
  "served (Query proto req) out = (askable req \<longrightarrow> (\<exists>resp. out = Answer (Some resp) \<and> replies_to req resp))"
| "served (SweepDue order) out = (out = Quiet)"
| "served (ReportDue now) out = (\<exists>summary. out = Logged summary)"
| "served (Http sv now hq) out = (\<exists>r. out = Page r)"

text \<open>The invariant of a run of \<open>n\<close> events.\<close>

definition after :: "nat \<Rightarrow> world \<Rightarrow> bool" where
  "after n w \<longleftrightarrow> agrees w \<and> unat (p_rr (w_pool w)) \<le> n \<and> unat (rv_rr (sy_resolver (w_sys w))) \<le> n"

lemma unat_incr: "unat ((x :: u64) + 1) \<le> Suc (unat x)"
  using mod_less_eq_dividend [of "unat x + 1" "2 ^ 64"] by (simp add: unat_word_ariths)

lemma small_counter:
  assumes "unat (x :: u64) \<le> n" "n < 2 ^ 63"
  shows "uint x < 2 ^ 63"
proof -
  have "uint x = int (unat x)" by (rule uint_nat)
  also have "\<dots> \<le> int n" using assms(1) by (rule of_nat_mono)
  also have "\<dots> < 2 ^ 63" using assms(2) by simp
  finally show ?thesis .
qed

lemma after_steady: "after n w \<Longrightarrow> n < 2 ^ 63 \<Longrightarrow> steady (w_sys w)"
  unfolding after_def agrees_def steady_def w_pool_def using small_counter by blast

lemma after_sys:
  assumes "after n w" "pool_wf (sy_pool s)" "pool_entries (sy_pool s) = pool_entries (w_pool w)" "moved (w_sys w) s"
  shows "after (Suc n) (w\<lparr>w_sys := s\<rparr>)"
proof -
  have "unat (p_rr (sy_pool s)) \<le> Suc n" "unat (rv_rr (sy_resolver s)) \<le> Suc n"
    using assms(1,4) unat_incr [of "p_rr (w_pool w)"] unat_incr [of "rv_rr (sy_resolver (w_sys w))"] by (auto simp: moved_def after_def w_pool_def)
  then show ?thesis using assms by (auto simp: after_def agrees_def moved_def w_pool_def w_cfg_def)
qed

lemma carried_moved: "carried s s' \<Longrightarrow> moved s s'"
  by (simp add: carried_def moved_def)

lemma query_step:
  assumes "en_exch en = Exchange net" "after n w" "n < 2 ^ 63"
  shows "\<exists>reply s. Server_Resolve en cfg req proto (w_sys w) = Some (reply, s) \<and> after (Suc n) (w\<lparr>w_sys := s\<rparr>) \<and>
    served (Query proto req) (Answer reply)"
proof -
  note st = after_steady [OF assms(2,3)]
  from Resolve_defined [OF st] obtain reply s where
    R: "Server_Resolve en cfg req proto (w_sys w) = Some (reply, s)" "pool_wf (sy_pool s)" "pool_entries (sy_pool s) = pool_entries (w_pool w)"
    unfolding w_pool_def by blast
  have "\<exists>resp. reply = Some resp \<and> replies_to req resp" if "askable req"
  proof -
    from that obtain hdr q where "ParseHeader req = Inr hdr" "\<not> h_QR hdr" "h_QDCount hdr = 0 \<or> ParseQuestion req = Inr q"
      by (auto simp: askable_def split: sum.splits)
    from Resolve_answers [OF assms(1) st this, of cfg proto] R(1) show ?thesis by auto
  qed
  with R after_sys [OF assms(2) R(2,3) Resolve_moved [OF R(1)]] show ?thesis by auto
qed

lemma serve_step:
  assumes "after n w" "serve marshal tz a sv now hq w = (r, w', now_probe)"
  shows "after (Suc n) w'"
  using assms(2)
proof (cases rule: serve_cases)
  case (1 pt)
  from run_handler_outcome [OF _ 1(3) [symmetric]] run_handler_counters [OF 1(3) [symmetric]] assms(1) show ?thesis
    by (auto simp: after_def same_counters_def)
next
  case 2
  then show ?thesis using assms(1) by (auto simp: after_def)
qed

lemma prog_step_ok:
  assumes "en_exch en = Exchange net" "after n w" "n < 2 ^ 63"
  shows "\<exists>out w'. prog_step marshal en cfg a ev w = Some (out, w') \<and> after (Suc n) w' \<and> served ev out"
proof (cases ev)
  case (Query proto req)
  from query_step [OF assms, of cfg req proto] obtain reply s where
    "Server_Resolve en cfg req proto (w_sys w) = Some (reply, s)" "after (Suc n) (w\<lparr>w_sys := s\<rparr>)" "served (Query proto req) (Answer reply)" by blast
  then show ?thesis by (simp add: Query)
next
  case (SweepDue order)
  have "pool_wf (sy_pool (w_sys w))" using assms(2) by (simp add: after_def agrees_def w_pool_def)
  from after_sys [OF assms(2) _ _ carried_moved [OF sweeps_carried(1)]] sweeps_wf(1) [OF this] show ?thesis
    by (simp add: SweepDue w_pool_def)
next
  case (ReportDue now)
  obtain summary t where "Report now (sy_tracker (w_sys w)) = (summary, t)" by fastforce
  then show ?thesis using assms(2) by (simp add: ReportDue after_def agrees_def w_pool_def w_cfg_def)
next
  case (Http sv now hq)
  obtain r w' b where s: "serve marshal (en_tz en) a sv now hq w = (r, w', b)" by (metis prod_cases3)
  from serve_step [OF assms(2) s] s show ?thesis by (simp add: Http)
qed

lemma run_events_ok:
  assumes "en_exch en = Exchange net" "after n w" "n + length evs \<le> 2 ^ 63"
  shows "\<exists>outs w'. run_events marshal en cfg a evs w = Some (outs, w') \<and> agrees w' \<and> list_all2 served evs outs"
  using assms(2,3)
proof (induction evs arbitrary: n w)
  case (Cons ev evs)
  from prog_step_ok [OF assms(1) Cons.prems(1), of marshal cfg a ev] Cons.prems(2) obtain out w1 where
    1: "prog_step marshal en cfg a ev w = Some (out, w1)" "after (Suc n) w1" "served ev out" by auto
  from Cons.IH [OF this(2)] Cons.prems(2) obtain outs w2 where
    "run_events marshal en cfg a evs w1 = Some (outs, w2)" "agrees w2" "list_all2 served evs outs" by auto
  with 1 show ?case by simp
qed (simp add: after_def)

section \<open>Starts\<close>

lemma Load_valid: "Load decode path fs = Inr cfg \<Longrightarrow> valid_config cfg \<and> lg_Level (c_Log cfg) \<in> {''debug'', ''info'', ''warn'', ''error''}"
proof -
  assume "Load decode path fs = Inr cfg"
  then obtain c where v: "Validate c = Inr cfg" by (auto simp: Load_def Parse_def split: option.splits sum.splits if_splits)
  then have "contains [''debug'', ''info'', ''warn'', ''error''] (lg_Level (c_Log c))"
    by (simp add: Validate_def fail_if_Inr and_then_Inr del: contains.simps) blast
  with Validate_Inr [OF v] show ?thesis by (auto split: if_splits)
qed

lemma newLogger_ok:
  assumes "lvl \<in> {''debug'', ''info'', ''warn'', ''error''}" "format \<in> {''text'', ''json''}"
  shows "\<exists>l. newLogger lvl format = Inr l"
  using assms by (auto simp: newLogger_def)

lemma run_world_after:
  assumes "valid_config cfg"
  shows "after 0 (run_world en order now r path cfg fs)"
proof -
  let ?w = "\<lparr>w_mgr = NewManager cfg path (ad_AllowControl (c_Admin cfg)), w_sys = start_system cfg now r, w_fs = fs\<rparr>"
  have a: "agrees ?w" by (rule start_agrees [OF New_wf [OF assms]])
  then have wf: "pool_wf (sy_pool (start_system cfg now r))" by (simp add: agrees_def w_pool_def)
  have rr: "p_rr (New cfg) = 0" using New_entries [of cfg] by simp
  from sweeps_wf(2) [OF wf, of en cfg order] sweeps_carried(2) [of "start_system cfg now r" en cfg order] a show ?thesis
    by (auto simp: after_def agrees_def run_world_def w_pool_def w_cfg_def carried_def start_system_def rr NewResolver_def)
qed

lemma Bootstrap_interval: "tk_interval (sy_tracker (Bootstrap en cfg order s)) = tk_interval (sy_tracker s)"
proof -
  have o: "tk_interval (sy_tracker (observe_pool now s)) = tk_interval (sy_tracker s)" for now s
    by (simp add: observe_pool_def Tracker_Observe_def addOutageLocked_def Let_def)
  have w: "tk_interval (sy_tracker (with_change now f s)) = tk_interval (sy_tracker s)" for now f s
    by (simp add: with_change_def on_change_def Let_def o split: prod.splits option.splits)
  have "tk_interval (sy_tracker (fold (check_endpoint f en cfg) order s)) = tk_interval (sy_tracker s)" for f s
    by (induction order arbitrary: s) (simp_all add: check_endpoint_def countCheck_def Let_def w split: prod.splits)
  then show ?thesis by (simp add: Bootstrap_def Let_def o)
qed

text \<open>What becomes of a start with a configuration that loads.\<close>

lemma run_start_loaded:
  assumes "Load decode (fl_config fl) fs = Inr cfg" "\<not> fl_version fl" "\<not> fl_healthcheck fl" "\<not> fl_validate fl" "fl_format fl \<in> {''text'', ''json''}"
  shows "run_start decode get version info en order now r fs fl =
    (if fc_SummaryInterval (c_Fallback cfg) \<le> 0 then Panics
     else Runs cfg (NewAdmin (buildVersion version info) cfg (now_of en (w_sys (run_world en order now r (fl_config fl) cfg fs)))) (run_world en order now r (fl_config fl) cfg fs))"
proof -
  note v = Load_valid [OF assms(1)]
  from newLogger_ok [of "lg_Level (c_Log cfg)" "fl_format fl"] v assms(5) obtain l where "newLogger (lg_Level (c_Log cfg)) (fl_format fl) = Inr l" by blast
  moreover have "0 < hc_Interval (c_Health cfg)" using v by (simp add: valid_config_def)
  moreover have "tk_interval (sy_tracker (w_sys (run_world en order now r (fl_config fl) cfg fs))) = fc_SummaryInterval (c_Fallback cfg)"
    by (simp add: run_world_def Bootstrap_interval start_system_def NewTracker_def)
  ultimately show ?thesis using assms by (simp add: run_start_def loops_start_def Checker_Run_def Tracker_Run_None Let_def)
qed

lemma run_start_Runs:
  assumes "run_start decode get version info en order now r fs fl = Runs cfg a w"
  shows "Load decode (fl_config fl) fs = Inr cfg \<and> w = run_world en order now r (fl_config fl) cfg fs"
  using assms by (auto simp: run_start_def Let_def split: if_splits sum.splits)

text \<open>The probe of a container runtime asks the instance itself, over the handler of its management interface.\<close>

definition healthz_request :: http_request where
  "healthz_request = \<lparr>hq_method = ''GET'', hq_path = [''healthz''], hq_query = (\<lambda>_. []),
     hq_upstream = Inl (Errorf ''EOF'' []), hq_drained = Inl (Errorf ''EOF'' []), hq_fallback = Inl (Errorf ''EOF'' []), hq_strategy = Inl (Errorf ''EOF'' [])\<rparr>"

fun plain_reply :: "response \<Rightarrow> (nat \<times> string \<times> string) result" where
  "plain_reply (Reply code (Plain body)) = Inr (code, dec_string code, body)"
| "plain_reply _ = Inl (Errorf ''no body'' [])"

lemma serve_healthz: "serve marshal tz a sv now healthz_request w = (handleHealthz (w_sys w), w, False)"
  by (simp add: serve_def healthz_request_def Handler_def apiRoutes_def path_matches_def method_matches_def Let_def)

section \<open>An example start\<close>

definition home_flags :: flags where
  "home_flags = \<lparr>fl_config = ''/etc/config.yaml'', fl_validate = False, fl_version = False, fl_healthcheck = False, fl_format = ''text''\<rparr>"

definition home_decode :: "string \<Rightarrow> config \<Rightarrow> config result" where
  "home_decode doc c = Inr home_config"

lemma home_loads: "\<exists>cfg. Load home_decode ''/etc/config.yaml'' example_fs = Inr cfg \<and> 0 < fc_SummaryInterval (c_Fallback cfg)"
proof -
  from home_valid obtain cfg where v: "Validate home_config = Inr cfg" by blast
  have "fc_SummaryInterval (c_Fallback cfg) = fc_SummaryInterval (c_Fallback home_config)"
    using Validate_Inr [OF v] by (auto simp: validate_fallback_def fail_if_Inr and_then_Inr dest!: sym [of _ "c_Fallback cfg"] split: if_splits)
  then have "0 < fc_SummaryInterval (c_Fallback cfg)" by (simp add: home_config_def Default_def second_def)
  moreover have "Load home_decode ''/etc/config.yaml'' example_fs = Inr cfg"
    using v by (simp add: Load_def Parse_def home_decode_def example_fs_def)
  ultimately show ?thesis by blast
qed

lemma home_runs: "\<exists>cfg a w. run_start home_decode get version info en order now r example_fs home_flags = Runs cfg a w"
proof -
  from home_loads obtain cfg where "Load home_decode (fl_config home_flags) example_fs = Inr cfg" "0 < fc_SummaryInterval (c_Fallback cfg)"
    by (auto simp: home_flags_def)
  from run_start_loaded [OF this(1), where get = get and version = version and info = info and en = en and order = order and now = now and r = r] this(2)
  show ?thesis by (auto simp: home_flags_def)
qed

lemma root_askable: "askable root_request"
  using root_request_header by (auto simp: askable_def)

lemma pair_answers: "\<exists>u \<in> set (p_upstreams (pair_pool StrategyFailover)). Upstream_Healthy (pair_pool StrategyFailover) u \<and> \<not> Drained (pair_pool StrategyFailover) u"
  using pair_pool_eval [of StrategyFailover] by (simp add: Upstream_Healthy_def Healthy_def Drained_def)

text \<open>
  With the fallback disabled nothing looks at its summary interval, but the tracker is started
  all the same: zero makes it panic.
\<close>

lemma disabled_summary_panics:
  "\<exists>cfg. Validate (home_config\<lparr>c_Fallback := (c_Fallback home_config)\<lparr>fc_Enabled := False, fc_SummaryInterval := 0\<rparr>\<rparr>) = Inr cfg \<and>
     run_start (\<lambda>doc c. Inr (home_config\<lparr>c_Fallback := (c_Fallback home_config)\<lparr>fc_Enabled := False, fc_SummaryInterval := 0\<rparr>\<rparr>))
       get version info en order now r example_fs home_flags = Panics"
proof -
  let ?f = "(c_Fallback home_config)\<lparr>fc_Enabled := False, fc_SummaryInterval := 0\<rparr>"
  let ?c = "home_config\<lparr>c_Fallback := ?f\<rparr>"
  from home_valid obtain c where "Validate home_config = Inr c" by blast
  then have "\<exists>cfg. Validate ?c = Inr cfg" by (simp add: Validate_def fail_if_Inr and_then_Inr validate_fallback_def del: contains.simps) blast
  then obtain cfg where v: "Validate ?c = Inr cfg" by blast
  then have "c_Fallback cfg = ?f" using Validate_Inr [OF v] by (simp add: validate_fallback_def)
  moreover have L: "Load (\<lambda>doc c. Inr ?c) (fl_config home_flags) example_fs = Inr cfg" using v by (simp add: Load_def Parse_def home_flags_def example_fs_def)
  ultimately show ?thesis
    using v run_start_loaded [OF L, where get = get and version = version and info = info and en = en and order = order and now = now and r = r]
    by (simp add: home_flags_def)
qed

section \<open>Properties\<close>

text \<open>
  C1. The program never panics and never leaves a question unanswered. From any start, through
  any sequence of up to \<open>2 ^ 63\<close> queries, health sweeps, reports and management requests, in
  any order, with any behaviour of the network and of the disk: every event is handled, every
  query with a readable question gets a DNS response with its transaction id, and the
  configuration describes what is running at the end.
\<close>

theorem program_serves:
  assumes "run_start decode get version info en order now r fs fl = Runs cfg a w"
    and "en_exch en = Exchange net" "length evs \<le> 2 ^ 63"
  shows "\<exists>outs w'. run_events marshal en cfg a evs w = Some (outs, w') \<and> agrees w' \<and> list_all2 served evs outs"
proof -
  from run_start_Runs [OF assms(1)] have L: "Load decode (fl_config fl) fs = Inr cfg" and w: "w = run_world en order now r (fl_config fl) cfg fs"
    by simp_all
  from Load_valid [OF L] have "after 0 w" unfolding w by (intro run_world_after) blast
  from run_events_ok [OF assms(2) this] assms(3) show ?thesis by simp
qed

theorem program_serves_witness:
  "\<exists>cfg a w outs w'. run_start home_decode (\<lambda>_. Inr (200, [], [])) ''dev'' None flaky [] 0 [] example_fs home_flags = Runs cfg a w \<and>
     run_events (\<lambda>c. Inr ''new'') flaky cfg a
       [Query ProtoUDP root_request, Http stuck_save 0 (strategy_request StrategyFailover), Query ProtoUDP root_request] w = Some (outs, w') \<and>
     (\<exists>resp. outs ! 2 = Answer (Some resp) \<and> replies_to root_request resp)"
proof -
  from home_runs obtain cfg a w where r: "run_start home_decode (\<lambda>_. Inr (200, [], [])) ''dev'' None flaky [] 0 [] example_fs home_flags = Runs cfg a w" by blast
  let ?evs = "[Query ProtoUDP root_request, Http stuck_save 0 (strategy_request StrategyFailover), Query ProtoUDP root_request]"
  from program_serves [OF r, of flaky_net ?evs "\<lambda>c. Inr ''new''"] obtain outs w' where
    o: "run_events (\<lambda>c. Inr ''new'') flaky cfg a ?evs w = Some (outs, w')" and "list_all2 served ?evs outs"
    by (auto simp: flaky_def)
  from list_all2_nthD [OF this(2), of 2] have "\<exists>resp. outs ! 2 = Answer (Some resp) \<and> replies_to root_request resp" by (simp add: root_askable)
  with r o show ?thesis by blast
qed

text \<open>
  C39. The flag \<open>-validate\<close> predicts the start: it succeeds on exactly the files the program
  would go on with, and the program then runs, except that a file that disables the fallback
  and sets its summary interval to zero or less makes it panic.
\<close>

theorem validate_predicts_start:
  assumes "\<not> fl_version fl" "\<not> fl_healthcheck fl" "\<not> fl_validate fl" "fl_format fl \<in> {''text'', ''json''}"
  shows "(\<exists>out. run_start decode get version info en order now r fs (fl\<lparr>fl_validate := True\<rparr>) = Exits None out) \<longleftrightarrow>
      (case run_start decode get version info en order now r fs fl of
         Exits e out \<Rightarrow> False
       | Panics \<Rightarrow> \<exists>cfg. Load decode (fl_config fl) fs = Inr cfg \<and> \<not> fc_Enabled (c_Fallback cfg) \<and> fc_SummaryInterval (c_Fallback cfg) \<le> 0
       | Runs cfg a w \<Rightarrow> Load decode (fl_config fl) fs = Inr cfg)"
proof (cases "Load decode (fl_config fl) fs")
  case (Inl e)
  then show ?thesis using assms by (simp add: run_start_def)
next
  case (Inr cfg)
  have "\<exists>out. run_start decode get version info en order now r fs (fl\<lparr>fl_validate := True\<rparr>) = Exits None out"
    using Inr assms by (simp add: run_start_def)
  moreover have "fc_SummaryInterval (c_Fallback cfg) \<le> 0 \<Longrightarrow> \<not> fc_Enabled (c_Fallback cfg)"
    using Load_valid [OF Inr] by (auto simp: valid_config_def)
  ultimately show ?thesis using Inr run_start_loaded [OF Inr assms(1-3,4)] by simp
qed

theorem validate_predicts_start_witness:
  "\<exists>out. run_start home_decode (\<lambda>_. Inr (200, [], [])) ''dev'' None flaky [] 0 [] example_fs (home_flags\<lparr>fl_validate := True\<rparr>) = Exits None out"
proof -
  from home_runs obtain cfg a w where r: "run_start home_decode (\<lambda>_. Inr (200, [], [])) ''dev'' None flaky [] 0 [] example_fs home_flags = Runs cfg a w" by blast
  from validate_predicts_start [of home_flags home_decode "\<lambda>_. Inr (200, [], [])" "''dev''" None flaky "[]" 0 "[]" example_fs] r run_start_Runs [OF r]
  show ?thesis by (simp add: home_flags_def)
qed



end
