(* ===== verification/Interleave.thy ===== *)
theory Interleave
  imports Program
begin

text \<open>
  Queries that overlap. \<open>Proxy\<close> handles a query in one step; here the goroutine of a query is
  cut at the points where it touches shared state: the plan, the number of attempts, every
  exchange, every report, the two looks at the public resolvers, the statistics at the end.
  Between two of its turns other queries, probes and management requests may do anything.
\<close>

section \<open>The turns of one query\<close>

text \<open>
  Where the goroutine stands. \<open>Trying\<close> and \<open>Judging\<close> are the top of the loop over the attempts
  and the point after its exchange, \<open>Leaving\<close> and \<open>Entering\<close> the check of \<open>resolveViaFallback\<close>
  and the second look at the list of servers in \<open>Resolver.Resolve\<close>, \<open>Asking\<close> the top of its
  loop, \<open>Failing\<close> the point where every server has failed, \<open>Filing\<close> the deferred call.
\<close>

datatype progress =
    Arrived
  | Planned stat_record "nat list"
  | Trying "nat list" nat string "bytes option" stat_record
  | Judging nat "bytes result" duration "nat list" nat "bytes option" stat_record
  | Leaving "bytes option" stat_record
  | Entering "bytes option" stat_record
  | Asking "string list" "bytes option" stat_record
  | Failing "bytes option" stat_record
  | Filing "bytes option" stat_record
  | Done "bytes option"

record flight =
  fq_req :: bytes
  fq_proto :: string
  fq_start :: instant
  fq_at :: progress

definition new_flight :: "bytes \<Rightarrow> string \<Rightarrow> flight" where
  "new_flight req proto = \<lparr>fq_req = req, fq_proto = proto, fq_start = 0, fq_at = Arrived\<rparr>"

definition arrive_turn :: "env \<Rightarrow> bytes \<Rightarrow> string \<Rightarrow> system \<Rightarrow> (progress \<times> system) option" where
  "arrive_turn en req proto s =
     (let m = sy_metrics s;
          s1 = s\<lparr>sy_metrics := m\<lparr>m_Queries := Counter_Inc [\<lparr>lb_Name = ''proto'', lb_Value = proto\<rparr>] (m_Queries m)\<rparr>\<rparr>
      in case ParseHeader req of
           Inl _ \<Rightarrow> Some (Done None, s1)
         | Inr hdr \<Rightarrow>
             if h_QR hdr then Some (Done None, s1)
             else
               let rc0 = \<lparr>r_Proto = proto, r_QType = (case ParseQuestion req of Inl _ \<Rightarrow> [] | Inr q \<Rightarrow> TypeString (q_Type q)),
                          r_Upstream = [], r_Endpoint = [], r_RCode = [], r_Latency = 0, r_Attempts = 0, r_Fallback = False, r_Failed = False\<rparr>
               in map_option (\<lambda>(plan, p, r). (Planned rc0 plan, s1\<lparr>sy_pool := p, sy_rng := r\<rparr>)) (Plan (sy_pool s1) (sy_rng s1)))"

definition judge_turn ::
  "env \<Rightarrow> config \<Rightarrow> nat \<Rightarrow> bytes result \<Rightarrow> duration \<Rightarrow> nat list \<Rightarrow> nat \<Rightarrow> bytes option \<Rightarrow> stat_record \<Rightarrow> system \<Rightarrow> progress \<times> system" where
  "judge_turn en cfg ep res rtt eps i lastResp rc s =
     (case res of
        Inl err \<Rightarrow>
          let why = Classify (Some err)
          in (Trying eps (i + 1) why lastResp rc, count_upstream_failure ep why (report_query en ep False rtt (Some err) s))
      | Inr resp \<Rightarrow>
          let code = resp_rcode resp in
          if ShouldRetryRCode (c_Query cfg) code then
            let why = ''rcode_'' @ RCode_String code
            in (Trying eps (i + 1) why (Some resp) rc,
                count_upstream_failure ep why (report_query en ep False rtt (Some (Errorf ''upstream returned %s'' [RCode_String code])) s))
          else
            let s2 = count_upstream_response ep code (report_query en ep True rtt None s)
            in (Filing (Some resp) (rc\<lparr>r_Upstream := upstream_name s2 ep, r_Endpoint := e_Name (ep_of s2 ep), r_RCode := RCode_String code\<rparr>), s2))"

definition enter_turn :: "env \<Rightarrow> bytes option \<Rightarrow> stat_record \<Rightarrow> system \<Rightarrow> (progress \<times> system) option" where
  "enter_turn en lastResp rc s =
     (let r = sy_resolver s in
      if rv_servers r = [] then Some (Failing lastResp rc, s)
      else let r' = r\<lparr>rv_rr := rv_rr r + 1\<rparr>; s' = s\<lparr>sy_resolver := r'\<rparr> in
        case rotate_by (int_of_u64 (rv_rr r' - 1)) (rv_servers r) of
          None \<Rightarrow> if en_ctx en (sy_k s) \<noteq> None then Some (Failing lastResp rc, s') else None
        | Some order \<Rightarrow> Some (Asking order lastResp rc, s'))"

definition ask_turn :: "env \<Rightarrow> bytes \<Rightarrow> string \<Rightarrow> string \<Rightarrow> string list \<Rightarrow> bytes option \<Rightarrow> stat_record \<Rightarrow> system \<Rightarrow> progress \<times> system" where
  "ask_turn en req proto server rest lastResp rc s =
     (let r = sy_resolver s; counted = (\<lambda>ok m. s\<lparr>sy_k := sy_k s + 1, sy_tracker := RecordQuery server ok (sy_tracker s), sy_metrics := m\<rparr>) in
      if en_ctx en (sy_k s) \<noteq> None then (Failing lastResp rc, s)
      else case fst (en_exch en (sy_k s) proto server req (rv_timeout r)) of
        Inl err \<Rightarrow> (Asking rest lastResp rc, counted False (count_failure server (Classify (Some err)) (sy_metrics s)))
      | Inr resp \<Rightarrow>
          let code = resp_rcode resp in
          if rv_retry r code \<and> rest \<noteq> [] then
            (Asking rest lastResp rc, counted False (count_failure server (''rcode_'' @ RCode_String code) (sy_metrics s)))
          else
            (Filing (Some resp) (rc\<lparr>r_Fallback := True, r_Upstream := [], r_Endpoint := server, r_RCode := RCode_String code\<rparr>),
             counted True (count_response server code (sy_metrics s))))"

definition fail_turn :: "bytes \<Rightarrow> bytes option \<Rightarrow> stat_record \<Rightarrow> system \<Rightarrow> progress \<times> system" where
  "fail_turn req lastResp rc s =
     (let rc' = rc\<lparr>r_Failed := True\<rparr>;
          s' = s\<lparr>sy_metrics := (sy_metrics s)\<lparr>m_Servfails := Counter_Inc [] (m_Servfails (sy_metrics s))\<rparr>\<rparr>
      in case lastResp of
           Some resp \<Rightarrow> (Filing (Some resp) (case ParseHeader resp of Inl _ \<Rightarrow> rc' | Inr h \<Rightarrow> rc'\<lparr>r_RCode := RCode_String (h_RCode h)\<rparr>), s')
         | None \<Rightarrow> (Filing (ErrorResponse req RCodeServFail) (rc'\<lparr>r_RCode := RCode_String RCodeServFail\<rparr>), s'))"

definition file_turn :: "env \<Rightarrow> instant \<Rightarrow> bytes option \<Rightarrow> stat_record \<Rightarrow> system \<Rightarrow> progress \<times> system" where
  "file_turn en start reply rc s =
     (let s1 = file_record en start rc s; m = sy_metrics s1
      in (Done reply, s1\<lparr>sy_metrics := m\<lparr>m_Duration := Histogram_Observe (Seconds (now_of en s1 - start)) (m_Duration m)\<rparr>\<rparr>))"

text \<open>One turn; \<open>None\<close> is a panic. A query that is done stays so.\<close>

fun turn_of :: "env \<Rightarrow> config \<Rightarrow> bytes \<Rightarrow> string \<Rightarrow> instant \<Rightarrow> progress \<Rightarrow> system \<Rightarrow> (progress \<times> system) option" where
  "turn_of en cfg req proto start Arrived s = arrive_turn en req proto s"
| "turn_of en cfg req proto start (Planned rc plan) s =
     Some (Trying (take (attempts_of cfg s plan) plan) 0 ''no_attempt'' None rc, s)"
| "turn_of en cfg req proto start (Trying [] i why lastResp rc) s = Some (Leaving lastResp rc, s)"
| "turn_of en cfg req proto start (Trying (ep # eps) i why lastResp rc) s =
     (if en_ctx en (sy_k s) \<noteq> None then Some (Leaving lastResp rc, s)
      else let s1 = (if 0 < i then count_retry why s else s) in
        case en_exch en (sy_k s1) proto (e_Addr (ep_of s1 ep)) req (qc_Timeout (c_Query cfg)) of
          (res, rtt) \<Rightarrow> Some (Judging ep res rtt eps i lastResp (rc\<lparr>r_Attempts := int i + 1\<rparr>), s1\<lparr>sy_k := sy_k s1 + 1\<rparr>))"
| "turn_of en cfg req proto start (Judging ep res rtt eps i lastResp rc) s = Some (judge_turn en cfg ep res rtt eps i lastResp rc s)"
| "turn_of en cfg req proto start (Leaving lastResp rc) s =
     Some (if Enabled (sy_resolver s) then Entering lastResp rc else Failing lastResp rc, s)"
| "turn_of en cfg req proto start (Entering lastResp rc) s = enter_turn en lastResp rc s"
| "turn_of en cfg req proto start (Asking [] lastResp rc) s = Some (Failing lastResp rc, s)"
| "turn_of en cfg req proto start (Asking (server # rest) lastResp rc) s = Some (ask_turn en req proto server rest lastResp rc s)"
| "turn_of en cfg req proto start (Failing lastResp rc) s = Some (fail_turn req lastResp rc s)"
| "turn_of en cfg req proto start (Filing reply rc) s = Some (file_turn en start reply rc s)"
| "turn_of en cfg req proto start (Done reply) s = Some (Done reply, s)"

definition advance :: "env \<Rightarrow> config \<Rightarrow> flight \<Rightarrow> system \<Rightarrow> (flight \<times> system) option" where
  "advance en cfg f s =
     (let start = (if fq_at f = Arrived then now_of en s else fq_start f)
      in map_option (\<lambda>(p, s'). (f\<lparr>fq_start := start, fq_at := p\<rparr>, s')) (turn_of en cfg (fq_req f) (fq_proto f) start (fq_at f) s))"

section \<open>A query on its own\<close>

fun alone :: "env \<Rightarrow> config \<Rightarrow> nat \<Rightarrow> flight \<Rightarrow> system \<Rightarrow> (flight \<times> system) option" where
  "alone en cfg 0 f s = Some (f, s)"
| "alone en cfg (Suc n) f s =
     (case advance en cfg f s of
        None \<Rightarrow> None
      | Some (f', s') \<Rightarrow> alone en cfg n f' s')"

definition reaches :: "env \<Rightarrow> config \<Rightarrow> flight \<Rightarrow> system \<Rightarrow> flight \<Rightarrow> system \<Rightarrow> bool" where
  "reaches en cfg f s f' s' \<longleftrightarrow> (\<exists>m. \<forall>n. alone en cfg (m + n) f s = alone en cfg n f' s')"

lemma reaches_refl [simp]: "reaches en cfg f s f s"
  unfolding reaches_def by (rule exI [of _ 0]) simp

lemma reaches_trans: "reaches en cfg f s f' s' \<Longrightarrow> reaches en cfg f' s' f'' s'' \<Longrightarrow> reaches en cfg f s f'' s''"
  unfolding reaches_def by (metis add.assoc)

lemma reaches_step: "advance en cfg f s = Some (f', s') \<Longrightarrow> reaches en cfg f' s' f'' s'' \<Longrightarrow> reaches en cfg f s f'' s''"
  unfolding reaches_def by (metis add_Suc alone.simps(2) option.case(2) prod.case)

lemma advance_at:
  assumes "p \<noteq> Arrived"
  shows "advance en cfg (f\<lparr>fq_at := p\<rparr>) s =
    map_option (\<lambda>(p', s'). (f\<lparr>fq_at := p'\<rparr>, s')) (turn_of en cfg (fq_req f) (fq_proto f) (fq_start f) p s)"
  using assms by (simp add: advance_def Let_def)

lemma reaches_turn:
  assumes "p \<noteq> Arrived" "turn_of en cfg (fq_req f) (fq_proto f) (fq_start f) p s = Some (p', s')"
    "reaches en cfg (f\<lparr>fq_at := p'\<rparr>) s' f'' s''"
  shows "reaches en cfg (f\<lparr>fq_at := p\<rparr>) s f'' s''"
  by (rule reaches_step [OF _ assms(3)]) (simp add: advance_at [OF assms(1)] assms(2))

lemma reaches_last:
  assumes "p \<noteq> Arrived" "turn_of en cfg (fq_req f) (fq_proto f) (fq_start f) p s = Some (p', s')"
  shows "reaches en cfg (f\<lparr>fq_at := p\<rparr>) s (f\<lparr>fq_at := p'\<rparr>) s'"
  using reaches_turn [OF assms reaches_refl] .

text \<open>The two loops, turn by turn.\<close>

lemma trying_reaches:
  assumes "attempt_loop en cfg (fq_req f) (fq_proto f) eps i why lastResp rc s = (res, lastResp', rc', s')"
  shows "reaches en cfg (f\<lparr>fq_at := Trying eps i why lastResp rc\<rparr>) s
    (f\<lparr>fq_at := (case res of None \<Rightarrow> Leaving lastResp' rc' | Some resp \<Rightarrow> Filing (Some resp) rc')\<rparr>) s'"
  using assms
proof (induction eps arbitrary: i why lastResp rc s)
  case Nil
  then have "res = None" "lastResp' = lastResp" "rc' = rc" "s' = s" by simp_all
  then show ?case by (simp add: reaches_last)
next
  case (Cons ep eps)
  show ?case
  proof (cases "en_ctx en (sy_k s) = None")
    case False
    then have "res = None" "lastResp' = lastResp" "rc' = rc" "s' = s" using Cons.prems by simp_all
    then show ?thesis using False by (simp add: reaches_last)
  next
    case True
    define s1 where "s1 = (if 0 < i then count_retry why s else s)"
    obtain out rtt where x: "en_exch en (sy_k s1) (fq_proto f) (e_Addr (ep_of s1 ep)) (fq_req f) (qc_Timeout (c_Query cfg)) = (out, rtt)" by fastforce
    let ?s2 = "s1\<lparr>sy_k := sy_k s1 + 1\<rparr>" and ?rc = "rc\<lparr>r_Attempts := int i + 1\<rparr>"
    note P = Cons.prems [unfolded attempt_loop.simps Let_def, folded s1_def, unfolded x]
    have 1: "turn_of en cfg (fq_req f) (fq_proto f) (fq_start f) (Trying (ep # eps) i why lastResp rc) s = Some (Judging ep out rtt eps i lastResp ?rc, ?s2)"
      using True x by (simp add: s1_def Let_def)
    obtain p s3 where j: "judge_turn en cfg ep out rtt eps i lastResp ?rc ?s2 = (p, s3)" by fastforce
    have "reaches en cfg (f\<lparr>fq_at := p\<rparr>) s3 (f\<lparr>fq_at := (case res of None \<Rightarrow> Leaving lastResp' rc' | Some resp \<Rightarrow> Filing (Some resp) rc')\<rparr>) s'"
    proof (cases out)
      case (Inl err)
      then show ?thesis using j P True Cons.IH by (auto simp: judge_turn_def Let_def)
    next
      case (Inr resp)
      then show ?thesis using j P True Cons.IH
        by (cases "ShouldRetryRCode (c_Query cfg) (resp_rcode resp)") (auto simp: judge_turn_def Let_def)
    qed
    then have "reaches en cfg (f\<lparr>fq_at := Judging ep out rtt eps i lastResp ?rc\<rparr>) ?s2
        (f\<lparr>fq_at := (case res of None \<Rightarrow> Leaving lastResp' rc' | Some resp \<Rightarrow> Filing (Some resp) rc')\<rparr>) s'"
      by (rule reaches_turn [rotated 2]) (simp_all add: j [unfolded Suc_eq_plus1 [symmetric]])
    then show ?thesis by (rule reaches_turn [rotated 2, OF _ _ 1]) simp
  qed
qed

definition fallback_end :: "bytes option \<Rightarrow> stat_record \<Rightarrow> (bytes \<times> string) result \<Rightarrow> progress" where
  "fallback_end lastResp rc res =
     (case res of
        Inl _ \<Rightarrow> Failing lastResp rc
      | Inr (resp, server) \<Rightarrow>
          Filing (Some resp) (rc\<lparr>r_Fallback := True, r_Upstream := [], r_Endpoint := server, r_RCode := RCode_String (resp_rcode resp)\<rparr>))"

lemma asking_reaches:
  assumes "try_servers (en_exch en) (en_ctx en) r (fq_req f) (fq_proto f) order lastErr (sy_k s) (sy_tracker s) (sy_metrics s) = (res, k', t', m')"
    and "rv_timeout (sy_resolver s) = rv_timeout r" "rv_retry (sy_resolver s) = rv_retry r"
  shows "reaches en cfg (f\<lparr>fq_at := Asking order lastResp rc\<rparr>) s (f\<lparr>fq_at := fallback_end lastResp rc res\<rparr>) (s\<lparr>sy_k := k', sy_tracker := t', sy_metrics := m'\<rparr>)"
  using assms
proof (induction order arbitrary: lastErr s)
  case Nil
  then obtain e where "res = Inl e" "k' = sy_k s" "t' = sy_tracker s" "m' = sy_metrics s" by auto
  then show ?case by (simp add: fallback_end_def reaches_last)
next
  case (Cons server rest)
  show ?case
  proof (cases "en_ctx en (sy_k s)")
    case (Some e)
    then have "res = Inl e" "k' = sy_k s" "t' = sy_tracker s" "m' = sy_metrics s" using Cons.prems(1) by simp_all
    then show ?thesis using Some by (simp add: fallback_end_def reaches_last ask_turn_def Let_def)
  next
    case None
    show ?thesis
    proof (cases "fst (en_exch en (sy_k s) (fq_proto f) server (fq_req f) (rv_timeout r))")
      case (Inl err)
      let ?s = "s\<lparr>sy_k := sy_k s + 1, sy_tracker := RecordQuery server False (sy_tracker s),
        sy_metrics := count_failure server (Classify (Some err)) (sy_metrics s)\<rparr>"
      have "turn_of en cfg (fq_req f) (fq_proto f) (fq_start f) (Asking (server # rest) lastResp rc) s = Some (Asking rest lastResp rc, ?s)"
        using Inl None Cons.prems(2,3) by (simp add: ask_turn_def Let_def)
      moreover have "reaches en cfg (f\<lparr>fq_at := Asking rest lastResp rc\<rparr>) ?s (f\<lparr>fq_at := fallback_end lastResp rc res\<rparr>)
          (?s\<lparr>sy_k := k', sy_tracker := t', sy_metrics := m'\<rparr>)"
        using Cons.prems Inl None by (intro Cons.IH [where lastErr = "Some err"]) simp_all
      ultimately show ?thesis by (intro reaches_turn [where p = "Asking (server # rest) lastResp rc"]) simp_all
    next
      case (Inr resp)
      show ?thesis
      proof (cases "rv_retry r (resp_rcode resp) \<and> rest \<noteq> []")
        case True
        let ?s = "s\<lparr>sy_k := sy_k s + 1, sy_tracker := RecordQuery server False (sy_tracker s),
          sy_metrics := count_failure server (''rcode_'' @ RCode_String (resp_rcode resp)) (sy_metrics s)\<rparr>"
        have "turn_of en cfg (fq_req f) (fq_proto f) (fq_start f) (Asking (server # rest) lastResp rc) s = Some (Asking rest lastResp rc, ?s)"
          using True Inr None Cons.prems(2,3) by (simp add: ask_turn_def Let_def)
        moreover have "reaches en cfg (f\<lparr>fq_at := Asking rest lastResp rc\<rparr>) ?s (f\<lparr>fq_at := fallback_end lastResp rc res\<rparr>)
            (?s\<lparr>sy_k := k', sy_tracker := t', sy_metrics := m'\<rparr>)"
          using Cons.prems True Inr None by (intro Cons.IH [where lastErr = "Some (Errorf ''fallback resolver %s returned %s'' [server, RCode_String (resp_rcode resp)])"]) (simp_all add: Let_def)
        ultimately show ?thesis by (intro reaches_turn [where p = "Asking (server # rest) lastResp rc"]) simp_all
      next
        case False
        let ?s = "s\<lparr>sy_k := sy_k s + 1, sy_tracker := RecordQuery server True (sy_tracker s),
          sy_metrics := count_response server (resp_rcode resp) (sy_metrics s)\<rparr>"
        have "res = Inr (resp, server)" "s\<lparr>sy_k := k', sy_tracker := t', sy_metrics := m'\<rparr> = ?s"
          using False Cons.prems Inr None by (auto simp: Let_def split: if_splits)
        moreover have "turn_of en cfg (fq_req f) (fq_proto f) (fq_start f) (Asking (server # rest) lastResp rc) s = Some (fallback_end lastResp rc (Inr (resp, server)), ?s)"
          using False Cons.prems(2,3) Inr None by (auto simp: ask_turn_def fallback_end_def Let_def)
        ultimately show ?thesis using reaches_last [where p = "Asking (server # rest) lastResp rc"] by simp
      qed
    qed
  qed
qed

text \<open>A panic, and what it takes to run into one.\<close>

definition crashes :: "env \<Rightarrow> config \<Rightarrow> flight \<Rightarrow> system \<Rightarrow> bool" where
  "crashes en cfg f s \<longleftrightarrow> (\<exists>m. alone en cfg m f s = None)"

lemma crashes_reaches: "reaches en cfg f s f' s' \<Longrightarrow> crashes en cfg f' s' \<Longrightarrow> crashes en cfg f s"
  unfolding reaches_def crashes_def by metis

lemma crashes_now: "advance en cfg f s = None \<Longrightarrow> crashes en cfg f s"
  unfolding crashes_def by (rule exI [of _ 1]) simp

lemma entering_turn:
  assumes "rv_servers (sy_resolver s) \<noteq> []"
    and "Resolver_Resolve (en_exch en) (en_ctx en) (fq_req f) (fq_proto f) (sy_resolver s) (sy_k s) (sy_tracker s) (sy_metrics s) = Some (res, r', k', t', m')"
  shows "reaches en cfg (f\<lparr>fq_at := Entering lastResp rc\<rparr>) s (f\<lparr>fq_at := fallback_end lastResp rc res\<rparr>)
    (s\<lparr>sy_resolver := r', sy_k := k', sy_tracker := t', sy_metrics := m'\<rparr>)"
proof (cases "rotate_by (int_of_u64 (rv_rr (sy_resolver s))) (rv_servers (sy_resolver s))")
  case None
  let ?r = "(sy_resolver s)\<lparr>rv_rr := rv_rr (sy_resolver s) + 1\<rparr>"
  from None assms obtain e where c: "en_ctx en (sy_k s) = Some e" "res = Inl e" "r' = ?r" "k' = sy_k s" "t' = sy_tracker s" "m' = sy_metrics s"
    by (auto simp: Resolver_Resolve_def Enabled_def Let_def split: option.splits)
  have "turn_of en cfg (fq_req f) (fq_proto f) (fq_start f) (Entering lastResp rc) s = Some (Failing lastResp rc, s\<lparr>sy_resolver := ?r\<rparr>)"
    using None assms(1) c(1) by (simp add: enter_turn_def Let_def)
  then show ?thesis using c by (simp add: fallback_end_def reaches_last)
next
  case (Some order)
  let ?r = "(sy_resolver s)\<lparr>rv_rr := rv_rr (sy_resolver s) + 1\<rparr>"
  from Some assms have t: "try_servers (en_exch en) (en_ctx en) (sy_resolver s) (fq_req f) (fq_proto f) order None (sy_k s) (sy_tracker s) (sy_metrics s) = (res, k', t', m')"
    and r': "r' = ?r"
    by (auto simp: Resolver_Resolve_def Enabled_def Let_def split: prod.splits)
  have "turn_of en cfg (fq_req f) (fq_proto f) (fq_start f) (Entering lastResp rc) s = Some (Asking order lastResp rc, s\<lparr>sy_resolver := ?r\<rparr>)"
    using Some assms(1) by (simp add: enter_turn_def Let_def)
  moreover have "reaches en cfg (f\<lparr>fq_at := Asking order lastResp rc\<rparr>) (s\<lparr>sy_resolver := ?r\<rparr>) (f\<lparr>fq_at := fallback_end lastResp rc res\<rparr>)
      ((s\<lparr>sy_resolver := ?r\<rparr>)\<lparr>sy_k := k', sy_tracker := t', sy_metrics := m'\<rparr>)"
    by (rule asking_reaches [where r = "sy_resolver s" and lastErr = None]) (simp_all add: t)
  ultimately show ?thesis unfolding r' by (intro reaches_turn [where p = "Entering lastResp rc"]) simp_all
qed

lemma leaving_reaches:
  assumes "resolveViaFallback en (fq_req f) (fq_proto f) rc s = Some (reply, rc', s')"
  shows "reaches en cfg (f\<lparr>fq_at := Leaving lastResp rc\<rparr>) s
    (f\<lparr>fq_at := (case reply of Some resp \<Rightarrow> Filing (Some resp) rc' | None \<Rightarrow> Failing lastResp rc')\<rparr>) s'"
proof (cases "Enabled (sy_resolver s)")
  case False
  then show ?thesis using assms by (auto simp: resolveViaFallback_def reaches_last)
next
  case True
  with assms obtain res r' k' t' m' where
    R: "Resolver_Resolve (en_exch en) (en_ctx en) (fq_req f) (fq_proto f) (sy_resolver s) (sy_k s) (sy_tracker s) (sy_metrics s) = Some (res, r', k', t', m')"
    and s': "s' = s\<lparr>sy_resolver := r', sy_k := k', sy_tracker := t', sy_metrics := m'\<rparr>"
      "fallback_end lastResp rc res = (case reply of Some resp \<Rightarrow> Filing (Some resp) rc' | None \<Rightarrow> Failing lastResp rc')"
    by (auto simp: resolveViaFallback_def fallback_end_def Let_def split: option.splits sum.splits)
  from entering_turn [OF _ R, of cfg lastResp rc] True
  have "reaches en cfg (f\<lparr>fq_at := Entering lastResp rc\<rparr>) s (f\<lparr>fq_at := fallback_end lastResp rc res\<rparr>) s'"
    by (simp add: s'(1) Enabled_def)
  then show ?thesis unfolding s'(2)
    by (rule reaches_turn [rotated 2]) (simp_all add: True)
qed

lemma leaving_crashes:
  assumes "resolveViaFallback en (fq_req f) (fq_proto f) rc s = None"
  shows "crashes en cfg (f\<lparr>fq_at := Leaving lastResp rc\<rparr>) s"
proof -
  from assms have e: "Enabled (sy_resolver s)" "rv_servers (sy_resolver s) \<noteq> []"
    and n: "rotate_by (int_of_u64 (rv_rr (sy_resolver s))) (rv_servers (sy_resolver s)) = None" "en_ctx en (sy_k s) = None"
    by (auto simp: resolveViaFallback_def Resolver_Resolve_def Enabled_def Let_def split: if_splits option.splits sum.splits prod.splits)
  have "advance en cfg (f\<lparr>fq_at := Entering lastResp rc\<rparr>) s = None" using e n by (simp add: advance_def enter_turn_def Let_def)
  then have "crashes en cfg (f\<lparr>fq_at := Entering lastResp rc\<rparr>) s" by (rule crashes_now)
  moreover have "reaches en cfg (f\<lparr>fq_at := Leaving lastResp rc\<rparr>) s (f\<lparr>fq_at := Entering lastResp rc\<rparr>) s"
    by (rule reaches_last) (simp_all add: e)
  ultimately show ?thesis using crashes_reaches by blast
qed

lemma filing_reaches: "reaches en cfg (f\<lparr>fq_at := Filing reply rc\<rparr>) s (f\<lparr>fq_at := Done reply\<rparr>) (snd (file_turn en (fq_start f) reply rc s))"
  by (rule reaches_last) (simp_all add: file_turn_def Let_def)

lemma failing_reaches:
  assumes "fail_turn (fq_req f) lastResp rc s = (Filing reply rc', s')"
  shows "reaches en cfg (f\<lparr>fq_at := Failing lastResp rc\<rparr>) s (f\<lparr>fq_at := Done reply\<rparr>) (snd (file_turn en (fq_start f) reply rc' s'))"
  by (rule reaches_turn [OF _ _ filing_reaches]) (simp_all add: assms)

text \<open>What is left of \<open>forward\<close> once the loop over the attempts has ended.\<close>

definition forward_rest ::
  "env \<Rightarrow> bytes \<Rightarrow> string \<Rightarrow> instant \<Rightarrow> bytes option \<Rightarrow> bytes option \<Rightarrow> stat_record \<Rightarrow> system \<Rightarrow> (bytes option \<times> system) option" where
  "forward_rest en req proto start res lastResp rc s =
     (case res of
        Some resp \<Rightarrow> Some (Some resp, file_record en start rc s)
      | None \<Rightarrow>
          (case resolveViaFallback en req proto rc s of
             None \<Rightarrow> None
           | Some (Some resp, rc', s3) \<Rightarrow> Some (Some resp, file_record en start rc' s3)
           | Some (None, rc', s3) \<Rightarrow>
               (case fail_turn req lastResp rc' s3 of
                  (Filing reply rc'', s4) \<Rightarrow> Some (reply, file_record en start rc'' s4)
                | _ \<Rightarrow> None)))"

definition observed :: "env \<Rightarrow> instant \<Rightarrow> system \<Rightarrow> system" where
  "observed en start s = s\<lparr>sy_metrics := (sy_metrics s)\<lparr>m_Duration := Histogram_Observe (Seconds (now_of en s - start)) (m_Duration (sy_metrics s))\<rparr>\<rparr>"

lemma file_turn_observed: "file_turn en start reply rc s = (Done reply, observed en start (file_record en start rc s))"
  by (simp add: file_turn_def observed_def Let_def)

lemma fail_turn_Filing: "\<exists>reply rc' s'. fail_turn req lastResp rc s = (Filing reply rc', s')"
  by (cases lastResp) (auto simp: fail_turn_def Let_def)

lemma rest_reaches:
  assumes "forward_rest en (fq_req f) (fq_proto f) (fq_start f) res lastResp rc s = Some (reply, s')"
  shows "reaches en cfg (f\<lparr>fq_at := (case res of None \<Rightarrow> Leaving lastResp rc | Some resp \<Rightarrow> Filing (Some resp) rc)\<rparr>) s
    (f\<lparr>fq_at := Done reply\<rparr>) (observed en (fq_start f) s')"
proof (cases res)
  case (Some resp)
  then show ?thesis using assms filing_reaches [where en = en and cfg = cfg and f = f and reply = "Some resp" and rc = rc and s = s] by (auto simp: forward_rest_def file_turn_observed)
next
  case None
  with assms obtain fb rc1 s1 where v: "resolveViaFallback en (fq_req f) (fq_proto f) rc s = Some (fb, rc1, s1)"
    by (auto simp: forward_rest_def split: option.splits)
  show ?thesis
  proof (cases fb)
    case (Some resp)
    then show ?thesis
      using assms None v reaches_trans [OF leaving_reaches [OF v, where cfg = cfg and lastResp = lastResp]] filing_reaches [where en = en and cfg = cfg and f = f and reply = "Some resp" and rc = rc1 and s = s1]
      by (auto simp: forward_rest_def file_turn_observed)
  next
    case fb: None
    obtain reply' rc2 s2 where t: "fail_turn (fq_req f) lastResp rc1 s1 = (Filing reply' rc2, s2)" using fail_turn_Filing by blast
    then show ?thesis
      using assms None v fb reaches_trans [OF leaving_reaches [OF v, where cfg = cfg and lastResp = lastResp]] failing_reaches [OF t, where en = en and cfg = cfg]
      by (auto simp: forward_rest_def file_turn_observed)
  qed
qed

lemma rest_crashes:
  assumes "forward_rest en (fq_req f) (fq_proto f) (fq_start f) res lastResp rc s = None"
  shows "crashes en cfg (f\<lparr>fq_at := (case res of None \<Rightarrow> Leaving lastResp rc | Some resp \<Rightarrow> Filing (Some resp) rc)\<rparr>) s"
proof (cases "res = None \<and> resolveViaFallback en (fq_req f) (fq_proto f) rc s = None")
  case True
  then show ?thesis using leaving_crashes by simp
next
  case False
  then obtain fb rc1 s1 where "res = None" "resolveViaFallback en (fq_req f) (fq_proto f) rc s = Some (fb, rc1, s1)"
    using assms by (cases res) (auto simp: forward_rest_def)
  moreover obtain reply rc2 s2 where "fail_turn (fq_req f) lastResp rc1 s1 = (Filing reply rc2, s2)" using fail_turn_Filing by blast
  ultimately show ?thesis using assms by (cases fb) (simp_all add: forward_rest_def)
qed

definition first_record :: "bytes \<Rightarrow> string \<Rightarrow> stat_record" where
  "first_record req proto = \<lparr>r_Proto = proto, r_QType = (case ParseQuestion req of Inl _ \<Rightarrow> [] | Inr q \<Rightarrow> TypeString (q_Type q)),
     r_Upstream = [], r_Endpoint = [], r_RCode = [], r_Latency = 0, r_Attempts = 0, r_Fallback = False, r_Failed = False\<rparr>"

lemma forward_eq_rest:
  assumes "Plan (sy_pool s) (sy_rng s) = Some (plan, p, r)"
    and "attempt_loop en cfg req proto (take (attempts_of cfg (s\<lparr>sy_pool := p, sy_rng := r\<rparr>) plan) plan) 0 ''no_attempt'' None
      (first_record req proto) (s\<lparr>sy_pool := p, sy_rng := r\<rparr>) = (res, lastResp, rc, s2)"
  shows "forward en cfg req proto s = forward_rest en req proto (now_of en s) res lastResp rc s2"
proof -
  note F = assms(2) [unfolded first_record_def]
  show ?thesis
    by (cases res; cases lastResp)
      (auto simp: forward_def forward_rest_def assms(1) F fail_turn_def Let_def split: option.splits prod.splits)
qed

lemma Resolve_observed:
  assumes "ParseHeader req = Inr hdr" "\<not> h_QR hdr"
  shows "Server_Resolve en cfg req proto s =
    (let m = sy_metrics s; s1 = s\<lparr>sy_metrics := m\<lparr>m_Queries := Counter_Inc [\<lparr>lb_Name = ''proto'', lb_Value = proto\<rparr>] (m_Queries m)\<rparr>\<rparr>
     in map_option (\<lambda>(reply, s2). (reply, observed en (now_of en s) s2)) (forward en cfg req proto s1))"
  using assms by (simp add: Server_Resolve_def observed_def now_of_def Let_def split: option.split)

text \<open>A query that nobody disturbs does what \<open>Server_Resolve\<close> says, panics included.\<close>

lemma resolve_alone:
  "case Server_Resolve en cfg req proto s of
     None \<Rightarrow> crashes en cfg (new_flight req proto) s
   | Some (reply, s') \<Rightarrow> \<exists>f'. reaches en cfg (new_flight req proto) s f' s' \<and> fq_at f' = Done reply"
proof (cases "\<exists>hdr. ParseHeader req = Inr hdr \<and> \<not> h_QR hdr")
  case False
  then obtain s' where s': "Server_Resolve en cfg req proto s = Some (None, s')" "arrive_turn en req proto s = Some (Done None, s')"
    by (cases "ParseHeader req") (auto simp: Server_Resolve_def arrive_turn_def Let_def)
  then have "advance en cfg (new_flight req proto) s = Some ((new_flight req proto)\<lparr>fq_start := now_of en s, fq_at := Done None\<rparr>, s')"
    by (simp add: advance_def new_flight_def)
  from reaches_step [OF this reaches_refl] s'(1) show ?thesis by fastforce
next
  case True
  then obtain hdr where h: "ParseHeader req = Inr hdr" "\<not> h_QR hdr" by blast
  define s1 where "s1 = s\<lparr>sy_metrics := (sy_metrics s)\<lparr>m_Queries := Counter_Inc [\<lparr>lb_Name = ''proto'', lb_Value = proto\<rparr>] (m_Queries (sy_metrics s))\<rparr>\<rparr>"
  note R = Resolve_observed [OF h, where en = en and cfg = cfg and proto = proto and s = s, unfolded Let_def, folded s1_def]
  have a: "arrive_turn en req proto s = map_option (\<lambda>(plan, p, r). (Planned (first_record req proto) plan, s1\<lparr>sy_pool := p, sy_rng := r\<rparr>)) (Plan (sy_pool s1) (sy_rng s1))"
    using h by (simp add: arrive_turn_def s1_def first_record_def Let_def)
  let ?f = "(new_flight req proto)\<lparr>fq_start := now_of en s\<rparr>"
  have f: "fq_req ?f = req" "fq_proto ?f = proto" "fq_start ?f = now_of en s" by (simp_all add: new_flight_def)
  show ?thesis
  proof (cases "Plan (sy_pool s1) (sy_rng s1)")
    case None
    then have "advance en cfg (new_flight req proto) s = None" using a by (simp add: advance_def new_flight_def)
    moreover have "forward en cfg req proto s1 = None" using None by (simp add: forward_def Let_def)
    ultimately show ?thesis using R crashes_now by simp
  next
    case (Some ppr)
    obtain plan p r where ppr: "ppr = (plan, p, r)" by (cases ppr)
    let ?s2 = "s1\<lparr>sy_pool := p, sy_rng := r\<rparr>" and ?rc = "first_record req proto"
    let ?eps = "take (attempts_of cfg ?s2 plan) plan"
    obtain res lastResp rc s3 where l: "attempt_loop en cfg req proto ?eps 0 ''no_attempt'' None ?rc ?s2 = (res, lastResp, rc, s3)"
      by (metis prod_cases4)
    have "advance en cfg (new_flight req proto) s = Some (?f\<lparr>fq_at := Planned ?rc plan\<rparr>, ?s2)"
      using a Some ppr by (simp add: advance_def new_flight_def)
    moreover have "reaches en cfg (?f\<lparr>fq_at := Planned ?rc plan\<rparr>) ?s2 (?f\<lparr>fq_at := Trying ?eps 0 ''no_attempt'' None ?rc\<rparr>) ?s2"
      by (rule reaches_last) simp_all
    moreover note trying_reaches [of en cfg ?f ?eps 0 "''no_attempt''" None ?rc ?s2, unfolded f, OF l]
    ultimately have start: "reaches en cfg (new_flight req proto) s (?f\<lparr>fq_at := (case res of None \<Rightarrow> Leaving lastResp rc | Some resp \<Rightarrow> Filing (Some resp) rc)\<rparr>) s3"
      by (meson reaches_step reaches_trans)
    have F: "forward en cfg req proto s1 = forward_rest en req proto (now_of en s) res lastResp rc s3"
      using forward_eq_rest [OF Some [unfolded ppr] l] by (simp add: s1_def now_of_def)
    show ?thesis
    proof (cases "forward_rest en req proto (now_of en s) res lastResp rc s3")
      case None
      then show ?thesis using crashes_reaches [OF start rest_crashes [of en ?f res lastResp rc s3 cfg, unfolded f]] R F by simp
    next
      case (Some rs)
      obtain reply s4 where rs: "rs = (reply, s4)" by (cases rs)
      show ?thesis
        using reaches_trans [OF start rest_reaches [of en ?f res lastResp rc s3 reply s4 cfg, unfolded f]] Some rs R F
        by (auto intro!: exI [of _ "?f\<lparr>fq_at := Done reply\<rparr>"])
    qed
  qed
qed

section \<open>A query among others\<close>

text \<open>
  The turns of a query in the states it finds: \<open>ss\<close> is the shared state at each of its turns,
  and nothing relates one to the next, so anything may have happened in between.
\<close>

fun turns :: "env \<Rightarrow> config \<Rightarrow> flight \<Rightarrow> system list \<Rightarrow> flight option" where
  "turns en cfg f [] = Some f"
| "turns en cfg f (s # ss) =
     (case advance en cfg f s of
        None \<Rightarrow> None
      | Some (f', s') \<Rightarrow> turns en cfg f' ss)"

text \<open>How many turns are left at most, with \<open>a\<close> attempts allowed and no more than \<open>n\<close> servers.\<close>

fun turns_left :: "nat \<Rightarrow> nat \<Rightarrow> progress \<Rightarrow> nat" where
  "turns_left a n Arrived = 2 * a + n + 8"
| "turns_left a n (Planned rc plan) = 2 * a + n + 7"
| "turns_left a n (Trying eps i why lastResp rc) = 2 * length eps + n + 6"
| "turns_left a n (Judging ep res rtt eps i lastResp rc) = 2 * length eps + n + 7"
| "turns_left a n (Leaving lastResp rc) = n + 5"
| "turns_left a n (Entering lastResp rc) = n + 4"
| "turns_left a n (Asking servers lastResp rc) = length servers + 3"
| "turns_left a n (Failing lastResp rc) = 2"
| "turns_left a n (Filing reply rc) = 1"
| "turns_left a n (Done reply) = 0"

lemma turns_left_Done: "turns_left a n p = 0 \<longleftrightarrow> (\<exists>reply. p = Done reply)"
  by (cases p) auto

lemma rotate_by_length: "rotate_by i xs = Some ys \<Longrightarrow> length ys = length xs"
  by (auto dest!: rotate_by_mset mset_eq_length)

lemma attempts_length: "length (take (attempts_of cfg s plan) plan) \<le> nat (qc_MaxAttempts (c_Query cfg))"
  using attempts_of_bounds(1) [of cfg s plan] by simp

lemma turn_decreases:
  assumes "turn_of en cfg req proto start p s = Some (p', s')" "length (rv_servers (sy_resolver s)) \<le> n"
  shows "turns_left (nat (qc_MaxAttempts (c_Query cfg))) n p' < turns_left (nat (qc_MaxAttempts (c_Query cfg))) n p \<or> (\<exists>reply. p = Done reply \<and> p' = p)"
  using assms
proof (induction en cfg req proto start p s rule: turn_of.induct)
  case (2 en cfg req proto start rc plan s)
  then show ?case using attempts_length [of cfg s plan] by auto
next
  case (7 en cfg req proto start lastResp rc s)
  then show ?case by (auto simp: enter_turn_def Let_def split: if_splits option.splits dest!: rotate_by_length)
qed (auto simp: arrive_turn_def judge_turn_def ask_turn_def fail_turn_def file_turn_def Let_def split: if_splits option.splits sum.splits prod.splits)

text \<open>What a query carries with it replies to its own request.\<close>

definition good_reply :: "bytes \<Rightarrow> bytes option \<Rightarrow> bool" where
  "good_reply req reply \<longleftrightarrow> (\<forall>resp. reply = Some resp \<longrightarrow> replies_to req resp)"

definition settled_reply :: "bytes \<Rightarrow> bytes option \<Rightarrow> bool" where
  "settled_reply req reply \<longleftrightarrow> good_reply req reply \<and> (askable req \<longrightarrow> reply \<noteq> None)"

fun sound :: "bytes \<Rightarrow> progress \<Rightarrow> bool" where
  "sound req (Trying eps i why lastResp rc) = good_reply req lastResp"
| "sound req (Judging ep res rtt eps i lastResp rc) = (good_reply req lastResp \<and> (\<forall>resp. res = Inr resp \<longrightarrow> replies_to req resp))"
| "sound req (Leaving lastResp rc) = good_reply req lastResp"
| "sound req (Entering lastResp rc) = good_reply req lastResp"
| "sound req (Asking servers lastResp rc) = good_reply req lastResp"
| "sound req (Failing lastResp rc) = good_reply req lastResp"
| "sound req (Filing reply rc) = settled_reply req reply"
| "sound req (Done reply) = settled_reply req reply"
| "sound req _ = True"

context transport
begin

lemma exchange_replies: "en_exch en = exch \<Longrightarrow> en_exch en k proto addr req timeout = (Inr resp, rtt) \<Longrightarrow> replies_to req resp"
  unfolding replies_to_def by (metis response_header)

lemma ask_sound:
  assumes "en_exch en = exch" "good_reply req lastResp"
  shows "sound req (fst (ask_turn en req proto server rest lastResp rc s))"
proof (cases "en_exch en (sy_k s) proto server req (rv_timeout (sy_resolver s))")
  case (Pair res rtt)
  have "replies_to req resp" if "res = Inr resp" for resp using exchange_replies [OF assms(1)] Pair that by blast
  then show ?thesis using assms(2) Pair by (auto simp: ask_turn_def settled_reply_def good_reply_def Let_def split: sum.splits)
qed

lemma turn_sound:
  assumes "en_exch en = exch" "sound req p" "turn_of en cfg req proto start p s = Some (p', s')"
  shows "sound req p'"
  using assms
proof (induction en cfg req proto start p s rule: turn_of.induct)
  case (1 en cfg req proto start s)
  then show ?case
    by (auto simp: arrive_turn_def settled_reply_def good_reply_def askable_def Let_def split: sum.splits if_splits)
next
  case (4 en cfg req proto start ep eps i why lastResp rc s)
  then show ?case using exchange_replies [OF "4.prems"(1)]
    by (auto simp: Let_def split: if_splits prod.splits)
next
  case (5 en cfg req proto start ep res rtt eps i lastResp rc s)
  then show ?case by (auto simp: judge_turn_def settled_reply_def good_reply_def Let_def split: sum.splits if_splits)
next
  case (9 en cfg req proto start server rest lastResp rc s)
  then show ?case using ask_sound [of en req lastResp proto server rest rc s] by simp
next
  case (10 en cfg req proto start lastResp rc s)
  have "ErrorResponse req RCodeServFail \<noteq> None" if "askable req"
    using that ErrorResponse_answers [of req] by (auto simp: askable_def split: sum.splits)
  then show ?case using 10 ErrorResponse_replies [of req RCodeServFail]
    by (auto simp: fail_turn_def settled_reply_def good_reply_def Let_def split: option.splits)
qed (auto simp: good_reply_def enter_turn_def file_turn_def Let_def split: if_splits option.splits)

end

lemma turn_total: "steady s \<Longrightarrow> turn_of en cfg req proto start p s \<noteq> None"
proof (induction en cfg req proto start p s rule: turn_of.induct)
  case (1 en cfg req proto start s)
  then have "Plan (sy_pool s) (sy_rng s) \<noteq> None" using Plan_total by (simp add: steady_def)
  then show ?case by (auto simp: arrive_turn_def Let_def split: sum.splits)
next
  case (7 en cfg req proto start lastResp rc s)
  then show ?case using rotation_defined [of "sy_resolver s"] by (auto simp: enter_turn_def steady_def Enabled_def Let_def)
qed (auto simp: Let_def split: prod.splits)

lemma advance_cases:
  assumes "advance en cfg f s = Some (f', s')"
  obtains start where "turn_of en cfg (fq_req f) (fq_proto f) start (fq_at f) s = Some (fq_at f', s')"
    "fq_req f' = fq_req f" "fq_proto f' = fq_proto f"
  using assms by (auto simp: advance_def Let_def)

lemma advance_total: "steady s \<Longrightarrow> \<exists>f' s'. advance en cfg f s = Some (f', s')"
  using turn_total [of s en cfg "fq_req f" "fq_proto f" _ "fq_at f"] by (fastforce simp: advance_def Let_def)

lemma turns_finish:
  assumes "en_exch en = Exchange net" "sound (fq_req f) (fq_at f)"
    and "\<forall>s \<in> set ss. steady s \<and> length (rv_servers (sy_resolver s)) \<le> n"
    and "turns_left (nat (qc_MaxAttempts (c_Query cfg))) n (fq_at f) \<le> length ss"
  shows "\<exists>f' reply. turns en cfg f ss = Some f' \<and> fq_at f' = Done reply \<and> settled_reply (fq_req f) reply"
  using assms(2-4)
proof (induction ss arbitrary: f)
  case Nil
  then obtain reply where "fq_at f = Done reply" using turns_left_Done by auto
  with Nil show ?case by auto
next
  case (Cons s ss)
  from advance_total [of s en cfg f] Cons.prems(2) obtain f1 s1 where a: "advance en cfg f s = Some (f1, s1)" by auto
  then obtain start where t: "turn_of en cfg (fq_req f) (fq_proto f) start (fq_at f) s = Some (fq_at f1, s1)" and r: "fq_req f1 = fq_req f"
    by (auto elim: advance_cases)
  have "sound (fq_req f1) (fq_at f1)" using net_exchange.turn_sound [OF assms(1) Cons.prems(1) t] r by simp
  moreover have "turns_left (nat (qc_MaxAttempts (c_Query cfg))) n (fq_at f1) \<le> length ss"
    using turn_decreases [OF t, of n] Cons.prems(2,3) by auto
  ultimately show ?case using Cons.IH [of f1] Cons.prems(2) a r by auto
qed

section \<open>Many queries\<close>

text \<open>
  The program with its goroutines: queries arrive, each takes its turns when the scheduler lets
  it, the probes of a sweep come in one by one, and management requests and reports happen in
  between.
\<close>

inductive par_step ::
  "(config \<Rightarrow> string result) \<Rightarrow> env \<Rightarrow> config \<Rightarrow> admin \<Rightarrow> world \<times> flight list \<Rightarrow> world \<times> flight list \<Rightarrow> bool"
  for marshal :: "config \<Rightarrow> string result" and en :: env and cfg :: config and a :: admin where
  arrive: "par_step marshal en cfg a (w, fs) (w, fs @ [new_flight req proto])"
| turn: "i < length fs \<Longrightarrow> advance en cfg (fs ! i) (w_sys w) = Some (f, s) \<Longrightarrow>
    par_step marshal en cfg a (w, fs) (w\<lparr>w_sys := s\<rparr>, fs[i := f])"
| probed: "par_step marshal en cfg a (w, fs) (w\<lparr>w_sys := check_endpoint ReportProbe en cfg et (w_sys w)\<rparr>, fs)"
| swept: "par_step marshal en cfg a (w, fs) (w\<lparr>w_sys := observe_pool now (w_sys w)\<rparr>, fs)"
| reported: "par_step marshal en cfg a (w, fs) (w\<lparr>w_sys := (w_sys w)\<lparr>sy_tracker := snd (Report now (sy_tracker (w_sys w)))\<rparr>\<rparr>, fs)"
| managed: "serve marshal (en_tz en) a sv now hq w = (r, w', now_probe) \<Longrightarrow> par_step marshal en cfg a (w, fs) (w', fs)"

inductive_cases par_stepE: "par_step marshal en cfg a (w, fs) (w', fs')"

lemma sys_moved:
  assumes "after n w" "moved (w_sys w) s" "pool_wf (sy_pool s)" "pool_entries (sy_pool s) = pool_entries (w_pool w)"
  shows "after (Suc n) (w\<lparr>w_sys := s\<rparr>)"
  using after_sys [OF assms(1,3,4,2)] .

text \<open>What one turn does to the shared state.\<close>

definition tended :: "system \<Rightarrow> system \<Rightarrow> bool" where
  "tended s s' \<longleftrightarrow> moved s s' \<and> pool_wf (sy_pool s') \<and> pool_entries (sy_pool s') = pool_entries (sy_pool s)"

lemma tended_same:
  assumes "pool_wf (sy_pool s)" "sy_pool s' = sy_pool s" "sy_resolver s' = sy_resolver s"
  shows "tended s s'"
  using assms by (simp add: tended_def moved_def)

lemma tended_report:
  assumes "pool_wf (sy_pool s)"
  shows "tended s (count_upstream_failure e why (report_query en e ok rtt err s))" "tended s (count_upstream_response e c (report_query en e ok rtt err s))"
  using kept_report(1) [OF assms, where k = "sy_k s" and e = e and w = why and en = en and ok = ok and rtt = rtt and err = err]
    kept_report(2) [OF assms, where k = "sy_k s" and e = e and c = c and en = en and ok = ok and rtt = rtt and err = err]
    report_carried(1) [where s = s and k = "sy_k s" and e = e and w = why and en = en and ok = ok and rtt = rtt and err = err]
    report_carried(2) [where s = s and k = "sy_k s" and e = e and c = c and en = en and ok = ok and rtt = rtt and err = err]
  by (auto simp: tended_def kept_def carried_def moved_def)

lemma tended_retry: "pool_wf (sy_pool s) \<Longrightarrow> tended s ((if b then count_retry w s else s)\<lparr>sy_k := k\<rparr>)"
  by (rule tended_same) (simp_all add: frame_simps)

lemma turn_tended:
  assumes "turn_of en cfg req proto start p s = Some (p', s')" "pool_wf (sy_pool s)"
  shows "tended s s'"
  using assms
proof (induction en cfg req proto start p s rule: turn_of.induct)
  case (1 en cfg req proto start s)
  let ?m = "(sy_metrics s)\<lparr>m_Queries := Counter_Inc [\<lparr>lb_Name = ''proto'', lb_Value = proto\<rparr>] (m_Queries (sy_metrics s))\<rparr>"
  show ?case
  proof (cases "s' = s\<lparr>sy_metrics := ?m\<rparr>")
    case True
    then show ?thesis using "1.prems"(2) by (simp add: tended_def moved_def)
  next
    case False
    with "1.prems"(1) obtain plan p r where P: "Plan (sy_pool s) (sy_rng s) = Some (plan, p, r)" "s' = s\<lparr>sy_metrics := ?m, sy_pool := p, sy_rng := r\<rparr>"
      by (auto simp: arrive_turn_def Let_def split: sum.splits if_splits)
    from Plan_wf [OF "1.prems"(2) P(1)] Plan_pool [OF P(1)] show ?thesis by (auto simp: P(2) tended_def moved_def)
  qed
next
  case (4 en cfg req proto start ep eps i why lastResp rc s)
  then show ?case by (auto simp: Let_def tended_same frame_simps split: if_splits prod.splits)
next
  case (5 en cfg req proto start ep res rtt eps i lastResp rc s)
  then show ?case using tended_report [OF "5.prems"(2)] by (auto simp: judge_turn_def Let_def split: sum.splits if_splits)
next
  case (7 en cfg req proto start lastResp rc s)
  then show ?case by (auto simp: enter_turn_def tended_def moved_def Let_def split: if_splits option.splits)
next
  case (9 en cfg req proto start server rest lastResp rc s)
  then show ?case by (auto simp: ask_turn_def tended_same Let_def split: if_splits sum.splits)
next
  case (10 en cfg req proto start lastResp rc s)
  then show ?case by (auto simp: fail_turn_def tended_same Let_def split: option.splits)
next
  case (11 en cfg req proto start reply rc s)
  then show ?case by (auto simp: file_turn_def tended_same frame_simps Let_def)
qed (auto simp: tended_same)

lemma check_tended:
  assumes "pool_wf (sy_pool s)"
  shows "tended s (check_endpoint ReportProbe en cfg et s)"
  using checks_wf [OF verdicts_touch_only(1) assms, of en cfg "[et]"] checks_carried [OF verdicts_touch_only(1), of s en cfg "[et]"]
  by (simp add: tended_def carried_moved)

definition par_ok :: "nat \<Rightarrow> world \<times> flight list \<Rightarrow> bool" where
  "par_ok n c \<longleftrightarrow> after n (fst c) \<and> (\<forall>f \<in> set (snd c). sound (fq_req f) (fq_at f))"

lemma par_ok_sys:
  assumes "par_ok n (w, fs)" "tended (w_sys w) s"
  shows "after (Suc n) (w\<lparr>w_sys := s\<rparr>)"
  using assms by (auto simp: par_ok_def tended_def w_pool_def intro: sys_moved)

lemma par_step_ok:
  assumes "en_exch en = Exchange net" "par_ok n c" "par_step marshal en cfg a c c'"
  shows "par_ok (Suc n) c'"
  using assms(3)
proof (cases rule: par_step.cases)
  case (arrive w fs req proto)
  then show ?thesis using assms(2) by (auto simp: par_ok_def after_def new_flight_def)
next
  case (turn i fs w f s)
  have f: "sound (fq_req (fs ! i)) (fq_at (fs ! i))" and wf: "pool_wf (sy_pool (w_sys w))"
    using assms(2) turn(1,3) by (auto simp: par_ok_def after_def agrees_def w_pool_def)
  from turn(4) obtain start where t: "turn_of en cfg (fq_req (fs ! i)) (fq_proto (fs ! i)) start (fq_at (fs ! i)) (w_sys w) = Some (fq_at f, s)"
    "fq_req f = fq_req (fs ! i)" by (auto elim: advance_cases)
  have "sound (fq_req f) (fq_at f)" using net_exchange.turn_sound [OF assms(1) f t(1)] t(2) by simp
  moreover have "after (Suc n) (w\<lparr>w_sys := s\<rparr>)" using par_ok_sys turn_tended [OF t(1) wf] assms(2) turn(1) by blast
  ultimately show ?thesis using assms(2) turn(1) by (auto simp: turn(2) par_ok_def dest!: set_update_subset_insert [THEN subsetD])
next
  case (probed w fs et)
  then have "pool_wf (sy_pool (w_sys w))" using assms(2) by (auto simp: par_ok_def after_def agrees_def w_pool_def)
  from par_ok_sys [OF _ check_tended [OF this, of en cfg et]] probed assms(2) show ?thesis by (auto simp: par_ok_def)
next
  case (swept w fs now)
  then have "tended (w_sys w) (observe_pool now (w_sys w))"
    using assms(2) by (intro tended_same) (auto simp: par_ok_def after_def agrees_def w_pool_def observe_pool_def)
  from par_ok_sys [OF _ this] swept assms(2) show ?thesis by (auto simp: par_ok_def)
next
  case (reported w fs now)
  then have "tended (w_sys w) ((w_sys w)\<lparr>sy_tracker := snd (Report now (sy_tracker (w_sys w)))\<rparr>)"
    using assms(2) by (intro tended_same) (auto simp: par_ok_def after_def agrees_def w_pool_def)
  from par_ok_sys [OF _ this] reported assms(2) show ?thesis by (auto simp: par_ok_def)
next
  case (managed sv now hq w r w' now_probe fs)
  from serve_step [OF _ managed(3)] managed(1,2) assms(2) show ?thesis by (auto simp: par_ok_def)
qed

lemma par_run_ok:
  assumes "(par_step marshal en cfg a ^^ n) c c'" "en_exch en = Exchange net" "par_ok 0 c"
  shows "par_ok n c'"
  using assms(1)
proof (induction n arbitrary: c')
  case 0
  then show ?case using assms(3) by simp
next
  case (Suc n)
  then obtain c1 where "(par_step marshal en cfg a ^^ n) c c1" "par_step marshal en cfg a c1 c'" by auto
  then show ?case using Suc.IH par_step_ok [OF assms(2)] by blast
qed

section \<open>How long a query on its own takes\<close>

lemma alone_add: "alone en cfg (m + n) f s = (case alone en cfg m f s of None \<Rightarrow> None | Some (f', s') \<Rightarrow> alone en cfg n f' s')"
  by (induction m arbitrary: f s) (auto split: option.splits)

lemma advance_Done: "fq_at f = Done reply \<Longrightarrow> advance en cfg f s = Some (f, s)"
  by (cases f) (simp add: advance_def)

lemma alone_Done: "fq_at f = Done reply \<Longrightarrow> alone en cfg n f s = Some (f, s)"
  by (induction n) (simp_all add: advance_Done)

lemma turn_servers:
  "turn_of en cfg req proto start p s = Some (p', s') \<Longrightarrow> rv_servers (sy_resolver s') = rv_servers (sy_resolver s)"
  by (induction en cfg req proto start p s rule: turn_of.induct)
    (auto simp: arrive_turn_def judge_turn_def enter_turn_def ask_turn_def fail_turn_def file_turn_def frame_simps Let_def
      split: if_splits option.splits sum.splits prod.splits)

lemma alone_bounded:
  assumes "turns_left (nat (qc_MaxAttempts (c_Query cfg))) (length (rv_servers (sy_resolver s))) (fq_at f) \<le> n"
    and "alone en cfg n f s = Some (f', s')"
  shows "\<exists>reply. fq_at f' = Done reply"
  using assms
proof (induction n arbitrary: f s)
  case 0
  then show ?case using turns_left_Done by auto
next
  case (Suc n)
  from Suc.prems(2) obtain f1 s1 where a: "advance en cfg f s = Some (f1, s1)" "alone en cfg n f1 s1 = Some (f', s')"
    by (auto split: option.splits)
  then obtain start where t: "turn_of en cfg (fq_req f) (fq_proto f) start (fq_at f) s = Some (fq_at f1, s1)" by (auto elim: advance_cases)
  have "turns_left (nat (qc_MaxAttempts (c_Query cfg))) (length (rv_servers (sy_resolver s1))) (fq_at f1) \<le> n"
    using turn_decreases [OF t order_refl] turn_servers [OF t] Suc.prems(1) by auto
  then show ?case using Suc.IH a(2) by blast
qed

lemma pair_system_servers: "length (rv_servers (sy_resolver (pair_system strategy))) \<le> 2"
  by (simp add: pair_system_def start_system_def NewResolver_def Default_def)

section \<open>Properties\<close>

text \<open>
  C3. Every query is over after a bounded number of its own turns, whatever happens in between.
  With \<open>max_attempts\<close> attempts allowed and at most \<open>n\<close> public resolvers configured at any
  time, \<open>2 * max_attempts + n + 8\<close> turns are enough, in any shared states without a counter
  about to overflow: no other query, probe or management request can keep it going, make it
  panic, or make it end without a reply to a readable question.
\<close>

theorem query_terminates:
  assumes "en_exch en = Exchange net"
    and "\<forall>s \<in> set ss. steady s \<and> length (rv_servers (sy_resolver s)) \<le> n"
    and "2 * nat (qc_MaxAttempts (c_Query cfg)) + n + 8 \<le> length ss"
  shows "\<exists>f' reply. turns en cfg (new_flight req proto) ss = Some f' \<and> fq_at f' = Done reply \<and>
    (\<forall>resp. reply = Some resp \<longrightarrow> replies_to req resp) \<and> (askable req \<longrightarrow> reply \<noteq> None)"
  using turns_finish [OF assms(1) _ assms(2), of "new_flight req proto" cfg] assms(3)
  by (simp add: new_flight_def settled_reply_def good_reply_def)

theorem query_terminates_witness:
  "\<exists>f' resp. turns flaky one_try (new_flight root_request ProtoUDP) (replicate 12 (pair_system StrategyFailover)) = Some f' \<and>
     fq_at f' = Done (Some resp) \<and> replies_to root_request resp"
proof -
  have "en_exch flaky = Exchange flaky_net" by (simp add: flaky_def)
  from query_terminates [OF this, of "replicate 12 (pair_system StrategyFailover)" 2 one_try root_request ProtoUDP]
    pair_system_steady root_askable
  show ?thesis by (auto simp: one_try_def pair_system_servers)
qed

text \<open>
  C2. Overlapping queries do not get in each other's way: after any number of steps up to
  \<open>2 ^ 63\<close>, in which queries arrive, take their turns, and are mixed with single probes,
  reports and management requests, the configuration describes what is running, no query has
  panicked or is about to, and every query that is done has a reply to its own request if its
  question could be read.
\<close>

theorem interleaving_safe:
  assumes "run_start decode get version info en order now r fs fl = Runs cfg a w" "en_exch en = Exchange net"
    and "(par_step marshal en cfg a ^^ n) (w, []) (w', qs)" "n < 2 ^ 63" "f \<in> set qs"
  shows "agrees w' \<and> (\<exists>f' s'. advance en cfg f (w_sys w') = Some (f', s')) \<and>
    (\<forall>reply. fq_at f = Done reply \<longrightarrow>
       (\<forall>resp. reply = Some resp \<longrightarrow> replies_to (fq_req f) resp) \<and> (askable (fq_req f) \<longrightarrow> reply \<noteq> None))"
proof -
  from run_start_Runs [OF assms(1)] have L: "Load decode (fl_config fl) fs = Inr cfg" and w: "w = run_world en order now r (fl_config fl) cfg fs"
    by simp_all
  from Load_valid [OF L] have "after 0 w" unfolding w by (intro run_world_after) blast
  then have ok: "par_ok n (w', qs)" using par_run_ok [OF assms(3,2)] by (simp add: par_ok_def)
  then have "steady (w_sys w')" using after_steady [OF _ assms(4)] by (simp add: par_ok_def)
  moreover have "sound (fq_req f) (fq_at f)" using ok assms(5) by (simp add: par_ok_def)
  ultimately show ?thesis using ok advance_total [of "w_sys w'" en cfg f]
    by (auto simp: par_ok_def after_def settled_reply_def good_reply_def)
qed

theorem interleaving_safe_witness:
  "\<exists>cfg a w w' f. run_start home_decode (\<lambda>_. Inr (200, [], [])) ''dev'' None flaky [] 0 [] example_fs home_flags = Runs cfg a w \<and>
     (par_step (\<lambda>c. Inr ''new'') flaky cfg a ^^ 2) (w, []) (w', [f]) \<and> agrees w' \<and> advance flaky cfg f (w_sys w') \<noteq> None"
proof -
  from home_runs obtain cfg a w where r: "run_start home_decode (\<lambda>_. Inr (200, [], [])) ''dev'' None flaky [] 0 [] example_fs home_flags = Runs cfg a w" by blast
  have en: "en_exch flaky = Exchange flaky_net" by (simp add: flaky_def)
  let ?f = "new_flight root_request ProtoUDP"
  have one: "par_step (\<lambda>c. Inr ''new'') flaky cfg a (w, []) (w, [?f])" using par_step.arrive [where fs = "[]"] by simp
  then have "(par_step (\<lambda>c. Inr ''new'') flaky cfg a ^^ 1) (w, []) (w, [?f])" by auto
  from interleaving_safe [OF r en this, of ?f] obtain f s where t: "advance flaky cfg ?f (w_sys w) = Some (f, s)" by auto
  have "par_step (\<lambda>c. Inr ''new'') flaky cfg a (w, [?f]) (w\<lparr>w_sys := s\<rparr>, [f])" using par_step.turn [of 0 "[?f]"] t by simp
  with one have two: "(par_step (\<lambda>c. Inr ''new'') flaky cfg a ^^ 2) (w, []) (w\<lparr>w_sys := s\<rparr>, [f])" by (auto simp: numeral_2_eq_2)
  from interleaving_safe [OF r en two, of f] have "agrees (w\<lparr>w_sys := s\<rparr>)" "advance flaky cfg f (w_sys (w\<lparr>w_sys := s\<rparr>)) \<noteq> None" by auto
  with r two show ?thesis by blast
qed

text \<open>
  C4. Cutting a query into turns changes nothing: run on its own for as many turns as it can
  take, it gives the reply and leaves the shared state that \<open>Resolve\<close> as one step does, and it
  panics exactly if that does.
\<close>

theorem turns_are_Resolve:
  assumes "2 * nat (qc_MaxAttempts (c_Query cfg)) + length (rv_servers (sy_resolver s)) + 8 \<le> n"
  shows "map_option (\<lambda>(f, s'). (fq_at f, s')) (alone en cfg n (new_flight req proto) s) =
    map_option (\<lambda>(reply, s'). (Done reply, s')) (Server_Resolve en cfg req proto s)"
proof (cases "alone en cfg n (new_flight req proto) s")
  case None
  have "alone en cfg (m + n) (new_flight req proto) s = None" for m using alone_add [of en cfg n m] None by (simp add: add.commute)
  then have "\<not> (reaches en cfg (new_flight req proto) s f' s' \<and> fq_at f' = Done reply)" for f' s' reply
    unfolding reaches_def using alone_Done by (metis option.distinct(1))
  then show ?thesis using None resolve_alone [of en cfg req proto s] by (auto split: option.splits)
next
  case (Some fs)
  obtain f' s' where fs: "fs = (f', s')" by (cases fs)
  have "turns_left (nat (qc_MaxAttempts (c_Query cfg))) (length (rv_servers (sy_resolver s))) (fq_at (new_flight req proto)) \<le> n"
    using assms by (simp add: new_flight_def)
  from alone_bounded [OF this Some [unfolded fs]] obtain reply where d: "fq_at f' = Done reply" by blast
  have m: "alone en cfg (m + n) (new_flight req proto) s = Some (f', s')" for m
    using alone_add [of en cfg n m] Some fs alone_Done [OF d] by (simp add: add.commute)
  then have "\<not> crashes en cfg (new_flight req proto) s"
    unfolding crashes_def using alone_add [of en cfg _ n] by (metis option.distinct(1) option.simps(4))
  moreover have "(f2, s2) = (f', s')" if "reaches en cfg (new_flight req proto) s f2 s2" "fq_at f2 = Done r2" for f2 s2 r2
    using that m alone_Done [OF that(2)] unfolding reaches_def by (metis option.inject)
  ultimately show ?thesis using Some fs d resolve_alone [of en cfg req proto s] by (auto split: option.splits)
qed

theorem turns_are_Resolve_witness:
  "map_option (\<lambda>(f, s'). (fq_at f, s')) (alone flaky one_try 12 (new_flight root_request ProtoUDP) (pair_system StrategyFailover)) =
   map_option (\<lambda>(reply, s'). (Done reply, s')) (Server_Resolve flaky one_try root_request ProtoUDP (pair_system StrategyFailover))"
  by (rule turns_are_Resolve) (simp add: one_try_def pair_system_servers)

end
