(* ===== verification/Lifecycle.thy ===== *)
theory Lifecycle
  imports Program
begin

text \<open>
  How the process ends (\<open>run\<close> in \<open>main.go\<close>): four goroutines under one context, a signal or the
  first failure cancels it, and \<open>run\<close> returns once all four have. What a component does until it
  ends is the business of the other theories; here it ends, with or without an error.
\<close>

section \<open>The goroutines of \<open>run\<close>\<close>

datatype component = HealthLoop | ReportLoop | AdminServer | DnsServer

record life =
  lf_cancelled :: bool
  lf_running :: "component list"
  lf_err :: "goerr option"

definition started :: life where
  "started = \<lparr>lf_cancelled = False, lf_running = [HealthLoop, ReportLoop, AdminServer, DnsServer], lf_err = None\<rparr>"

text \<open>
  The two loops return when the context is done and not before; a server hands what it returns
  to \<open>fail\<close>. The label is what ended, with its error.
\<close>

datatype life_event = Signal | LoopEnds component | ServerEnds component "goerr option"

inductive life_step :: "life \<Rightarrow> life_event \<Rightarrow> life \<Rightarrow> bool" where
  signal: "\<not> lf_cancelled l \<Longrightarrow> life_step l Signal (l\<lparr>lf_cancelled := True\<rparr>)"
| loop_ends: "c \<in> set (lf_running l) \<Longrightarrow> c = HealthLoop \<or> c = ReportLoop \<Longrightarrow> lf_cancelled l \<Longrightarrow>
    life_step l (LoopEnds c) (l\<lparr>lf_running := remove1 c (lf_running l)\<rparr>)"
| server_ends: "c \<in> set (lf_running l) \<Longrightarrow> c = AdminServer \<or> c = DnsServer \<Longrightarrow>
    run_fail err (lf_err l, lf_cancelled l) = (errRet, stopped) \<Longrightarrow>
    life_step l (ServerEnds c err) (l\<lparr>lf_running := remove1 c (lf_running l), lf_err := errRet, lf_cancelled := stopped\<rparr>)"

inductive_cases life_stepE: "life_step l ev l'"

inductive life_run :: "life \<Rightarrow> life_event list \<Rightarrow> life \<Rightarrow> bool" where
  stop: "life_run l [] l"
| more: "life_step l ev l1 \<Longrightarrow> life_run l1 evs l' \<Longrightarrow> life_run l (ev # evs) l'"

inductive_cases life_runE: "life_run l (ev # evs) l'" "life_run l [] l'"

text \<open>\<open>run\<close> is past \<open>wg.Wait()\<close>; what it returns.\<close>

definition run_returns :: "life \<Rightarrow> goerr option option" where
  "run_returns l = (if lf_cancelled l \<and> lf_running l = [] then Some (run_result (lf_err l)) else None)"

section \<open>How it ends\<close>

fun failures :: "life_event list \<Rightarrow> goerr list" where
  "failures [] = []"
| "failures (ServerEnds c (Some err) # evs) = err # failures evs"
| "failures (_ # evs) = failures evs"

definition first_failure :: "goerr option \<Rightarrow> life_event list \<Rightarrow> goerr option" where
  "first_failure e evs = (case e of Some err \<Rightarrow> Some err | None \<Rightarrow> (case failures evs of [] \<Rightarrow> None | err # _ \<Rightarrow> Some err))"

lemma run_fail_first: "run_fail err (e, b) = (e', b') \<Longrightarrow>
    e' = (case e of Some x \<Rightarrow> Some x | None \<Rightarrow> err) \<and> b' = (b \<or> err \<noteq> None)"
  by (cases err; cases e) auto

lemma life_run_err:
  assumes "life_run l evs l'"
  shows "lf_err l' = first_failure (lf_err l) evs"
  using assms
proof induction
  case (stop l)
  show ?case by (simp add: first_failure_def split: option.splits)
next
  case (more l ev l1 evs l')
  from more(1) show ?case
  proof cases
    case (server_ends c err errRet stopped)
    then have "lf_err l1 = (case lf_err l of Some x \<Rightarrow> Some x | None \<Rightarrow> err)" using run_fail_first [OF server_ends(5)] by simp
    then show ?thesis using more.IH server_ends(1) by (cases err) (auto simp: first_failure_def split: option.splits)
  qed (use more.IH in \<open>simp_all add: first_failure_def split: option.splits\<close>)
qed

text \<open>Every step but the signal ends a goroutine, and the signal comes once.\<close>

definition steps_left :: "life \<Rightarrow> nat" where
  "steps_left l = length (lf_running l) + (if lf_cancelled l then 0 else 1)"

lemma life_step_decreases: "life_step l ev l' \<Longrightarrow> steps_left l' < steps_left l"
  by (induction rule: life_step.induct) (auto simp: steps_left_def length_remove1 dest!: run_fail_first length_pos_if_in_set)

lemma life_run_bounded: "life_run l evs l' \<Longrightarrow> length evs + steps_left l' \<le> steps_left l"
  by (induction rule: life_run.induct) (auto dest!: life_step_decreases)

lemma life_progress:
  assumes "run_returns l = None"
  shows "\<exists>ev l'. life_step l ev l'"
proof (cases "lf_cancelled l")
  case False
  then show ?thesis using life_step.signal by blast
next
  case True
  then obtain c where c: "c \<in> set (lf_running l)" using assms by (cases "lf_running l") (auto simp: run_returns_def)
  obtain e b where f: "run_fail None (lf_err l, lf_cancelled l) = (e, b)" by fastforce
  show ?thesis using life_step.loop_ends [OF c _ True] life_step.server_ends [OF c _ f] by (cases c) blast+
qed

text \<open>
  The process reports the first failure: when \<open>run\<close> has returned, all four goroutines have
  ended, it returns no error exactly if no server failed, and otherwise that of the server that
  failed first, with the hint about privileges if it was one of permissions. It gets there in at
  most five steps, and until then there is always a step it can take.
\<close>

lemma run_reports_first_failure:
  assumes "life_run started evs l"
  shows "length evs \<le> 5 \<and>
    (case run_returns l of
       None \<Rightarrow> \<exists>ev l'. life_step l ev l'
     | Some res \<Rightarrow> lf_running l = [] \<and> res = run_result (case failures evs of [] \<Rightarrow> None | err # _ \<Rightarrow> Some err))"
proof -
  have "length evs \<le> 5" using life_run_bounded [OF assms] by (simp add: steps_left_def started_def)
  moreover have "lf_err l = (case failures evs of [] \<Rightarrow> None | err # _ \<Rightarrow> Some err)"
    using life_run_err [OF assms] by (simp add: first_failure_def started_def)
  ultimately show ?thesis using life_progress [of l] by (auto simp: run_returns_def split: option.splits if_splits)
qed

end
