(* ===== verification/Durations.thy ===== *)
theory Durations
  imports Config GoFloat
begin

text \<open>
  The text form of durations in \<open>internal/config\<close>: \<open>Duration.UnmarshalYAML\<close> and
  \<open>Duration.MarshalYAML\<close>, over models of \<open>time.Duration.String\<close>, \<open>time.ParseDuration\<close>
  and \<open>strconv.ParseFloat\<close>, with the proof that every duration the program saves is the
  one it reads at its next start.
\<close>

unbundle bit_operations_syntax

section \<open>Writing a duration\<close>

text \<open>
  \<open>fmtFrac\<close> of package time: the last \<open>prec\<close> digits of \<open>v\<close> as a fraction without trailing
  zeros, in front of \<open>buf\<close>, and what is left of \<open>v\<close>. \<open>fmtInt\<close> is \<open>dec_string\<close>.
\<close>

fun fmtFrac :: "nat \<Rightarrow> nat \<Rightarrow> bool \<Rightarrow> string \<Rightarrow> string \<times> nat" where
  "fmtFrac 0 v pr buf = (if pr then CHR ''.'' # buf else buf, v)"
| "fmtFrac (Suc prec) v pr buf =
     (let d = v mod 10; pr' = (pr \<or> d \<noteq> 0)
      in fmtFrac prec (v div 10) pr' (if pr' then digit d # buf else buf))"

definition micro_sign :: string where
  "micro_sign = [CHR 0xC2, CHR 0xB5]"

text \<open>A count of a unit of \<open>10 ^ prec\<close> nanoseconds.\<close>

definition fmtUnit :: "nat \<Rightarrow> string \<Rightarrow> nat \<Rightarrow> string" where
  "fmtUnit prec unit u = (case fmtFrac prec u False unit of (buf, v) \<Rightarrow> dec_string v @ buf)"

definition fmtClock :: "nat \<Rightarrow> string" where
  "fmtClock u =
     (case fmtFrac 9 u False ''s'' of (buf, secs) \<Rightarrow>
        let mins = secs div 60; hours = mins div 60;
            buf1 = dec_string (secs mod 60) @ buf
        in if mins = 0 then buf1
           else let buf2 = dec_string (mins mod 60) @ ''m'' @ buf1
             in if hours = 0 then buf2 else dec_string hours @ ''h'' @ buf2)"

definition Duration_String :: "duration \<Rightarrow> string" where
  "Duration_String d =
     (let u = nat \<bar>d\<bar>;
          s = (if u = 0 then ''0s''
               else if u < 1000 then fmtUnit 0 ''ns'' u
               else if u < 1000000 then fmtUnit 3 (micro_sign @ ''s'') u
               else if u < 1000000000 then fmtUnit 6 ''ms'' u
               else fmtClock u)
      in if d < 0 then CHR ''-'' # s else s)"

section \<open>Reading a duration\<close>

text \<open>
  \<open>time.ParseDuration\<close>. The numbers are \<open>uint64\<close>: \<open>leadingInt\<close> and the guards keep every
  product and sum below \<open>2 ^ 64\<close> but the sum of the parts, which can wrap to 0.
\<close>

definition digit_val :: "char \<Rightarrow> nat" where
  "digit_val c = of_char c - 48"

fun leadingInt :: "nat \<Rightarrow> string \<Rightarrow> (nat \<times> string) option" where
  "leadingInt x [] = Some (x, [])"
| "leadingInt x (c # s) =
     (if \<not> is_digit c then Some (x, c # s)
      else if 2 ^ 63 div 10 < x then None
      else let x' = x * 10 + digit_val c in if 2 ^ 63 < x' then None else leadingInt x' s)"

fun leadingFraction :: "nat \<Rightarrow> rat \<Rightarrow> bool \<Rightarrow> string \<Rightarrow> nat \<times> rat \<times> string" where
  "leadingFraction x scale overflow [] = (x, scale, [])"
| "leadingFraction x scale overflow (c # s) =
     (if \<not> is_digit c then (x, scale, c # s)
      else if overflow \<or> (2 ^ 63 - 1) div 10 < x then leadingFraction x scale True s
      else let y = x * 10 + digit_val c in
        if 2 ^ 63 < y then leadingFraction x scale True s
        else leadingFraction y (f64 (scale * 10)) False s)"

definition unit_char :: "char \<Rightarrow> bool" where
  "unit_char c \<longleftrightarrow> c \<noteq> CHR ''.'' \<and> \<not> is_digit c"

definition unitMap :: "(string \<times> nat) list" where
  "unitMap =
     [(''ns'', 1), (''us'', 1000), (micro_sign @ ''s'', 1000), ([CHR 0xCE, CHR 0xBC] @ ''s'', 1000),
      (''ms'', 1000000), (''s'', 1000000000), (''m'', 60000000000), (''h'', 3600000000000)]"

text \<open>The number in front of a unit: integer part, fraction, its scale, and the text left.\<close>

definition leading_number :: "string \<Rightarrow> (nat \<times> nat \<times> rat \<times> string) option" where
  "leading_number s =
     (case leadingInt 0 s of
        None \<Rightarrow> None
      | Some (v, s1) \<Rightarrow>
          let pre = (length s1 \<noteq> length s) in
          if s1 \<noteq> [] \<and> hd s1 = CHR ''.'' then
            (case leadingFraction 0 1 False (tl s1) of (f, scale, s2) \<Rightarrow>
               if \<not> pre \<and> length s2 = length (tl s1) then None else Some (v, f, scale, s2))
          else if \<not> pre then None else Some (v, 0, 1, s1))"

definition with_unit :: "nat \<Rightarrow> nat \<Rightarrow> rat \<Rightarrow> nat \<Rightarrow> nat option" where
  "with_unit v f scale unit =
     (if 2 ^ 63 div unit < v then None
      else let v1 = v * unit;
               v2 = (if 0 < f then v1 + nat \<lfloor>f64 (f64 (of_nat f) * f64 (of_nat unit / scale))\<rfloor> else v1)
        in if 2 ^ 63 < v2 then None else Some v2)"

lemma leadingInt_length: "leadingInt x s = Some (v, s') \<Longrightarrow> length s' \<le> length s"
  by (induction x s rule: leadingInt.induct) (auto simp: Let_def split: if_splits)

lemma leadingFraction_length: "leadingFraction x sc ov s = (f, scale, s') \<Longrightarrow> length s' \<le> length s"
  by (induction x sc ov s rule: leadingFraction.induct) (auto simp: Let_def split: if_splits)

lemma leading_number_length: "leading_number s = Some (v, f, scale, s') \<Longrightarrow> length s' \<le> length s"
  by (auto simp: leading_number_def Let_def dest!: leadingInt_length leadingFraction_length
      split: option.splits if_splits prod.splits)

function parse_parts :: "nat \<Rightarrow> string \<Rightarrow> nat option" where
  "parse_parts d s =
     (if s = [] then Some d
      else case leading_number s of
        None \<Rightarrow> None
      | Some (v, f, scale, s1) \<Rightarrow>
          let u = takeWhile unit_char s1; s2 = dropWhile unit_char s1 in
          if u = [] then None
          else case map_of unitMap u of
            None \<Rightarrow> None
          | Some unit \<Rightarrow>
              (case with_unit v f scale unit of
                 None \<Rightarrow> None
               | Some v' \<Rightarrow>
                   let d' = (d + v') mod 2 ^ 64 in if 2 ^ 63 < d' then None else parse_parts d' s2))"
  by pat_completeness auto
termination
proof (relation "measure (length \<circ> snd)", simp)
  fix d :: nat and s :: string and x v y f z scale s1 u s2 unit v' d'
  assume s: "leading_number s = Some x" "(v, y) = x" "(f, z) = y" "(scale, s1) = z"
    and u: "u = takeWhile unit_char s1" "s2 = dropWhile unit_char s1" "u \<noteq> []"
  have "length u + length s2 = length s1" using u(1,2) by (metis length_append takeWhile_dropWhile_id)
  then have "length s2 < length s1" using u(3) by (cases u) auto
  then show "((d', s2), d, s) \<in> measure (length \<circ> snd)" using s leading_number_length [of s v f scale s1] by auto
qed

declare parse_parts.simps [simp del]

text \<open>
  The sign and the two special cases; \<open>None\<close> is an error. \<open>-Duration(d)\<close> of \<open>2 ^ 63\<close> is the
  least duration.
\<close>

definition ParseDuration :: "string \<Rightarrow> duration option" where
  "ParseDuration orig =
     (let neg = (orig \<noteq> [] \<and> hd orig = CHR ''-'');
          s = (if orig \<noteq> [] \<and> (hd orig = CHR ''-'' \<or> hd orig = CHR ''+'') then tl orig else orig)
      in if s = ''0'' then Some 0
         else if s = [] then None
         else case parse_parts 0 s of
           None \<Rightarrow> None
         | Some d \<Rightarrow> if neg then Some (- int d) else if 2 ^ 63 - 1 < d then None else Some (int d))"

section \<open>Reading a number\<close>

text \<open>
  \<open>strconv.ParseFloat(s, 64)\<close>; \<open>None\<close> is an error, of syntax or of range. The library rounds
  the exact value of the digits correctly, whichever of its algorithms it takes, so the value
  is the exact one rounded once. Below the normal range the rounding is finer here than there,
  which no whole number of nanoseconds shows.
\<close>

datatype float_value = Finite rat | Infinite bool | NotANumber

definition lower :: "char \<Rightarrow> char" where
  "lower c = chr_of (byte_of c OR 0x20)"

fun commonPrefixLenIgnoreCase :: "string \<Rightarrow> string \<Rightarrow> nat" where
  "commonPrefixLenIgnoreCase (c # s) (p # prefix) =
     (if (if 65 \<le> (of_char c :: int) \<and> (of_char c :: int) \<le> 90 then lower c else c) = p
      then Suc (commonPrefixLenIgnoreCase s prefix) else 0)"
| "commonPrefixLenIgnoreCase s prefix = 0"

definition infinity_len :: "string \<Rightarrow> nat option" where
  "infinity_len s =
     (let n = commonPrefixLenIgnoreCase s ''infinity''; n' = (if 3 < n \<and> n < 8 then 3 else n)
      in if n' = 3 \<or> n' = 8 then Some n' else None)"

fun special :: "string \<Rightarrow> (float_value \<times> nat) option" where
  "special [] = None"
| "special (c # s) =
     (if c = CHR ''+'' \<or> c = CHR ''-'' then map_option (\<lambda>n. (Infinite (c = CHR ''-''), 1 + n)) (infinity_len s)
      else if c = CHR ''i'' \<or> c = CHR ''I'' then map_option (\<lambda>n. (Infinite False, n)) (infinity_len (c # s))
      else if c = CHR ''n'' \<or> c = CHR ''N'' then
        (if commonPrefixLenIgnoreCase (c # s) ''nan'' = 3 then Some (NotANumber, 3) else None)
      else None)"

definition hex_letter :: "char \<Rightarrow> bool" where
  "hex_letter c \<longleftrightarrow> (let n = of_char (lower c) :: int in 97 \<le> n \<and> n \<le> 102)"

record mantissa =
  mt_sawdot :: bool
  mt_sawdigits :: bool
  mt_underscores :: bool
  mt_value :: nat
  mt_places :: nat

definition push_digit :: "nat \<Rightarrow> nat \<Rightarrow> mantissa \<Rightarrow> mantissa" where
  "push_digit base d m = m\<lparr>mt_sawdigits := True, mt_value := mt_value m * base + d,
     mt_places := (if mt_sawdot m then mt_places m + 1 else mt_places m)\<rparr>"

fun read_mantissa :: "bool \<Rightarrow> mantissa \<Rightarrow> string \<Rightarrow> mantissa \<times> string" where
  "read_mantissa hex m [] = (m, [])"
| "read_mantissa hex m (c # s) =
     (if c = CHR ''_'' then read_mantissa hex (m\<lparr>mt_underscores := True\<rparr>) s
      else if c = CHR ''.'' then (if mt_sawdot m then (m, c # s) else read_mantissa hex (m\<lparr>mt_sawdot := True\<rparr>) s)
      else if is_digit c then read_mantissa hex (push_digit (if hex then 16 else 10) (digit_val c) m) s
      else if hex \<and> hex_letter c then read_mantissa hex (push_digit 16 (of_char (lower c) - 97 + 10) m) s
      else (m, c # s))"

fun read_exponent :: "nat \<Rightarrow> bool \<Rightarrow> string \<Rightarrow> nat \<times> bool \<times> string" where
  "read_exponent e seen [] = (e, seen, [])"
| "read_exponent e seen (c # s) =
     (if c = CHR ''_'' then read_exponent e True s
      else if is_digit c then read_exponent (if e < 10000 then e * 10 + digit_val c else e) seen s
      else (e, seen, c # s))"

definition opt_exponent :: "bool \<Rightarrow> string \<Rightarrow> (int \<times> bool \<times> string) option" where
  "opt_exponent hex s =
     (case s of
        c # s1 \<Rightarrow>
          if lower c = (if hex then CHR ''p'' else CHR ''e'') then
            let signed = (s1 \<noteq> [] \<and> (hd s1 = CHR ''+'' \<or> hd s1 = CHR ''-''));
                s2 = (if signed then tl s1 else s1)
            in if s2 = [] \<or> \<not> is_digit (hd s2) then None
               else case read_exponent 0 False s2 of (e, seen, s3) \<Rightarrow>
                 Some (if signed \<and> hd s1 = CHR ''-'' then - int e else int e, seen, s3)
          else if hex then None else Some (0, False, s)
      | [] \<Rightarrow> if hex then None else Some (0, False, s))"

text \<open>An underscore must separate digits; a base prefix counts as a digit.\<close>

fun underscores_ok :: "bool \<Rightarrow> char \<Rightarrow> string \<Rightarrow> bool" where
  "underscores_ok hex saw [] = (saw \<noteq> CHR ''_'')"
| "underscores_ok hex saw (c # s) =
     (if is_digit c \<or> hex \<and> hex_letter c then underscores_ok hex CHR ''0'' s
      else if c = CHR ''_'' then saw = CHR ''0'' \<and> underscores_ok hex CHR ''_'' s
      else saw \<noteq> CHR ''_'' \<and> underscores_ok hex CHR ''!'' s)"

definition underscoreOK :: "string \<Rightarrow> bool" where
  "underscoreOK s0 =
     (let s = (if s0 \<noteq> [] \<and> (hd s0 = CHR ''-'' \<or> hd s0 = CHR ''+'') then tl s0 else s0) in
      case s of
        a # b # s' \<Rightarrow>
          if a = CHR ''0'' \<and> (lower b = CHR ''b'' \<or> lower b = CHR ''o'' \<or> lower b = CHR ''x'')
          then underscores_ok (lower b = CHR ''x'') CHR ''0'' s'
          else underscores_ok False CHR ''^'' s
      | _ \<Rightarrow> underscores_ok False CHR ''^'' s)"

definition scaled :: "nat \<Rightarrow> nat \<Rightarrow> int \<Rightarrow> rat" where
  "scaled m base e = (if 0 \<le> e then of_nat m * of_nat base ^ nat e else of_nat m / of_nat base ^ nat (- e))"

definition readFloat :: "string \<Rightarrow> (bool \<times> rat \<times> string) option" where
  "readFloat s =
     (let neg = (s \<noteq> [] \<and> hd s = CHR ''-'');
          s1 = (if s \<noteq> [] \<and> (hd s = CHR ''+'' \<or> hd s = CHR ''-'') then tl s else s);
          hex = (2 < length s1 \<and> s1 ! 0 = CHR ''0'' \<and> lower (s1 ! 1) = CHR ''x'');
          s2 = (if hex then drop 2 s1 else s1)
      in case read_mantissa hex \<lparr>mt_sawdot = False, mt_sawdigits = False, mt_underscores = False, mt_value = 0, mt_places = 0\<rparr> s2 of
           (m, s3) \<Rightarrow>
             if \<not> mt_sawdigits m then None
             else case opt_exponent hex s3 of
               None \<Rightarrow> None
             | Some (e, seen, s4) \<Rightarrow>
                 if (mt_underscores m \<or> seen) \<and> \<not> underscoreOK (take (length s - length s4) s) then None
                 else Some (neg,
                   (if hex then scaled (mt_value m) 2 (e - 4 * int (mt_places m)) else scaled (mt_value m) 10 (e - int (mt_places m))), s4))"

definition ParseFloat :: "string \<Rightarrow> float_value option" where
  "ParseFloat s =
     (case special s of
        Some (v, n) \<Rightarrow> if n \<noteq> length s then None else Some v
      | None \<Rightarrow>
          (case readFloat s of
             None \<Rightarrow> None
           | Some (neg, x, rest) \<Rightarrow>
               if rest \<noteq> [] \<or> 2 ^ 1024 \<le> f64 x then None
               else Some (Finite (if neg then - f64 x else f64 x))))"

section \<open>The two methods\<close>

text \<open>
  A float outside the range of \<open>int64\<close> converts to whatever the target does with it: \<open>conv\<close> is
  a parameter, used for such floats only.
\<close>

definition int64_of_float :: "(float_value \<Rightarrow> int) \<Rightarrow> float_value \<Rightarrow> int" where
  "int64_of_float conv v =
     (case v of
        Finite x \<Rightarrow>
          let n = (if x < 0 then - \<lfloor>- x\<rfloor> else \<lfloor>x\<rfloor>)
          in if - (2 ^ 63) \<le> n \<and> n < 2 ^ 63 then n else conv v
      | _ \<Rightarrow> conv v)"

definition times_second :: "float_value \<Rightarrow> float_value" where
  "times_second v =
     (case v of
        Finite x \<Rightarrow>
          let y = f64 (\<bar>x\<bar> * 1000000000)
          in if 2 ^ 1024 \<le> y then Infinite (x < 0) else Finite (if x < 0 then - y else y)
      | _ \<Rightarrow> v)"

text \<open>\<open>decoded\<close> is what \<open>node.Decode(&s)\<close> of the YAML library gives.\<close>

definition UnmarshalYAML :: "(float_value \<Rightarrow> int) \<Rightarrow> nat \<Rightarrow> string result \<Rightarrow> duration result" where
  "UnmarshalYAML conv line decoded =
     (case decoded of
        Inl _ \<Rightarrow> Inl (Errorf ''line %d: duration must be a string like 2s'' [dec_string line])
      | Inr s \<Rightarrow>
          (case ParseFloat s of
             Some secs \<Rightarrow> Inr (int64_of_float conv (times_second secs))
           | None \<Rightarrow>
               (case ParseDuration s of
                  None \<Rightarrow> Inl (Errorf ''line %d: invalid duration %q'' [dec_string line, s])
                | Some parsed \<Rightarrow> Inr parsed)))"

definition MarshalYAML :: "duration \<Rightarrow> string result" where
  "MarshalYAML d = Inr (Duration_String d)"

section \<open>Exact floats\<close>

lemma round_even_int: "round_even (of_int n) = n"
  by (simp add: round_even_def)

lemma f64_nat:
  assumes "n < 2 ^ 53"
  shows "f64 (of_nat n) = of_nat n"
proof (cases "n = 0")
  case False
  let ?e = "exponent (of_nat n)"
  have b: "pow2 ?e \<le> of_nat n" "of_nat n < 2 * pow2 ?e" using exponent_bounds [of "of_nat n"] False by simp_all
  have "0 \<le> ?e"
  proof (rule ccontr)
    assume "\<not> 0 \<le> ?e"
    define k where "k = nat (- ?e) - 1"
    then have "?e = int 0 - int (Suc k)" using \<open>\<not> 0 \<le> ?e\<close> by simp
    then have "2 * pow2 ?e = 1 / 2 ^ k" by (simp only: pow2_diff) simp
    moreover have "(1 :: rat) / 2 ^ k \<le> 1" by simp
    moreover have "(1 :: rat) \<le> of_nat n" using False by simp
    ultimately show False using b(2) by linarith
  qed
  then obtain k where k: "?e = int k" using zero_le_imp_eq_int by blast
  then have "(2 :: rat) ^ k \<le> of_nat n" using b(1) by (simp add: pow2_def)
  then have "2 ^ k \<le> n" by (simp only: of_nat_2pow)
  with assms have "(2 :: nat) ^ k < 2 ^ 53" by linarith
  then have "k < 53" by (rule power_less_imp_less_exp [rotated]) simp
  then have "k \<le> 52" by simp
  then have u: "pow2 (?e - 52) = 1 / 2 ^ (52 - k)" using pow2_diff [of 0 "52 - k"] k by (simp add: of_nat_diff)
  have "of_nat n / pow2 (?e - 52) = (of_int (int n * 2 ^ (52 - k)) :: rat)" by (simp add: u)
  then have "f64 (of_nat n) = of_int (int n * 2 ^ (52 - k)) * pow2 (?e - 52)"
    using False by (simp add: f64_def Let_def round_even_int del: of_int_mult of_int_power)
  then show ?thesis by (simp add: u)
qed (simp add: f64_def)

lemma f64_1 [simp]: "f64 1 = 1"
  using f64_nat [of 1] by simp

lemma f64_pow10: "k \<le> 15 \<Longrightarrow> f64 (10 ^ k) = 10 ^ k"
proof -
  assume "k \<le> 15"
  then have "(10 :: nat) ^ k \<le> 10 ^ 15" by (intro power_increasing) simp_all
  also have "\<dots> < 2 ^ 53" by simp
  finally show ?thesis using f64_nat [of "10 ^ k"] by simp
qed

section \<open>Digits\<close>

lemma is_digit_nat: "is_digit c \<longleftrightarrow> 48 \<le> (of_char c :: nat) \<and> (of_char c :: nat) \<le> 57"
proof -
  have "(of_char c :: int) = int (of_char c)" by (simp add: of_char_def)
  then show ?thesis by (simp only: is_digit_def) simp
qed

lemma digit_val_less: "is_digit c \<Longrightarrow> digit_val c < 10"
  unfolding is_digit_nat digit_val_def by linarith

lemma digit_facts:
  assumes "d < 10"
  shows "is_digit (digit d)" "digit_val (digit d) = d"
  using assms by (simp_all add: digit_def is_digit_nat digit_val_def)

definition decimal :: "string \<Rightarrow> nat" where
  "decimal s = foldl (\<lambda>x c. x * 10 + digit_val c) 0 s"

lemma decimal_simps [simp]: "decimal [] = 0" "decimal (s @ [c]) = decimal s * 10 + digit_val c"
  by (simp_all add: decimal_def)

lemma decimal_from: "foldl (\<lambda>x c. x * 10 + digit_val c) a s = a * 10 ^ length s + decimal s"
  by (induction s rule: rev_induct) (simp_all add: algebra_simps decimal_def)

lemma dec_string_facts: "decimal (dec_string n) = n \<and> list_all is_digit (dec_string n) \<and> dec_string n \<noteq> []"
proof (induction n rule: dec_string.induct)
  case (1 n)
  show ?case
  proof (cases "n < 10")
    case True
    then show ?thesis using digit_facts decimal_simps(2) [of "[]"] by (subst (1 2 3) dec_string.simps) simp
  next
    case False
    with 1 have "decimal (dec_string (n div 10)) = n div 10" "list_all is_digit (dec_string (n div 10))" by simp_all
    then show ?thesis using False digit_facts [of "n mod 10"] by (subst (1 2 3) dec_string.simps) simp
  qed
qed

lemmas dec_string_decimal [simp] = dec_string_facts [THEN conjunct1]
lemmas dec_string_digits [simp] = dec_string_facts [THEN conjunct2, THEN conjunct1]
lemmas dec_string_not_Nil [simp] = dec_string_facts [THEN conjunct2, THEN conjunct2]

text \<open>Text that a run of digits stops at.\<close>

definition no_digit :: "string \<Rightarrow> bool" where
  "no_digit s \<longleftrightarrow> s = [] \<or> \<not> is_digit (hd s)"

lemma leadingInt_stop: "no_digit s \<Longrightarrow> leadingInt x s = Some (x, s)"
  by (cases s) (simp_all add: no_digit_def)

lemma leadingInt_reads:
  assumes "list_all is_digit ds" "x * 10 ^ length ds + decimal ds \<le> 2 ^ 63" "no_digit s"
  shows "leadingInt x (ds @ s) = Some (x * 10 ^ length ds + decimal ds, s)"
  using assms(1,2)
proof (induction ds arbitrary: x)
  case Nil
  then show ?case using leadingInt_stop [OF assms(3)] by simp
next
  case (Cons c ds)
  let ?x = "x * 10 + digit_val c"
  have "foldl (\<lambda>x c. x * 10 + digit_val c) x (c # ds) = foldl (\<lambda>x c. x * 10 + digit_val c) ?x ds" by simp
  then have v: "x * 10 ^ length (c # ds) + decimal (c # ds) = ?x * 10 ^ length ds + decimal ds" by (simp only: decimal_from)
  have "?x \<le> ?x * 10 ^ length ds" by simp
  also have "\<dots> \<le> ?x * 10 ^ length ds + decimal ds" by simp
  also have "\<dots> \<le> 2 ^ 63" using Cons.prems(2) by (simp only: v)
  finally have "?x \<le> 2 ^ 63" .
  then have "x \<le> 2 ^ 63 div 10" "\<not> 2 ^ 63 < ?x" by linarith+
  moreover have "leadingInt ?x (ds @ s) = Some (?x * 10 ^ length ds + decimal ds, s)" using Cons v by (intro Cons.IH) simp_all
  ultimately show ?case using Cons.prems(1) v by (simp add: Let_def)
qed

lemma leadingFraction_stop: "no_digit s \<Longrightarrow> leadingFraction x sc ov s = (x, sc, s)"
  by (cases s) (simp_all add: no_digit_def)

lemma leadingFraction_reads:
  assumes "list_all is_digit ds" "j + length ds \<le> 15" "x < 10 ^ j" "no_digit s"
  shows "leadingFraction x (10 ^ j) False (ds @ s) = (x * 10 ^ length ds + decimal ds, 10 ^ (j + length ds), s)"
  using assms(1,2,3)
proof (induction ds arbitrary: x j)
  case Nil
  then show ?case using leadingFraction_stop [OF assms(4)] by simp
next
  case (Cons c ds)
  let ?x = "x * 10 + digit_val c"
  have "foldl (\<lambda>x c. x * 10 + digit_val c) x (c # ds) = foldl (\<lambda>x c. x * 10 + digit_val c) ?x ds" by simp
  then have v: "x * 10 ^ length (c # ds) + decimal (c # ds) = ?x * 10 ^ length ds + decimal ds" by (simp only: decimal_from)
  have d: "digit_val c < 10" using Cons.prems(1) digit_val_less by simp
  have x: "?x < 10 ^ Suc j" using d Cons.prems(3) by simp
  have "(10 :: nat) ^ Suc j \<le> 10 ^ 15" using Cons.prems(2) by (intro power_increasing) simp_all
  then have "?x < 10 ^ 15" using x by linarith
  then have g: "x \<le> (2 ^ 63 - 1) div 10" "\<not> 2 ^ 63 < ?x" by simp_all
  have "f64 (10 ^ j * 10) = 10 ^ Suc j" using f64_pow10 [of "Suc j"] Cons.prems(2) by (simp add: mult.commute)
  moreover have "leadingFraction ?x (10 ^ Suc j) False (ds @ s) = (?x * 10 ^ length ds + decimal ds, 10 ^ (Suc j + length ds), s)"
    using Cons.prems x by (intro Cons.IH) simp_all
  ultimately show ?case using Cons.prems(1) v g by (simp add: Let_def)
qed

section \<open>A duration is read as it was written\<close>

lemma fmtFrac_printing:
  "\<exists>ds. fmtFrac n v True buf = (CHR ''.'' # ds @ buf, v div 10 ^ n) \<and> list_all is_digit ds \<and> length ds = n \<and> decimal ds = v mod 10 ^ n"
proof (induction n arbitrary: v buf)
  case (Suc n)
  from Suc.IH [of "v div 10" "digit (v mod 10) # buf"] obtain ds where
    "fmtFrac n (v div 10) True (digit (v mod 10) # buf) = (CHR ''.'' # ds @ digit (v mod 10) # buf, v div 10 div 10 ^ n)"
    "list_all is_digit ds" "length ds = n" "decimal ds = v div 10 mod 10 ^ n" by blast
  moreover have "v mod (10 * 10 ^ n) = v div 10 mod 10 ^ n * 10 + v mod 10" by (simp add: mod_mult2_eq)
  ultimately show ?case using digit_facts [of "v mod 10"]
    by (intro exI [of _ "ds @ [digit (v mod 10)]"]) (simp add: div_mult2_eq Let_def)
qed simp

lemma fmtFrac_fraction:
  "\<exists>ds. fmtFrac n v False buf = (if v mod 10 ^ n = 0 then buf else CHR ''.'' # ds @ buf, v div 10 ^ n) \<and>
     list_all is_digit ds \<and> length ds \<le> n \<and> decimal ds * 10 ^ (n - length ds) = v mod 10 ^ n"
proof (induction n arbitrary: v buf)
  case (Suc n)
  have m: "v mod (10 * 10 ^ n) = v div 10 mod 10 ^ n * 10 + v mod 10" by (simp add: mod_mult2_eq)
  show ?case
  proof (cases "v mod 10 = 0")
    case True
    with Suc.IH [of "v div 10" buf] obtain ds where
      "fmtFrac n (v div 10) False buf = (if v div 10 mod 10 ^ n = 0 then buf else CHR ''.'' # ds @ buf, v div 10 div 10 ^ n)"
      "list_all is_digit ds" "length ds \<le> n" "decimal ds * 10 ^ (n - length ds) = v div 10 mod 10 ^ n" by blast
    with True m show ?thesis by (intro exI [of _ ds]) (simp add: div_mult2_eq Let_def Suc_diff_le algebra_simps)
  next
    case False
    from fmtFrac_printing [of n "v div 10" "digit (v mod 10) # buf"] obtain ds where
      "fmtFrac n (v div 10) True (digit (v mod 10) # buf) = (CHR ''.'' # ds @ digit (v mod 10) # buf, v div 10 div 10 ^ n)"
      "list_all is_digit ds" "length ds = n" "decimal ds = v div 10 mod 10 ^ n" by blast
    with False m digit_facts [of "v mod 10"] show ?thesis
      by (intro exI [of _ "ds @ [digit (v mod 10)]"]) (simp add: div_mult2_eq Let_def)
  qed
qed simp

text \<open>A unit, and text that the search for its end stops at.\<close>

definition unit_text :: "string \<Rightarrow> bool" where
  "unit_text u \<longleftrightarrow> u \<noteq> [] \<and> list_all unit_char u"

definition no_unit :: "string \<Rightarrow> bool" where
  "no_unit s \<longleftrightarrow> s = [] \<or> \<not> unit_char (hd s)"

lemma unit_text_ends:
  assumes "unit_text u" "no_unit s"
  shows "takeWhile unit_char (u @ s) = u" "dropWhile unit_char (u @ s) = s"
  using assms by (cases s; simp add: unit_text_def no_unit_def takeWhile_append list_all_iff)+

lemma unit_text_no_digit: "unit_text u \<Longrightarrow> no_digit (u @ s)"
  by (cases u) (simp_all add: unit_text_def no_digit_def unit_char_def)

lemma units: "unit_text ''ns''" "unit_text (micro_sign @ ''s'')" "unit_text ''ms''" "unit_text ''s''" "unit_text ''m''" "unit_text ''h''"
  by code_simp+

lemma no_unit_dec [simp]: "no_unit []" "no_unit (dec_string n @ s)"
  using dec_string_digits [of n] dec_string_not_Nil [of n] by (cases "dec_string n"; simp add: no_unit_def unit_char_def)+

lemma parse_parts_unit:
  assumes "leading_number s = Some (v, f, scale, u @ rest)" "s \<noteq> []" "unit_text u" "no_unit rest"
    and "map_of unitMap u = Some unit" "with_unit v f scale unit = Some n" "d + n \<le> 2 ^ 63"
  shows "parse_parts d s = parse_parts (d + n) rest"
proof -
  have "d + n < 2 ^ 64" using assms(7) by simp
  then have "(d + n) mod 2 ^ 64 = d + n" by (rule mod_less)
  then show ?thesis using assms unit_text_ends [OF assms(3,4)]
    by (subst parse_parts.simps) (simp add: unit_text_def Let_def)
qed

lemma with_unit_whole:
  assumes "v * unit \<le> 2 ^ 63" "0 < unit"
  shows "with_unit v 0 1 unit = Some (v * unit)"
proof -
  have "v = v * unit div unit" using assms(2) by simp
  also have "\<dots> \<le> 2 ^ 63 div unit" by (rule div_le_mono [OF assms(1)])
  finally show ?thesis using assms(1) by (simp add: with_unit_def not_less)
qed

lemma with_unit_fraction:
  assumes "v * 10 ^ n + f * 10 ^ (n - k) \<le> 2 ^ 63" "n \<le> 9" "k \<le> n" "0 < f" "f < 10 ^ k"
  shows "with_unit v f (10 ^ k) (10 ^ n) = Some (v * 10 ^ n + f * 10 ^ (n - k))"
proof -
  have "(10 :: nat) ^ k \<le> 10 ^ 9" using assms by (intro power_increasing) simp_all
  then have f: "f64 (of_nat f) = of_nat f" using assms(5) by (intro f64_nat) simp
  have "(of_nat (10 ^ n) :: rat) / 10 ^ k = 10 ^ (n - k)" using assms(3) by (simp add: power_diff)
  moreover have "f64 (10 ^ (n - k)) = 10 ^ (n - k)" using assms(2) by (intro f64_pow10) simp
  ultimately have s: "f64 (of_nat (10 ^ n) / 10 ^ k) = 10 ^ (n - k)" by simp
  have "f * 10 ^ (n - k) < 10 ^ k * 10 ^ (n - k)" using assms(5) by simp
  also have "\<dots> = 10 ^ n" using assms(3) by (simp flip: power_add)
  also have "(10 :: nat) ^ n \<le> 10 ^ 9" using assms(2) by (intro power_increasing) simp_all
  finally have "f64 (of_nat (f * 10 ^ (n - k))) = of_nat (f * 10 ^ (n - k))" by (intro f64_nat) simp
  then have p: "f64 (f64 (of_nat f) * f64 (of_nat (10 ^ n) / 10 ^ k)) = of_int (int (f * 10 ^ (n - k)))" unfolding f s by simp
  have "v * 10 ^ n \<le> 2 ^ 63" using assms(1) by linarith
  then have "v * 10 ^ n div 10 ^ n \<le> 2 ^ 63 div 10 ^ n" by (rule div_le_mono)
  then have g: "\<not> 2 ^ 63 div 10 ^ n < v" by simp
  have "nat \<lfloor>f64 (f64 (of_nat f) * f64 (of_nat (10 ^ n) / 10 ^ k))\<rfloor> = f * 10 ^ (n - k)" unfolding p by (simp only: floor_of_int nat_int)
  with g assms(1,4) show ?thesis by (simp add: with_unit_def Let_def del: of_nat_power)
qed

lemma leading_number_whole:
  assumes "v \<le> 2 ^ 63" "unit_text u"
  shows "leading_number (dec_string v @ u @ s) = Some (v, 0, 1, u @ s)"
proof -
  have "leadingInt 0 (dec_string v @ u @ s) = Some (v, u @ s)"
    using leadingInt_reads [OF dec_string_digits, of 0 v "u @ s"] assms unit_text_no_digit by simp
  moreover obtain c u' where "u = c # u'" "c \<noteq> CHR ''.''" using assms(2) by (cases u) (auto simp: unit_text_def unit_char_def)
  ultimately show ?thesis by (simp add: leading_number_def Let_def)
qed

lemma leading_number_fraction:
  assumes "v \<le> 2 ^ 63" "unit_text u" "list_all is_digit ds" "length ds \<le> 9"
  shows "leading_number (dec_string v @ CHR ''.'' # ds @ u @ s) = Some (v, decimal ds, 10 ^ length ds, u @ s)"
proof -
  have "no_digit (CHR ''.'' # ds @ u @ s)" by (simp add: no_digit_def is_digit_def)
  then have "leadingInt 0 (dec_string v @ CHR ''.'' # ds @ u @ s) = Some (v, CHR ''.'' # ds @ u @ s)"
    using leadingInt_reads [OF dec_string_digits, of 0 v "CHR ''.'' # ds @ u @ s"] assms(1) by simp
  moreover have "leadingFraction 0 1 False (ds @ u @ s) = (decimal ds, 10 ^ length ds, u @ s)"
    using leadingFraction_reads [OF assms(3), of 0 0 "u @ s"] assms(4) unit_text_no_digit [OF assms(2)] by simp
  ultimately show ?thesis by (simp add: leading_number_def Let_def)
qed

lemma last_part:
  assumes "fmtFrac n u False us = (buf, q)" "n \<le> 9" "unit_text us" "map_of unitMap us = Some (10 ^ n)"
    and "d + v * 10 ^ n + u mod 10 ^ n \<le> 2 ^ 63"
  shows "parse_parts d (dec_string v @ buf) = Some (d + v * 10 ^ n + u mod 10 ^ n)"
proof -
  from fmtFrac_fraction [of n u us] assms(1) obtain ds where
    ds: "buf = (if u mod 10 ^ n = 0 then us else CHR ''.'' # ds @ us)" "list_all is_digit ds" "length ds \<le> n"
      "decimal ds * 10 ^ (n - length ds) = u mod 10 ^ n" by auto
  have "v \<le> v * 10 ^ n" by simp
  then have v: "v \<le> 2 ^ 63" using assms(5) by linarith
  have e: "parse_parts m [] = Some m" for m by (simp add: parse_parts.simps)
  show ?thesis
  proof (cases "u mod 10 ^ n = 0")
    case True
    have "with_unit v 0 1 (10 ^ n) = Some (v * 10 ^ n)" using assms(5) by (intro with_unit_whole) simp_all
    with True ds(1) assms show ?thesis
      using parse_parts_unit [where rest = "[]" and s = "dec_string v @ us"] leading_number_whole [OF v assms(3), of "[]"] by (simp add: e)
  next
    case False
    have "u mod 10 ^ n < 10 ^ length ds * 10 ^ (n - length ds)" using ds(3) by (simp flip: power_add)
    then have "decimal ds < 10 ^ length ds" using ds(4) by (metis mult_less_cancel2)
    moreover have "0 < decimal ds" using False ds(4) by (cases "decimal ds") simp_all
    moreover have "v * 10 ^ n + decimal ds * 10 ^ (n - length ds) \<le> 2 ^ 63" unfolding ds(4) using assms(5) by linarith
    ultimately have "with_unit v (decimal ds) (10 ^ length ds) (10 ^ n) = Some (v * 10 ^ n + u mod 10 ^ n)"
      using with_unit_fraction [of v n "decimal ds" "length ds"] assms(2) ds(3,4) by simp
    with False ds assms(2-5) show ?thesis
      using parse_parts_unit [where rest = "[]" and s = "dec_string v @ CHR ''.'' # ds @ us"] leading_number_fraction [OF v assms(3) ds(2), of "[]"]
      by (simp add: e add.assoc)
  qed
qed

lemma whole_part:
  assumes "unit_text us" "map_of unitMap us = Some unit" "0 < unit" "no_unit rest" "d + v * unit \<le> 2 ^ 63"
  shows "parse_parts d (dec_string v @ us @ rest) = parse_parts (d + v * unit) rest"
proof -
  have "v \<le> v * unit" using assms(3) by simp
  then have v: "v \<le> 2 ^ 63" using assms(5) by linarith
  from assms with_unit_whole [of v unit] show ?thesis
    by (intro parse_parts_unit [OF leading_number_whole [OF v assms(1)]]) simp_all
qed

lemma fmtUnit_read:
  assumes "n \<le> 9" "unit_text us" "map_of unitMap us = Some (10 ^ n)" "u \<le> 2 ^ 63"
  shows "parse_parts 0 (fmtUnit n us u) = Some u"
proof -
  obtain ds where f: "fmtFrac n u False us = (if u mod 10 ^ n = 0 then us else CHR ''.'' # ds @ us, u div 10 ^ n)"
    using fmtFrac_fraction by blast
  have "u div 10 ^ n * 10 ^ n + u mod 10 ^ n = u" by (rule div_mult_mod_eq)
  with last_part [OF f assms(1,2,3), of 0 "u div 10 ^ n"] assms(4) show ?thesis by (simp add: fmtUnit_def f)
qed

lemma unitMap_units:
  "map_of unitMap ''ns'' = Some (10 ^ 0)" "map_of unitMap (micro_sign @ ''s'') = Some (10 ^ 3)" "map_of unitMap ''ms'' = Some (10 ^ 6)"
  "map_of unitMap ''s'' = Some (10 ^ 9)" "map_of unitMap ''m'' = Some 60000000000" "map_of unitMap ''h'' = Some 3600000000000"
  by (simp_all add: unitMap_def micro_sign_def)

lemma fmtClock_read:
  assumes "u \<le> 2 ^ 63"
  shows "parse_parts 0 (fmtClock u) = Some u"
proof -
  define secs where "secs = u div 10 ^ 9"
  obtain ds where f: "fmtFrac 9 u False ''s'' = (if u mod 10 ^ 9 = 0 then ''s'' else CHR ''.'' # ds @ ''s'', secs)"
    using fmtFrac_fraction unfolding secs_def by blast
  let ?buf = "fst (fmtFrac 9 u False ''s'')"
  have u: "u = secs * 10 ^ 9 + u mod 10 ^ 9" unfolding secs_def by (rule div_mult_mod_eq [symmetric])
  have hms: "secs = secs div 60 div 60 * 3600 + secs div 60 mod 60 * 60 + secs mod 60"
    using div_mult_mod_eq [of secs 60] div_mult_mod_eq [of "secs div 60" 60] by linarith
  have S: "parse_parts d (dec_string v @ ?buf) = Some (d + v * 10 ^ 9 + u mod 10 ^ 9)" if "d + v * 10 ^ 9 + u mod 10 ^ 9 \<le> 2 ^ 63" for d v
    using last_part [OF _ _ units(4) unitMap_units(4), of u ?buf secs d v] f that by simp
  have M: "parse_parts d (dec_string v @ ''m'' @ dec_string w @ s) = parse_parts (d + v * 60000000000) (dec_string w @ s)"
    if "d + v * 60000000000 \<le> 2 ^ 63" for d v w s
    using that by (intro whole_part [OF units(5) unitMap_units(5)]) simp_all
  have H: "parse_parts 0 (dec_string v @ ''h'' @ dec_string w @ s) = parse_parts (v * 3600000000000) (dec_string w @ s)"
    if "v * 3600000000000 \<le> 2 ^ 63" for v w s
    using that whole_part [OF units(6) unitMap_units(6), of "dec_string w @ s" 0 v] by simp
  define h m s where "h = secs div 60 div 60" and "m = secs div 60 mod 60" and "s = secs mod 60"
  have "secs = h * 3600 + m * 60 + s" using hms by (simp add: h_def m_def s_def)
  then have "secs * 10 ^ 9 = h * 3600000000000 + m * 60000000000 + s * 10 ^ 9" by simp
  then have U: "u = h * 3600000000000 + m * 60000000000 + s * 10 ^ 9 + u mod 10 ^ 9" by (intro trans [OF u]) (simp only:)
  have g: "h * 3600000000000 + m * 60000000000 + s * 10 ^ 9 + u mod 10 ^ 9 \<le> 2 ^ 63" using U assms by linarith
  then have g1: "h * 3600000000000 \<le> 2 ^ 63" "h * 3600000000000 + m * 60000000000 \<le> 2 ^ 63" by linarith+
  have SU: "parse_parts (h * 3600000000000 + m * 60000000000) (dec_string s @ ?buf) = Some u" using S [OF g] U by simp
  then have MU: "parse_parts (h * 3600000000000) (dec_string m @ ''m'' @ dec_string s @ ?buf) = Some u" using M [OF g1(2)] by simp
  then have HU: "parse_parts 0 (dec_string h @ ''h'' @ dec_string m @ ''m'' @ dec_string s @ ?buf) = Some u" using H [OF g1(1)] by simp
  have c: "fmtClock u = (if secs div 60 = 0 then dec_string s @ ?buf
      else if h = 0 then dec_string m @ ''m'' @ dec_string s @ ?buf else dec_string h @ ''h'' @ dec_string m @ ''m'' @ dec_string s @ ?buf)"
    by (simp add: fmtClock_def Let_def f h_def m_def s_def)
  have "secs div 60 = 0 \<Longrightarrow> h = 0 \<and> m = 0" by (simp add: h_def m_def)
  with SU MU HU show ?thesis unfolding c by (cases "secs div 60 = 0"; cases "h = 0") simp_all
qed

lemma fmt_starts:
  "\<exists>c s. fmtUnit n us u = c # s \<and> is_digit c" "\<exists>c s. fmtClock u = c # s \<and> is_digit c"
proof -
  have d: "\<exists>c s'. dec_string v @ s = c # s' \<and> is_digit c" for v s
    using dec_string_digits [of v] dec_string_not_Nil [of v] by (cases "dec_string v") auto
  show "\<exists>c s. fmtUnit n us u = c # s \<and> is_digit c" using d by (auto simp: fmtUnit_def split: prod.splits)
  show "\<exists>c s. fmtClock u = c # s \<and> is_digit c" using d by (auto simp: fmtClock_def Let_def split: prod.splits)
qed

lemma zero_string: "dec_string 0 = ''0''"
  by code_simp

lemma leading_number_zero: "leading_number ''0'' = Some (0, 0, 1, [])"
  by (simp add: leading_number_def is_digit_def digit_val_def)

lemma fmtFrac_zero: "fmtFrac n 0 False buf = (buf, 0)"
  by (induction n) simp_all

lemma ParseDuration_String:
  assumes "- (2 ^ 63) \<le> d" "d < 2 ^ 63"
  shows "ParseDuration (Duration_String d) = Some d"
proof (cases "d = 0")
  case True
  from last_part [OF fmtFrac_zero _ units(4) unitMap_units(4), of 0 0] have "parse_parts 0 ''0s'' = Some 0" by (simp add: zero_string)
  then show ?thesis using True by (simp add: Duration_String_def ParseDuration_def)
next
  case False
  define u s where "u = nat \<bar>d\<bar>" and "s = Duration_String \<bar>d\<bar>"
  have u: "u \<noteq> 0" "u \<le> 2 ^ 63" "int u = \<bar>d\<bar>" using False assms by (auto simp: u_def)
  have "parse_parts 0 s = Some u \<and> (\<exists>c s'. s = c # s' \<and> is_digit c)"
    using u(1) fmtUnit_read [OF _ units(1) unitMap_units(1) u(2)] fmtUnit_read [OF _ units(2) unitMap_units(2) u(2)]
      fmtUnit_read [OF _ units(3) unitMap_units(3) u(2)] fmtClock_read [OF u(2)] fmt_starts
    by (simp add: s_def Duration_String_def Let_def flip: u_def)
  then obtain c s' where p: "parse_parts 0 s = Some u" "s = c # s'" "is_digit c" by blast
  have c: "c \<noteq> CHR ''-''" "c \<noteq> CHR ''+''" using p(3) by (auto simp: is_digit_def)
  have "s \<noteq> ''0''"
  proof
    assume "s = ''0''"
    moreover have "parse_parts 0 ''0'' = None" by (subst parse_parts.simps) (simp add: leading_number_zero)
    ultimately show False using p(1) by simp
  qed
  moreover have "Duration_String d = (if d < 0 then CHR ''-'' # s else s)" by (simp add: s_def Duration_String_def Let_def)
  ultimately show ?thesis using p c u(3) assms(2) by (auto simp: ParseDuration_def Let_def)
qed

text \<open>No text with an \<open>s\<close> in it is a number.\<close>

lemma lower_s: "lower CHR ''s'' = CHR ''s''"
  by code_simp

lemma not_digit_s: "\<not> is_digit CHR ''s''"
  by (simp add: is_digit_def)

lemma prefix_chars:
  "n \<le> commonPrefixLenIgnoreCase s p \<Longrightarrow> CHR ''s'' \<notin> set p \<Longrightarrow> CHR ''s'' \<notin> set (take n s)"
proof (induction s p arbitrary: n rule: commonPrefixLenIgnoreCase.induct)
  case (1 c s p ps)
  then show ?case by (cases n) (auto split: if_splits)
qed auto

lemma infinity_chars:
  assumes "infinity_len s = Some n"
  shows "CHR ''s'' \<notin> set (take n s)"
  using assms prefix_chars [of n s "''infinity''"] by (auto simp: infinity_len_def Let_def split: if_splits)

lemma special_chars:
  assumes "special s = Some (v, length s)"
  shows "CHR ''s'' \<notin> set s"
  using assms
proof (cases s)
  case (Cons c s')
  then show ?thesis using assms infinity_chars [of s' "length s'"] infinity_chars [of s "length s"] prefix_chars [of 3 s "''nan''"]
    by (auto split: if_splits)
qed simp

lemma read_mantissa_chars:
  "read_mantissa hex m s = (m', s') \<Longrightarrow> CHR ''s'' \<notin> set s' \<Longrightarrow> CHR ''s'' \<notin> set s"
  by (induction hex m s rule: read_mantissa.induct) (auto simp: is_digit_def hex_letter_def lower_s Let_def split: if_splits)

lemma read_exponent_chars:
  "read_exponent e seen s = (e', seen', s') \<Longrightarrow> CHR ''s'' \<notin> set s' \<Longrightarrow> CHR ''s'' \<notin> set s"
  by (induction e seen s rule: read_exponent.induct) (auto simp: is_digit_def split: if_splits)

lemma opt_exponent_chars:
  assumes "opt_exponent hex s = Some (e, seen, s')" "CHR ''s'' \<notin> set s'"
  shows "CHR ''s'' \<notin> set s"
proof (cases s)
  case (Cons c t)
  show ?thesis
  proof (cases "lower c = (if hex then CHR ''p'' else CHR ''e'')")
    case True
    define t2 where "t2 = (if t \<noteq> [] \<and> (hd t = CHR ''+'' \<or> hd t = CHR ''-'') then tl t else t)"
    from True assms(1) Cons obtain e2 where "read_exponent 0 False t2 = (e2, seen, s')"
      unfolding opt_exponent_def Let_def t2_def by (auto split: if_splits prod.splits)
    then have "CHR ''s'' \<notin> set t2" using read_exponent_chars assms(2) by blast
    then have "CHR ''s'' \<notin> set t" unfolding t2_def by (cases t) (auto split: if_splits)
    then show ?thesis using True Cons lower_s by (auto split: if_splits)
  next
    case False
    then show ?thesis using assms Cons by (auto simp: opt_exponent_def split: if_splits)
  qed
qed simp

lemma ParseFloat_chars:
  assumes "CHR ''s'' \<in> set s"
  shows "ParseFloat s = None"
proof (rule ccontr)
  assume "ParseFloat s \<noteq> None"
  then obtain v where "ParseFloat s = Some v" by blast
  then consider "special s = Some (v, length s)" | neg x where "readFloat s = Some (neg, x, [])"
    by (auto simp: ParseFloat_def split: option.splits if_splits)
  then show False
  proof cases
    case 1
    then show False using special_chars assms by blast
  next
    case 2
    define s1 where "s1 = (if s \<noteq> [] \<and> (hd s = CHR ''+'' \<or> hd s = CHR ''-'') then tl s else s)"
    define hex where "hex \<longleftrightarrow> 2 < length s1 \<and> s1 ! 0 = CHR ''0'' \<and> lower (s1 ! 1) = CHR ''x''"
    from 2 obtain m0 m s3 e seen where r: "read_mantissa hex m0 (if hex then drop 2 s1 else s1) = (m, s3)" "opt_exponent hex s3 = Some (e, seen, [])"
      unfolding readFloat_def Let_def s1_def [symmetric] hex_def [symmetric] by (auto split: prod.splits option.splits if_splits)
    then have "CHR ''s'' \<notin> set (if hex then drop 2 s1 else s1)" using read_mantissa_chars opt_exponent_chars by fastforce
    moreover have "set s1 = {s1 ! 0, s1 ! 1} \<union> set (drop 2 s1)" if hex using that unfolding hex_def by (cases s1; cases "tl s1") auto
    moreover have "s1 ! 0 \<noteq> CHR ''s''" "s1 ! 1 \<noteq> CHR ''s''" if hex using that lower_s unfolding hex_def by auto
    ultimately have "CHR ''s'' \<notin> set s1" by (auto split: if_splits)
    then show False using assms unfolding s1_def by (cases s) (auto split: if_splits)
  qed
qed

lemma Duration_String_s: "CHR ''s'' \<in> set (Duration_String d)"
proof -
  have "CHR ''s'' \<in> set (fst (fmtFrac n v pr (buf @ ''s'')))" for n v pr buf
    using fmtFrac_fraction [of n v "buf @ ''s''"] fmtFrac_printing [of n v "buf @ ''s''"] by (cases pr) auto
  from this [of 0 _ _ "''n''"] this [of 3 _ _ micro_sign] this [of 6 _ _ "''m''"] this [of 9 _ _ "[]"] show ?thesis
    by (auto simp: Duration_String_def fmtUnit_def fmtClock_def Let_def case_prod_beta split: if_splits)
qed

text \<open>A bare whole number.\<close>

lemma read_mantissa_digits:
  assumes "list_all is_digit ds" "\<not> mt_sawdot m" "mt_places m = 0"
  shows "\<exists>m'. read_mantissa False m ds = (m', []) \<and> (ds \<noteq> [] \<longrightarrow> mt_sawdigits m') \<and> (mt_sawdigits m \<longrightarrow> mt_sawdigits m') \<and>
    mt_underscores m' = mt_underscores m \<and> mt_places m' = 0 \<and> mt_value m' = mt_value m * 10 ^ length ds + decimal ds"
  using assms
proof (induction ds arbitrary: m)
  case (Cons c ds)
  let ?m = "push_digit 10 (digit_val c) m" and ?x = "mt_value m * 10 + digit_val c"
  have "foldl (\<lambda>x c. x * 10 + digit_val c) (mt_value m) (c # ds) = foldl (\<lambda>x c. x * 10 + digit_val c) ?x ds" by simp
  then have v: "mt_value m * 10 ^ length (c # ds) + decimal (c # ds) = ?x * 10 ^ length ds + decimal ds" by (simp only: decimal_from)
  have c: "c \<noteq> CHR ''_''" "c \<noteq> CHR ''.''" using Cons.prems(1) by (auto simp: is_digit_def)
  have "list_all is_digit ds" "\<not> mt_sawdot ?m" "mt_places ?m = 0" using Cons.prems by (simp_all add: push_digit_def)
  from Cons.IH [OF this] obtain m' where "read_mantissa False ?m ds = (m', [])" "mt_sawdigits ?m \<longrightarrow> mt_sawdigits m'"
    "mt_underscores m' = mt_underscores ?m" "mt_places m' = 0" "mt_value m' = mt_value ?m * 10 ^ length ds + decimal ds" by blast
  moreover have "mt_sawdigits ?m" "mt_underscores ?m = mt_underscores m" "mt_value ?m = ?x" by (simp_all add: push_digit_def)
  ultimately show ?case unfolding v using c Cons.prems(1) by (intro exI [of _ m']) simp
qed simp

lemma digit_chars: "is_digit c \<Longrightarrow> c \<in> set ''0123456789''"
proof -
  assume "is_digit c"
  then have "(of_char c :: nat) \<in> {48, 49, 50, 51, 52, 53, 54, 55, 56, 57}" unfolding is_digit_nat insert_iff empty_iff by presburger
  then show ?thesis by (simp flip: of_char_eq_iff [where 'a = nat])
qed

lemma ParseFloat_whole:
  assumes "n < 2 ^ 53"
  shows "ParseFloat (dec_string n) = Some (Finite (of_nat n))"
proof -
  obtain c s where s: "dec_string n = c # s" "is_digit c" using dec_string_digits [of n] dec_string_not_Nil [of n] by (cases "dec_string n") auto
  then have c: "c \<noteq> CHR ''+''" "c \<noteq> CHR ''-''" "c \<noteq> CHR ''i''" "c \<noteq> CHR ''I''" "c \<noteq> CHR ''n''" "c \<noteq> CHR ''N''"
    by (auto simp: is_digit_def)
  have h: "hd (dec_string n) \<noteq> CHR ''+''" "hd (dec_string n) \<noteq> CHR ''-''" using c s(1) by simp_all
  have x: "\<not> is_digit d" if "lower d = CHR ''x''" for d
  proof
    assume "is_digit d"
    then have "d \<in> set ''0123456789''" by (rule digit_chars)
    moreover have "list_all (\<lambda>c. lower c \<noteq> CHR ''x'') ''0123456789''" by code_simp
    ultimately show False using that unfolding list_all_iff by blast
  qed
  have s1: "(if dec_string n \<noteq> [] \<and> (hd (dec_string n) = CHR ''+'' \<or> hd (dec_string n) = CHR ''-'') then tl (dec_string n) else dec_string n) = dec_string n"
    using h by simp
  have hex: "(2 < length (dec_string n) \<and> dec_string n ! 0 = CHR ''0'' \<and> lower (dec_string n ! 1) = CHR ''x'') = False"
    using x [of "dec_string n ! 1"] dec_string_digits [of n] unfolding list_all_length by force
  obtain m where "read_mantissa False \<lparr>mt_sawdot = False, mt_sawdigits = False, mt_underscores = False, mt_value = 0, mt_places = 0\<rparr> (dec_string n) = (m, [])"
    "mt_sawdigits m" "\<not> mt_underscores m" "mt_places m = 0" "mt_value m = n"
    using read_mantissa_digits [OF dec_string_digits, of "\<lparr>mt_sawdot = False, mt_sawdigits = False, mt_underscores = False, mt_value = 0, mt_places = 0\<rparr>" n] by auto
  then have "readFloat (dec_string n) = Some (False, of_nat n, [])"
    using h unfolding readFloat_def Let_def s1 hex by (simp add: opt_exponent_def scaled_def)
  moreover have "(of_nat n :: rat) < 2 ^ 1024"
  proof -
    have "n < 2 ^ 1024" using assms by (rule less_le_trans) (intro power_increasing, simp_all)
    then have "(of_nat n :: rat) < of_nat (2 ^ 1024)" by (simp only: of_nat_less_iff)
    then show ?thesis by simp
  qed
  ultimately show ?thesis using c s(1) f64_nat [OF assms] by (simp add: ParseFloat_def)
qed

section \<open>Properties\<close>

text \<open>
  C31. Every duration survives being saved: \<open>UnmarshalYAML\<close> reads back exactly the duration that
  \<open>MarshalYAML\<close> wrote, to the nanosecond, over the whole range of \<open>int64\<close>.
\<close>

theorem duration_roundtrip:
  assumes "- (2 ^ 63) \<le> d" "d < 2 ^ 63"
  shows "\<exists>s. MarshalYAML d = Inr s \<and> UnmarshalYAML conv line (Inr s) = Inr d"
  using ParseDuration_String [OF assms] ParseFloat_chars [OF Duration_String_s]
  by (simp add: MarshalYAML_def UnmarshalYAML_def)

theorem duration_roundtrip_witness:
  "\<exists>s. MarshalYAML (- 5400000000001) = Inr s \<and> UnmarshalYAML (\<lambda>_. 0) 7 (Inr s) = Inr (- 5400000000001)"
  by (rule duration_roundtrip) simp_all

text \<open>
  A bare whole number is read as that many seconds, exactly, up to about a hundred days.
\<close>

lemma bare_number_is_seconds:
  assumes "n * 10 ^ 9 < 2 ^ 53"
  shows "UnmarshalYAML conv line (Inr (dec_string n)) = Inr (int n * second)"
proof -
  have "(of_nat n :: rat) * 10 ^ 9 = of_nat (n * 10 ^ 9)" by simp
  then have "f64 (of_nat n * 10 ^ 9) = of_nat (n * 10 ^ 9)" using f64_nat [OF assms] by (simp only:)
  moreover have "(of_nat (n * 10 ^ 9) :: rat) < 2 ^ 1024"
  proof -
    have "n * 10 ^ 9 < 2 ^ 1024" using assms by (rule less_le_trans) (intro power_increasing, simp_all)
    then have "(of_nat (n * 10 ^ 9) :: rat) < of_nat (2 ^ 1024)" by (simp only: of_nat_less_iff)
    then show ?thesis by simp
  qed
  moreover have "\<lfloor>(of_nat (n * 10 ^ 9) :: rat)\<rfloor> = int n * second" by (simp only: floor_of_nat) (simp add: second_def)
  ultimately have "int64_of_float conv (times_second (Finite (of_nat n))) = int n * second"
    using assms by (simp add: times_second_def int64_of_float_def second_def)
  moreover have "n < 2 ^ 53" using assms by simp
  ultimately show ?thesis by (simp add: UnmarshalYAML_def ParseFloat_whole)
qed

text \<open>
  A number of seconds that no duration can hold is not an error: what it becomes is up to the
  target the program was built for.
\<close>

lemma huge_seconds_unchecked:
  "UnmarshalYAML conv line (Inr ''inf'') = Inr (conv (Infinite False))" "UnmarshalYAML conv line (Inr ''NaN'') = Inr (conv NotANumber)"
proof -
  have "special ''inf'' = Some (Infinite False, 3)" "special ''NaN'' = Some (NotANumber, 3)" by code_simp+
  then show "UnmarshalYAML conv line (Inr ''inf'') = Inr (conv (Infinite False))" "UnmarshalYAML conv line (Inr ''NaN'') = Inr (conv NotANumber)"
    by (simp_all add: UnmarshalYAML_def ParseFloat_def times_second_def int64_of_float_def del: special.simps)
qed

end
