(* ===== verification/GoSlice.thy ===== *)
theory GoSlice
  imports GoStd
begin

text \<open>
  Go's slices: a slice is a window on a backing array that other slices may share, \<open>append\<close>
  writes into spare capacity or moves to a new array. The laws say what an operation does to
  the elements of its slice and what it leaves alone.
\<close>

section \<open>Slices\<close>

text \<open>
  The arrays of one element type, by address; the list is the whole array, spare capacity
  included. A nil slice has no capacity; nothing in the program tells it from an empty one.
\<close>

record 'a arena =
  ar_array :: "nat \<Rightarrow> 'a list"
  ar_next :: nat

record slice =
  sl_addr :: nat
  sl_off :: nat
  sl_len :: nat
  sl_cap :: nat

definition nil_slice :: slice where
  "nil_slice = \<lparr>sl_addr = 0, sl_off = 0, sl_len = 0, sl_cap = 0\<rparr>"

definition elems :: "'a arena \<Rightarrow> slice \<Rightarrow> 'a list" where
  "elems a s = take (sl_len s) (drop (sl_off s) (ar_array a (sl_addr s)))"

definition alloc :: "'a list \<Rightarrow> nat \<Rightarrow> 'a arena \<Rightarrow> slice \<times> 'a arena" where
  "alloc xs n a = (\<lparr>sl_addr = ar_next a, sl_off = 0, sl_len = n, sl_cap = length xs\<rparr>,
     a\<lparr>ar_array := (ar_array a)(ar_next a := xs), ar_next := Suc (ar_next a)\<rparr>)"

definition write_at :: "nat \<Rightarrow> 'a list \<Rightarrow> 'a list \<Rightarrow> 'a list" where
  "write_at i xs ys = take i ys @ xs @ drop (i + length xs) ys"

text \<open>
  \<open>append\<close>: in place if the capacity allows it, else into a new array. How much larger than
  needed the runtime makes that is not specified: \<open>grow\<close> is a parameter.
\<close>

definition go_append :: "(nat \<Rightarrow> nat \<Rightarrow> nat) \<Rightarrow> 'a \<Rightarrow> slice \<Rightarrow> 'a list \<Rightarrow> 'a arena \<Rightarrow> slice \<times> 'a arena" where
  "go_append grow zero s xs a =
     (let n = sl_len s + length xs in
      if n \<le> sl_cap s then
        (s\<lparr>sl_len := n\<rparr>,
         a\<lparr>ar_array := (ar_array a)(sl_addr s := write_at (sl_off s + sl_len s) xs (ar_array a (sl_addr s)))\<rparr>)
      else alloc (elems a s @ xs @ replicate (grow (sl_cap s) n - n) zero) n a)"

definition go_make :: "nat \<Rightarrow> 'a \<Rightarrow> 'a arena \<Rightarrow> slice \<times> 'a arena" where
  "go_make n zero a = alloc (replicate n zero) n a"

text \<open>\<open>s[i] = x\<close>.\<close>

definition slice_set :: "slice \<Rightarrow> nat \<Rightarrow> 'a \<Rightarrow> 'a arena \<Rightarrow> 'a arena" where
  "slice_set s i x a = a\<lparr>ar_array := (ar_array a)(sl_addr s := (ar_array a (sl_addr s))[sl_off s + i := x])\<rparr>"

section \<open>Laws of slices\<close>

definition slice_wf :: "'a arena \<Rightarrow> slice \<Rightarrow> bool" where
  "slice_wf a s \<longleftrightarrow> sl_len s \<le> sl_cap s \<and>
     (0 < sl_cap s \<longrightarrow> sl_addr s < ar_next a \<and> sl_off s + sl_cap s \<le> length (ar_array a (sl_addr s)))"

definition apart :: "slice \<Rightarrow> slice \<Rightarrow> bool" where
  "apart s t \<longleftrightarrow> sl_cap s = 0 \<or> sl_cap t = 0 \<or> sl_addr s \<noteq> sl_addr t"

text \<open>What a change of an arena leaves alone: everything old, or one window.\<close>

definition grown :: "'a arena \<Rightarrow> 'a arena \<Rightarrow> bool" where
  "grown a a' \<longleftrightarrow> ar_next a \<le> ar_next a' \<and> (\<forall>i < ar_next a. ar_array a' i = ar_array a i)"

definition keeps :: "slice \<Rightarrow> 'a arena \<Rightarrow> 'a arena \<Rightarrow> bool" where
  "keeps s a a' \<longleftrightarrow> ar_next a \<le> ar_next a' \<and> (0 < sl_cap s \<longrightarrow> ar_array a' (sl_addr s) = ar_array a (sl_addr s))"

lemma grown_refl [simp]: "grown a a"
  by (simp add: grown_def)

lemma grown_trans: "grown a b \<Longrightarrow> grown b c \<Longrightarrow> grown a c"
  by (auto simp: grown_def)

lemma grown_keeps: "grown a a' \<Longrightarrow> slice_wf a s \<Longrightarrow> keeps s a a'"
  by (auto simp: grown_def keeps_def slice_wf_def)

lemma keeps_wf: "keeps s a a' \<Longrightarrow> slice_wf a s \<Longrightarrow> slice_wf a' s"
  by (auto simp: keeps_def slice_wf_def)

lemma keeps_elems: "keeps s a a' \<Longrightarrow> slice_wf a s \<Longrightarrow> elems a' s = elems a s"
  by (cases "sl_cap s = 0") (simp_all add: keeps_def slice_wf_def elems_def)

lemma keeps_trans: "keeps s a b \<Longrightarrow> keeps s b c \<Longrightarrow> keeps s a c"
  by (auto simp: keeps_def)

lemma grown_elems: "grown a a' \<Longrightarrow> slice_wf a s \<Longrightarrow> elems a' s = elems a s"
  by (rule keeps_elems [OF grown_keeps])

lemma grown_wf: "grown a a' \<Longrightarrow> slice_wf a s \<Longrightarrow> slice_wf a' s"
  by (rule keeps_wf [OF grown_keeps])

lemma nil_wf [simp]: "slice_wf a nil_slice" "elems a nil_slice = []"
  by (simp_all add: slice_wf_def elems_def nil_slice_def)

lemma length_elems: "slice_wf a s \<Longrightarrow> length (elems a s) = sl_len s"
  by (cases "sl_cap s = 0") (auto simp: slice_wf_def elems_def)

lemma alloc_laws:
  assumes "alloc xs n a = (s, a')" "n \<le> length xs"
  shows "slice_wf a' s" "elems a' s = take n xs" "grown a a'" "sl_addr s = ar_next a" "ar_next a < ar_next a'"
  using assms by (auto simp: alloc_def slice_wf_def elems_def grown_def)

lemma write_at_laws:
  assumes "i + k + length xs \<le> length ys"
  shows "length (write_at (i + k) xs ys) = length ys" "take (k + length xs) (drop i (write_at (i + k) xs ys)) = take k (drop i ys) @ xs"
proof -
  show "length (write_at (i + k) xs ys) = length ys" using assms by (simp add: write_at_def)
  have "drop i (take (i + k) ys) = take k (drop i ys)" by (simp add: drop_take)
  moreover have "length (take k (drop i ys)) = k" using assms by simp
  ultimately show "take (k + length xs) (drop i (write_at (i + k) xs ys)) = take k (drop i ys) @ xs" using assms by (simp add: write_at_def)
qed

lemma append_laws:
  assumes "go_append grow zero s xs a = (s', a')" "slice_wf a s"
  shows "slice_wf a' s'" "elems a' s' = elems a s @ xs" "ar_next a \<le> ar_next a'"
proof -
  have "slice_wf a' s' \<and> elems a' s' = elems a s @ xs \<and> ar_next a \<le> ar_next a'"
  proof (cases "sl_len s + length xs \<le> sl_cap s")
    case True
    show ?thesis
    proof (cases "sl_cap s = 0")
      case False
      then have "sl_off s + sl_len s + length xs \<le> length (ar_array a (sl_addr s))" using True assms(2) by (auto simp: slice_wf_def)
      from write_at_laws [OF this] show ?thesis using True assms by (auto simp: go_append_def slice_wf_def elems_def Let_def)
    qed (use True assms in \<open>auto simp: go_append_def slice_wf_def elems_def Let_def\<close>)
  next
    case False
    then have "alloc (elems a s @ xs @ replicate (grow (sl_cap s) (sl_len s + length xs) - (sl_len s + length xs)) zero) (sl_len s + length xs) a = (s', a')"
      using assms(1) by (simp add: go_append_def Let_def)
    from alloc_laws [OF this] show ?thesis using length_elems [OF assms(2)] by (auto simp: grown_def)
  qed
  then show "slice_wf a' s'" "elems a' s' = elems a s @ xs" "ar_next a \<le> ar_next a'" by blast+
qed

lemma append_keeps:
  assumes "go_append grow zero s xs a = (s', a')" "slice_wf a t" "apart s t"
  shows "keeps t a a'" "apart s' t"
  using assms by (auto simp: go_append_def alloc_def keeps_def apart_def slice_wf_def write_at_def Let_def split: if_splits)

lemma append_fresh:
  assumes "go_append grow zero nil_slice xs a = (s', a')"
  shows "grown a a'" "sl_cap s' = 0 \<or> sl_addr s' = ar_next a"
  using assms by (auto simp: go_append_def alloc_def grown_def nil_slice_def write_at_def Let_def split: if_splits)

lemma shrink:
  assumes "slice_wf a s" "n \<le> sl_len s"
  shows "slice_wf a (s\<lparr>sl_len := n\<rparr>)" "slice_wf a (s\<lparr>sl_len := n, sl_cap := n\<rparr>)"
    "elems a (s\<lparr>sl_len := n\<rparr>) = take n (elems a s)" "elems a (s\<lparr>sl_len := n, sl_cap := n\<rparr>) = take n (elems a s)"
  using assms by (auto simp: slice_wf_def elems_def min_def)

end
