(* ===== verification/Aliasing.thy ===== *)
theory Aliasing
  imports Control GoSlice
begin

text \<open>
  \<open>Config.Clone\<close> and the edits of package control on the level of Go's slices. The
  value-level operations of \<open>Control\<close> are shown to be what the slice operations compute, and
  the manager's private copy to be private.
\<close>

section \<open>The store\<close>

record upstream_ref =
  ur_Name :: string
  ur_Weight :: int
  ur_Endpoints :: slice

record store =
  st_strings :: "string arena"
  st_eps :: "endpoint_cfg arena"
  st_ups :: "upstream_ref arena"
  st_maps :: "nat \<Rightarrow> rcode \<Rightarrow> bool option"
  st_nextmap :: nat

text \<open>A \<open>Config\<close> struct: \<open>cr_plain\<close> has its fields that are neither slices nor maps.\<close>

record config_ref =
  cr_plain :: config
  cr_RetryRCodes :: slice
  cr_retryRCodes :: "nat option"
  cr_Servers :: slice
  cr_Upstreams :: slice

definition upstream_view :: "endpoint_cfg arena \<Rightarrow> upstream_ref \<Rightarrow> upstream_cfg" where
  "upstream_view a u = \<lparr>uc_Name = ur_Name u, uc_Weight = ur_Weight u, uc_Endpoints = elems a (ur_Endpoints u)\<rparr>"

definition map_view :: "store \<Rightarrow> nat option \<Rightarrow> rcode \<Rightarrow> bool" where
  "map_view st m r = (case m of None \<Rightarrow> False | Some i \<Rightarrow> (case st_maps st i r of None \<Rightarrow> False | Some b \<Rightarrow> b))"

definition config_view :: "store \<Rightarrow> config_ref \<Rightarrow> config" where
  "config_view st c = (cr_plain c)
     \<lparr>c_Query := (c_Query (cr_plain c))\<lparr>qc_RetryRCodes := elems (st_strings st) (cr_RetryRCodes c), qc_retryRCodes := map_view st (cr_retryRCodes c)\<rparr>,
      c_Fallback := (c_Fallback (cr_plain c))\<lparr>fc_Servers := elems (st_strings st) (cr_Servers c)\<rparr>,
      c_Upstreams := map (upstream_view (st_eps st)) (elems (st_ups st) (cr_Upstreams c))\<rparr>"

section \<open>Clone\<close>

definition zero_endpoint :: endpoint_cfg where
  "zero_endpoint = \<lparr>ec_Name = [], ec_Addr = []\<rparr>"

definition zero_upstream :: upstream_ref where
  "zero_upstream = \<lparr>ur_Name = [], ur_Weight = 0, ur_Endpoints = nil_slice\<rparr>"

fun clone_upstreams :: "(nat \<Rightarrow> nat \<Rightarrow> nat) \<Rightarrow> slice \<Rightarrow> nat \<Rightarrow> upstream_ref list \<Rightarrow> store \<Rightarrow> store" where
  "clone_upstreams grow out i [] st = st"
| "clone_upstreams grow out i (u # us) st =
     (case go_append grow zero_endpoint nil_slice (elems (st_eps st) (ur_Endpoints u)) (st_eps st) of
        (eps, a) \<Rightarrow> clone_upstreams grow out (Suc i) us
          (st\<lparr>st_eps := a, st_ups := slice_set out i (u\<lparr>ur_Endpoints := eps\<rparr>) (st_ups st)\<rparr>))"

definition clone_map :: "nat option \<Rightarrow> store \<Rightarrow> nat option \<times> store" where
  "clone_map m st =
     (case m of
        None \<Rightarrow> (None, st)
      | Some i \<Rightarrow> (Some (st_nextmap st), st\<lparr>st_maps := (st_maps st)(st_nextmap st := st_maps st i), st_nextmap := Suc (st_nextmap st)\<rparr>))"

definition Clone :: "(nat \<Rightarrow> nat \<Rightarrow> nat) \<Rightarrow> config_ref \<Rightarrow> store \<Rightarrow> config_ref \<times> store" where
  "Clone grow c st =
     (let (rcodes, a1) = go_append grow [] nil_slice (elems (st_strings st) (cr_RetryRCodes c)) (st_strings st);
          (servers, a2) = go_append grow [] nil_slice (elems a1 (cr_Servers c)) a1;
          (ups, a3) = go_make (sl_len (cr_Upstreams c)) zero_upstream (st_ups st);
          st1 = clone_upstreams grow ups 0 (elems (st_ups st) (cr_Upstreams c)) (st\<lparr>st_strings := a2, st_ups := a3\<rparr>);
          (rmap, st2) = clone_map (cr_retryRCodes c) st1
      in (c\<lparr>cr_RetryRCodes := rcodes, cr_Servers := servers, cr_Upstreams := ups, cr_retryRCodes := rmap\<rparr>, st2))"

section \<open>The manager's edits\<close>

text \<open>
  What an operation of the manager that gets as far as its save does to its configuration; the
  flag says whether the save succeeded, otherwise the rollback has run as well. The new
  upstream is the one \<open>PrepareUpstream\<close> has put together in a new array, the resolvers those
  \<open>SetFallback\<close> has collected in one.
\<close>

datatype edit =
    AddUp upstream_cfg bool
  | RemoveUp nat bool
  | SetStrat string bool
  | SetFb bool "string list" bool

definition new_upstream :: "upstream_cfg \<Rightarrow> endpoint_cfg arena \<Rightarrow> upstream_ref \<times> endpoint_cfg arena" where
  "new_upstream u a = (case alloc (uc_Endpoints u) (length (uc_Endpoints u)) a of
     (s, a') \<Rightarrow> (\<lparr>ur_Name = uc_Name u, ur_Weight = uc_Weight u, ur_Endpoints = s\<rparr>, a'))"

definition add_ref :: "(nat \<Rightarrow> nat \<Rightarrow> nat) \<Rightarrow> upstream_cfg \<Rightarrow> bool \<Rightarrow> config_ref \<times> store \<Rightarrow> config_ref \<times> store" where
  "add_ref grow u saved cs =
     (let (c, st) = cs;
          (r, e) = new_upstream u (st_eps st);
          (s, a) = go_append grow zero_upstream (cr_Upstreams c) [r] (st_ups st)
      in (c\<lparr>cr_Upstreams := (if saved then s else s\<lparr>sl_len := sl_len s - 1\<rparr>)\<rparr>, st\<lparr>st_eps := e, st_ups := a\<rparr>))"

definition remove_ref :: "(nat \<Rightarrow> nat \<Rightarrow> nat) \<Rightarrow> nat \<Rightarrow> bool \<Rightarrow> config_ref \<times> store \<Rightarrow> config_ref \<times> store" where
  "remove_ref grow idx saved cs =
     (let (c, st) = cs; us = elems (st_ups st) (cr_Upstreams c) in
      if length us \<le> idx then cs
      else let removed = us ! idx;
               (s, a) = go_append grow zero_upstream ((cr_Upstreams c)\<lparr>sl_len := idx, sl_cap := idx\<rparr>) (drop (idx + 1) us) (st_ups st);
               (s', a') = (if saved then (s, a) else go_append grow zero_upstream s [removed] a)
        in (c\<lparr>cr_Upstreams := s'\<rparr>, st\<lparr>st_ups := a'\<rparr>))"

definition strategy_ref :: "string \<Rightarrow> bool \<Rightarrow> config_ref \<times> store \<Rightarrow> config_ref \<times> store" where
  "strategy_ref name saved cs =
     (let (c, st) = cs in (c\<lparr>cr_plain := (cr_plain c)\<lparr>c_Strategy := (if saved then name else c_Strategy (cr_plain c))\<rparr>\<rparr>, st))"

definition fallback_ref :: "bool \<Rightarrow> string list \<Rightarrow> bool \<Rightarrow> config_ref \<times> store \<Rightarrow> config_ref \<times> store" where
  "fallback_ref enabled servers saved cs =
     (let (c, st) = cs;
          (clean, a) = alloc servers (length servers) (st_strings st);
          c1 = c\<lparr>cr_plain := (cr_plain c)\<lparr>c_Fallback := (c_Fallback (cr_plain c))\<lparr>fc_Enabled := enabled\<rparr>\<rparr>, cr_Servers := clean\<rparr>
      in (if saved then c1 else c, st\<lparr>st_strings := a\<rparr>))"

fun edit_ref :: "(nat \<Rightarrow> nat \<Rightarrow> nat) \<Rightarrow> edit \<Rightarrow> config_ref \<times> store \<Rightarrow> config_ref \<times> store" where
  "edit_ref grow (AddUp u saved) cs = add_ref grow u saved cs"
| "edit_ref grow (RemoveUp i saved) cs = remove_ref grow i saved cs"
| "edit_ref grow (SetStrat name saved) cs = strategy_ref name saved cs"
| "edit_ref grow (SetFb enabled servers saved) cs = fallback_ref enabled servers saved cs"

text \<open>The same on values.\<close>

fun edit_cfg :: "edit \<Rightarrow> config \<Rightarrow> config" where
  "edit_cfg (AddUp u saved) c = (if saved then c\<lparr>c_Upstreams := c_Upstreams c @ [u]\<rparr> else c)"
| "edit_cfg (RemoveUp i saved) c =
     (let us = c_Upstreams c in
      if length us \<le> i then c
      else c\<lparr>c_Upstreams := take i us @ drop (i + 1) us @ (if saved then [] else [us ! i])\<rparr>)"
| "edit_cfg (SetStrat name saved) c = (if saved then c\<lparr>c_Strategy := name\<rparr> else c)"
| "edit_cfg (SetFb enabled servers saved) c =
     (if saved then c\<lparr>c_Fallback := (c_Fallback c)\<lparr>fc_Enabled := enabled, fc_Servers := servers\<rparr>\<rparr> else c)"

section \<open>Views of a store that has changed\<close>

definition upstreams_wf :: "endpoint_cfg arena \<Rightarrow> upstream_ref list \<Rightarrow> bool" where
  "upstreams_wf a us \<longleftrightarrow> list_all (\<lambda>u. slice_wf a (ur_Endpoints u)) us"

definition store_wf :: "store \<Rightarrow> config_ref \<Rightarrow> bool" where
  "store_wf st c \<longleftrightarrow> slice_wf (st_strings st) (cr_RetryRCodes c) \<and> slice_wf (st_strings st) (cr_Servers c) \<and>
     slice_wf (st_ups st) (cr_Upstreams c) \<and> upstreams_wf (st_eps st) (elems (st_ups st) (cr_Upstreams c)) \<and>
     (case cr_retryRCodes c of None \<Rightarrow> True | Some i \<Rightarrow> i < st_nextmap st)"

text \<open>A change of the store that the owner of \<open>c\<close> does not see.\<close>

definition unseen :: "config_ref \<Rightarrow> store \<Rightarrow> store \<Rightarrow> bool" where
  "unseen c st st' \<longleftrightarrow> grown (st_strings st) (st_strings st') \<and> grown (st_eps st) (st_eps st') \<and> keeps (cr_Upstreams c) (st_ups st) (st_ups st') \<and>
     st_nextmap st \<le> st_nextmap st' \<and> (\<forall>i < st_nextmap st. st_maps st' i = st_maps st i)"

lemma unseen_refl [simp]: "unseen c st st"
  by (simp add: unseen_def keeps_def)

lemma unseen_trans: "unseen c st st1 \<Longrightarrow> unseen c st1 st2 \<Longrightarrow> unseen c st st2"
  unfolding unseen_def by (metis grown_trans keeps_trans le_trans less_le_trans)

lemma upstreams_grown:
  assumes "grown a a'" "upstreams_wf a us"
  shows "upstreams_wf a' us" "map (upstream_view a') us = map (upstream_view a) us"
  using assms grown_wf grown_elems by (fastforce simp: upstreams_wf_def list_all_iff upstream_view_def)+

lemma unseen_wf:
  assumes "unseen c st st'" "store_wf st c"
  shows "store_wf st' c"
  using assms upstreams_grown [of "st_eps st" "st_eps st'"]
  by (auto simp: unseen_def store_wf_def grown_wf keeps_wf keeps_elems split: option.splits)

lemma unseen_view:
  assumes "unseen c st st'" "store_wf st c"
  shows "config_view st' c = config_view st c"
proof -
  have g: "grown (st_strings st) (st_strings st')" "grown (st_eps st) (st_eps st')" "keeps (cr_Upstreams c) (st_ups st) (st_ups st')"
    using assms(1) unfolding unseen_def by blast+
  have wf: "slice_wf (st_strings st) (cr_RetryRCodes c)" "slice_wf (st_strings st) (cr_Servers c)" "slice_wf (st_ups st) (cr_Upstreams c)"
    "upstreams_wf (st_eps st) (elems (st_ups st) (cr_Upstreams c))"
    using assms(2) unfolding store_wf_def by blast+
  have "map_view st' (cr_retryRCodes c) r = map_view st (cr_retryRCodes c) r" for r
  proof (cases "cr_retryRCodes c")
    case (Some i)
    then have "st_maps st' i = st_maps st i" using assms by (simp add: unseen_def store_wf_def)
    then show ?thesis by (simp add: map_view_def Some)
  qed (simp add: map_view_def)
  then have "map_view st' (cr_retryRCodes c) = map_view st (cr_retryRCodes c)" by blast
  then show ?thesis unfolding config_view_def
    by (simp only: grown_elems [OF g(1) wf(1)] grown_elems [OF g(1) wf(2)] keeps_elems [OF g(3) wf(3)] upstreams_grown(2) [OF g(2) wf(4)])
qed

section \<open>A clone\<close>

text \<open>Setting the elements of a new array one by one.\<close>

lemma clone_upstreams_laws:
  assumes "clone_upstreams grow out i us st = st'" "upstreams_wf (st_eps st) us"
    and "sl_off out = 0" "i + length us = length (ar_array (st_ups st) (sl_addr out))"
  shows "\<exists>us' e. st' = st\<lparr>st_eps := e, st_ups := (st_ups st)\<lparr>ar_array := (ar_array (st_ups st))(sl_addr out := take i (ar_array (st_ups st) (sl_addr out)) @ us')\<rparr>\<rparr> \<and>
    length us' = length us \<and> grown (st_eps st) e \<and> upstreams_wf e us' \<and> map (upstream_view e) us' = map (upstream_view (st_eps st)) us \<and>
    (\<forall>u \<in> set us'. sl_cap (ur_Endpoints u) = 0 \<or> ar_next (st_eps st) \<le> sl_addr (ur_Endpoints u))"
  using assms
proof (induction us arbitrary: i st)
  case Nil
  then show ?case by (intro exI [of _ "[]"] exI [of _ "st_eps st"]) (auto simp: upstreams_wf_def)
next
  case (Cons u us)
  obtain eps a where g: "go_append grow zero_endpoint nil_slice (elems (st_eps st) (ur_Endpoints u)) (st_eps st) = (eps, a)" by fastforce
  note ap = append_laws [OF g nil_wf(1)] and fr = append_fresh [OF g]
  define st1 where "st1 = st\<lparr>st_eps := a, st_ups := slice_set out i (u\<lparr>ur_Endpoints := eps\<rparr>) (st_ups st)\<rparr>"
  let ?arr = "ar_array (st_ups st) (sl_addr out)"
  have arr: "ar_array (st_ups st1) (sl_addr out) = ?arr[i := u\<lparr>ur_Endpoints := eps\<rparr>]" using Cons.prems(3) by (simp add: st1_def slice_set_def)
  have wf: "upstreams_wf a us" "map (upstream_view a) us = map (upstream_view (st_eps st)) us"
    using Cons.prems(2) upstreams_grown [OF fr(1), of us] by (simp_all add: upstreams_wf_def)
  have e1: "st_eps st1 = a" by (simp add: st1_def)
  have "clone_upstreams grow out (Suc i) us st1 = st'" using Cons.prems(1) by (simp add: g st1_def)
  moreover have "Suc i + length us = length (?arr[i := u\<lparr>ur_Endpoints := eps\<rparr>])" using Cons.prems(4) by simp
  ultimately obtain us' e where
    ih: "st' = st1\<lparr>st_eps := e, st_ups := (st_ups st1)\<lparr>ar_array := (ar_array (st_ups st1))(sl_addr out := take (Suc i) (?arr[i := u\<lparr>ur_Endpoints := eps\<rparr>]) @ us')\<rparr>\<rparr>"
      "length us' = length us" "grown a e" "upstreams_wf e us'" "map (upstream_view e) us' = map (upstream_view a) us"
      "\<forall>u \<in> set us'. sl_cap (ur_Endpoints u) = 0 \<or> ar_next a \<le> sl_addr (ur_Endpoints u)"
    using Cons.IH [OF _ _ Cons.prems(3), of "Suc i" st1, unfolded arr e1] wf(1) by blast
  have tk: "take (Suc i) (?arr[i := u\<lparr>ur_Endpoints := eps\<rparr>]) = take i ?arr @ [u\<lparr>ur_Endpoints := eps\<rparr>]"
    using Cons.prems(4) by (simp add: take_Suc_conv_app_nth)
  have ae: "ar_next (st_eps st) \<le> ar_next a" by (rule ap(3))
  have v: "elems e eps = elems (st_eps st) (ur_Endpoints u)" "slice_wf e eps"
    using grown_elems [OF ih(3) ap(1)] grown_wf [OF ih(3) ap(1)] ap(2) by simp_all
  show ?case
  proof (intro exI [of _ "u\<lparr>ur_Endpoints := eps\<rparr> # us'"] exI [of _ e] conjI)
    show "st' = st\<lparr>st_eps := e, st_ups := (st_ups st)\<lparr>ar_array := (ar_array (st_ups st))(sl_addr out := take i ?arr @ u\<lparr>ur_Endpoints := eps\<rparr> # us')\<rparr>\<rparr>"
      unfolding ih(1) tk by (simp add: st1_def slice_set_def)
    show "grown (st_eps st) e" by (rule grown_trans [OF fr(1) ih(3)])
    show "upstreams_wf e (u\<lparr>ur_Endpoints := eps\<rparr> # us')" using ih(4) v(2) by (simp add: upstreams_wf_def)
    show "map (upstream_view e) (u\<lparr>ur_Endpoints := eps\<rparr> # us') = map (upstream_view (st_eps st)) (u # us)"
      using ih(5) wf(2) v(1) by (simp add: upstream_view_def)
    show "\<forall>u \<in> set (u\<lparr>ur_Endpoints := eps\<rparr> # us'). sl_cap (ur_Endpoints u) = 0 \<or> ar_next (st_eps st) \<le> sl_addr (ur_Endpoints u)"
      using ih(6) fr(2) ae by auto
  qed (simp add: ih(2))
qed

text \<open>
  The clone has the same value, the original is untouched, and everything the clone refers to
  is newer than anything that was there before.
\<close>

definition newer :: "store \<Rightarrow> store \<Rightarrow> config_ref \<Rightarrow> bool" where
  "newer st0 st c \<longleftrightarrow>
     (\<forall>s \<in> {cr_RetryRCodes c, cr_Servers c}. sl_cap s = 0 \<or> ar_next (st_strings st0) \<le> sl_addr s) \<and>
     (sl_cap (cr_Upstreams c) = 0 \<or> ar_next (st_ups st0) \<le> sl_addr (cr_Upstreams c)) \<and>
     (\<forall>u \<in> set (elems (st_ups st) (cr_Upstreams c)). sl_cap (ur_Endpoints u) = 0 \<or> ar_next (st_eps st0) \<le> sl_addr (ur_Endpoints u)) \<and>
     (\<forall>i. cr_retryRCodes c = Some i \<longrightarrow> st_nextmap st0 \<le> i)"

definition extended :: "store \<Rightarrow> store \<Rightarrow> bool" where
  "extended st st' \<longleftrightarrow> grown (st_strings st) (st_strings st') \<and> grown (st_eps st) (st_eps st') \<and> grown (st_ups st) (st_ups st') \<and>
     st_nextmap st \<le> st_nextmap st' \<and> (\<forall>i < st_nextmap st. st_maps st' i = st_maps st i)"

lemma extended_unseen: "extended st st' \<Longrightarrow> store_wf st d \<Longrightarrow> unseen d st st'"
  by (auto simp: extended_def unseen_def store_wf_def grown_keeps)

lemma Clone_laws:
  assumes "Clone grow c st = (c', st')" "store_wf st c"
  shows "config_view st' c' = config_view st c" "store_wf st' c'" "newer st st' c'" "extended st st'"
proof -
  obtain rcodes a1 where 1: "go_append grow [] nil_slice (elems (st_strings st) (cr_RetryRCodes c)) (st_strings st) = (rcodes, a1)" by fastforce
  obtain servers a2 where 2: "go_append grow [] nil_slice (elems a1 (cr_Servers c)) a1 = (servers, a2)" by fastforce
  obtain ups a3 where 3: "go_make (sl_len (cr_Upstreams c)) zero_upstream (st_ups st) = (ups, a3)" by fastforce
  define us where "us = elems (st_ups st) (cr_Upstreams c)"
  define st1 where "st1 = clone_upstreams grow ups 0 us (st\<lparr>st_strings := a2, st_ups := a3\<rparr>)"
  obtain rmap st2 where 4: "clone_map (cr_retryRCodes c) st1 = (rmap, st2)" by fastforce
  have c': "c' = c\<lparr>cr_RetryRCodes := rcodes, cr_Servers := servers, cr_Upstreams := ups, cr_retryRCodes := rmap\<rparr>" and st': "st' = st2"
    using assms(1) 1 2 3 4 by (simp_all add: Clone_def st1_def us_def Let_def)
  note L1 = append_laws [OF 1 nil_wf(1)] append_fresh [OF 1] and L2 = append_laws [OF 2 nil_wf(1)] append_fresh [OF 2]
  have wf: "slice_wf (st_strings st) (cr_RetryRCodes c)" "slice_wf (st_strings st) (cr_Servers c)" "upstreams_wf (st_eps st) us" "length us = sl_len (cr_Upstreams c)"
    using assms(2) by (auto simp: store_wf_def us_def length_elems)
  have g2: "grown (st_strings st) a2" by (rule grown_trans [OF L1(4) L2(4)])
  have u: "ups = \<lparr>sl_addr = ar_next (st_ups st), sl_off = 0, sl_len = length us, sl_cap = length us\<rparr>"
      "a3 = (st_ups st)\<lparr>ar_array := (ar_array (st_ups st))(ar_next (st_ups st) := replicate (length us) zero_upstream), ar_next := Suc (ar_next (st_ups st))\<rparr>"
    using 3 wf(4) by (auto simp: go_make_def alloc_def)
  from clone_upstreams_laws [OF st1_def [symmetric]] wf(3) u obtain us' e where
    C: "st1 = st\<lparr>st_strings := a2, st_eps := e, st_ups := a3\<lparr>ar_array := (ar_array a3)(ar_next (st_ups st) := us')\<rparr>\<rparr>"
      "length us' = length us" "grown (st_eps st) e" "upstreams_wf e us'" "map (upstream_view e) us' = map (upstream_view (st_eps st)) us"
      "\<forall>u \<in> set us'. sl_cap (ur_Endpoints u) = 0 \<or> ar_next (st_eps st) \<le> sl_addr (ur_Endpoints u)"
    by auto
  have S: "st_strings st2 = a2" "st_eps st2 = e" "st_ups st2 = st_ups st1" "st_nextmap st \<le> st_nextmap st2" "\<forall>i < st_nextmap st. st_maps st2 i = st_maps st i"
    using 4 C(1) by (auto simp: clone_map_def split: option.splits)
  have E: "elems (st_ups st2) ups = us'" "slice_wf (st_ups st2) ups" "grown (st_ups st) (st_ups st2)"
    using C(1,2) u by (auto simp: S elems_def slice_wf_def grown_def)
  have R: "map_view st2 rmap = map_view st (cr_retryRCodes c)" "case rmap of None \<Rightarrow> True | Some i \<Rightarrow> i < st_nextmap st2" "\<forall>i. rmap = Some i \<longrightarrow> st_nextmap st \<le> i"
    using 4 C(1) by (auto simp: clone_map_def map_view_def fun_eq_iff split: option.splits)
  have V: "elems a2 rcodes = elems (st_strings st) (cr_RetryRCodes c)" "elems a2 servers = elems (st_strings st) (cr_Servers c)"
    "slice_wf a2 rcodes" "slice_wf a2 servers"
    using L1 L2 grown_elems [OF L2(4) L1(1)] grown_wf [OF L2(4) L1(1)] grown_elems [OF L1(4) wf(2)] by simp_all
  show "config_view st' c' = config_view st c" using V E(1) R(1) C(5) by (simp add: config_view_def st' c' S us_def)
  show "store_wf st' c'" using V E R(2) C(4) by (simp add: store_wf_def st' c' S)
  show "newer st st' c'" using L1(5) L2(5) L1(3) C(6) E(1) u(1) R(3) by (auto simp: newer_def st' c' S)
  show "extended st st'" using g2 C(3) E(3) S by (simp add: extended_def st')
qed

section \<open>Edits of a copy\<close>

text \<open>\<open>m\<close> is the copy that is edited, \<open>r\<close> a configuration somebody else reads.\<close>

definition separate :: "store \<Rightarrow> config_ref \<Rightarrow> config_ref \<Rightarrow> bool" where
  "separate st m r \<longleftrightarrow> store_wf st m \<and> store_wf st r \<and> apart (cr_Upstreams m) (cr_Upstreams r)"

lemma newer_apart:
  assumes "newer st st' m" "store_wf st r"
  shows "apart (cr_Upstreams m) (cr_Upstreams r)"
  using assms by (auto simp: newer_def store_wf_def slice_wf_def apart_def)

lemma map_view_cong: "st_maps st' = st_maps st \<Longrightarrow> map_view st' = map_view st"
  by (intro ext) (simp add: map_view_def split: option.split)

lemma view_ups:
  "config_view (st\<lparr>st_eps := e, st_ups := a\<rparr>) (m\<lparr>cr_Upstreams := s\<rparr>) = (config_view st m)\<lparr>c_Upstreams := map (upstream_view e) (elems a s)\<rparr>"
  "config_view (st\<lparr>st_ups := a\<rparr>) (m\<lparr>cr_Upstreams := s\<rparr>) = (config_view st m)\<lparr>c_Upstreams := map (upstream_view (st_eps st)) (elems a s)\<rparr>"
  by (simp_all add: config_view_def map_view_cong [of "st\<lparr>st_eps := e, st_ups := a\<rparr>" st] map_view_cong [of "st\<lparr>st_ups := a\<rparr>" st])

lemma view_Upstreams: "c_Upstreams (config_view st m) = map (upstream_view (st_eps st)) (elems (st_ups st) (cr_Upstreams m))"
  by (simp add: config_view_def)

lemma add_ref_laws:
  assumes "separate st m r" "add_ref grow u saved (m, st) = (m', st')"
  shows "config_view st' m' = edit_cfg (AddUp u saved) (config_view st m)" "separate st' m' r" "unseen r st st'"
proof -
  from assms(1) have wf: "store_wf st m" "store_wf st r" "apart (cr_Upstreams m) (cr_Upstreams r)" by (simp_all add: separate_def)
  obtain x e where n: "new_upstream u (st_eps st) = (x, e)" by fastforce
  have x: "grown (st_eps st) e" "slice_wf e (ur_Endpoints x)" "upstream_view e x = u"
    using n alloc_laws [of "uc_Endpoints u" "length (uc_Endpoints u)" "st_eps st"]
    by (auto simp: new_upstream_def upstream_view_def split: prod.splits)
  obtain s a where g: "go_append grow zero_upstream (cr_Upstreams m) [x] (st_ups st) = (s, a)" by fastforce
  have wfs: "slice_wf (st_ups st) (cr_Upstreams m)" "slice_wf (st_ups st) (cr_Upstreams r)" "upstreams_wf (st_eps st) (elems (st_ups st) (cr_Upstreams m))"
    using wf(1,2) unfolding store_wf_def by blast+
  note A = append_laws [OF g wfs(1)] append_keeps [OF g wfs(2) wf(3)]
  define t where "t = (if saved then s else s\<lparr>sl_len := sl_len s - 1\<rparr>)"
  have m': "m' = m\<lparr>cr_Upstreams := t\<rparr>" "st' = st\<lparr>st_eps := e, st_ups := a\<rparr>" using assms(2) n g by (simp_all add: add_ref_def t_def)
  have len: "sl_len s = Suc (length (elems (st_ups st) (cr_Upstreams m)))" using length_elems [OF A(1)] A(2) by simp
  have t: "elems a t = elems (st_ups st) (cr_Upstreams m) @ (if saved then [x] else [])" "slice_wf a t" "apart t (cr_Upstreams r)"
    using A shrink [OF A(1), of "sl_len s - 1"] len by (auto simp: t_def apart_def)
  have us: "upstreams_wf e (elems a t)" "map (upstream_view e) (elems a t) = c_Upstreams (config_view st m) @ (if saved then [u] else [])"
    using upstreams_grown [OF x(1) wfs(3)] x(2,3) by (simp_all add: t(1) upstreams_wf_def view_Upstreams)
  show "config_view st' m' = edit_cfg (AddUp u saved) (config_view st m)" unfolding m' view_ups(1) us(2) by simp
  show un: "unseen r st st'" using x(1) A(4) by (simp add: m' unseen_def)
  have "store_wf st' m'" using wf(1) t us(1) by (simp add: m' store_wf_def split: option.splits)
  then show "separate st' m' r" using unseen_wf [OF un wf(2)] t(3) by (simp add: separate_def m')
qed

lemma remove_ref_laws:
  assumes "separate st m r" "remove_ref grow i saved (m, st) = (m', st')"
  shows "config_view st' m' = edit_cfg (RemoveUp i saved) (config_view st m)" "separate st' m' r" "unseen r st st'"
proof -
  define us where "us = elems (st_ups st) (cr_Upstreams m)"
  from assms(1) have wf: "store_wf st m" "store_wf st r" "apart (cr_Upstreams m) (cr_Upstreams r)" by (simp_all add: separate_def)
  have wfs: "slice_wf (st_ups st) (cr_Upstreams m)" "slice_wf (st_ups st) (cr_Upstreams r)" "upstreams_wf (st_eps st) us"
    using wf(1,2) unfolding store_wf_def us_def by blast+
  have "config_view st' m' = edit_cfg (RemoveUp i saved) (config_view st m) \<and> separate st' m' r \<and> unseen r st st'"
  proof (cases "length us \<le> i")
    case True
    then show ?thesis using assms by (auto simp: remove_ref_def us_def view_Upstreams Let_def)
  next
    case False
    then have i: "i < length us" "i \<le> sl_len (cr_Upstreams m)" using length_elems [OF wfs(1)] by (simp_all add: us_def)
    let ?s0 = "(cr_Upstreams m)\<lparr>sl_len := i, sl_cap := i\<rparr>"
    obtain s a where g: "go_append grow zero_upstream ?s0 (drop (i + 1) us) (st_ups st) = (s, a)" by fastforce
    have ap0: "apart ?s0 (cr_Upstreams r)" using wf(3) i(2) wfs(1) by (auto simp: apart_def slice_wf_def)
    note S = shrink [OF wfs(1) i(2)]
    note A = append_laws [OF g S(2)] append_keeps [OF g wfs(2) ap0]
    obtain s' a' where f: "(if saved then (s, a) else go_append grow zero_upstream s [us ! i] a) = (s', a')" by fastforce
    have F: "slice_wf a' s' \<and> elems a' s' = elems a s @ (if saved then [] else [us ! i]) \<and> keeps (cr_Upstreams r) (st_ups st) a' \<and> apart s' (cr_Upstreams r)"
      using f A append_laws [of grow zero_upstream s "[us ! i]" a s' a'] append_keeps [of grow zero_upstream s "[us ! i]" a s' a' "cr_Upstreams r"]
        keeps_wf [OF A(4) wfs(2)] keeps_trans [OF A(4), of a'] by (auto split: if_splits)
    have m': "m' = m\<lparr>cr_Upstreams := s'\<rparr>" "st' = st\<lparr>st_ups := a'\<rparr>"
      using assms(2) False g f unfolding us_def by (simp_all add: remove_ref_def Let_def)
    have el: "elems a' s' = take i us @ drop (i + 1) us @ (if saved then [] else [us ! i])" using F A(2) S(4) by (simp add: us_def)
    have un: "unseen r st st'" using F by (simp add: m' unseen_def)
    have sub: "set (elems a' s') \<subseteq> set us" using i(1) by (auto simp: el dest: in_set_takeD in_set_dropD)
    then have "upstreams_wf (st_eps st) (elems a' s')" using wfs(3) by (auto simp: upstreams_wf_def list_all_iff)
    then have "store_wf st' m'" using wf(1) F by (simp add: m' store_wf_def split: option.splits)
    then have "separate st' m' r" using unseen_wf [OF un wf(2)] F by (simp add: separate_def m')
    moreover have "config_view st' m' = edit_cfg (RemoveUp i saved) (config_view st m)"
      using i(1) unfolding m' view_ups el by (simp add: view_Upstreams us_def take_map drop_map Let_def)
    ultimately show ?thesis using un by blast
  qed
  then show "config_view st' m' = edit_cfg (RemoveUp i saved) (config_view st m)" "separate st' m' r" "unseen r st st'" by blast+
qed

lemma fallback_ref_laws:
  assumes "separate st m r" "fallback_ref enabled servers saved (m, st) = (m', st')"
  shows "config_view st' m' = edit_cfg (SetFb enabled servers saved) (config_view st m)" "separate st' m' r" "unseen r st st'"
proof -
  obtain s a where g: "alloc servers (length servers) (st_strings st) = (s, a)" by fastforce
  note A = alloc_laws [OF g order_refl]
  let ?m1 = "m\<lparr>cr_plain := (cr_plain m)\<lparr>c_Fallback := (c_Fallback (cr_plain m))\<lparr>fc_Enabled := enabled\<rparr>\<rparr>, cr_Servers := s\<rparr>"
  have m': "m' = (if saved then ?m1 else m)" "st' = st\<lparr>st_strings := a\<rparr>" using assms(2) g by (simp_all add: fallback_ref_def)
  have un: "unseen c st st'" if "store_wf st c" for c using A(3) by (simp add: m' unseen_def keeps_def)
  from assms(1) have wf: "store_wf st m" "store_wf st r" "apart (cr_Upstreams m) (cr_Upstreams r)" by (simp_all add: separate_def)
  note W = unseen_wf [OF un [OF wf(1)] wf(1)] and V = unseen_view [OF un [OF wf(1)] wf(1)]
  have mv: "map_view st' = map_view st" by (rule map_view_cong) (simp add: m')
  have sr: "elems a (cr_RetryRCodes m) = elems (st_strings st) (cr_RetryRCodes m)" using wf(1) A(3) grown_elems unfolding store_wf_def by blast
  have "config_view st' ?m1 = (config_view st m)\<lparr>c_Fallback := (c_Fallback (config_view st m))\<lparr>fc_Enabled := enabled, fc_Servers := servers\<rparr>\<rparr>"
    using A(2) sr mv by (simp add: config_view_def m'(2))
  then show "config_view st' m' = edit_cfg (SetFb enabled servers saved) (config_view st m)" using V by (simp add: m'(1))
  have "store_wf st' ?m1" using W A(1) by (simp add: store_wf_def m'(2))
  then have "store_wf st' m'" using W by (simp add: m'(1))
  then show "separate st' m' r" using wf(3) unseen_wf [OF un [OF wf(2)] wf(2)] by (simp add: separate_def m'(1))
  show "unseen r st st'" by (rule un [OF wf(2)])
qed

lemma strategy_ref_laws:
  assumes "separate st m r" "strategy_ref name saved (m, st) = (m', st')"
  shows "config_view st' m' = edit_cfg (SetStrat name saved) (config_view st m)" "separate st' m' r" "unseen r st st'"
  using assms by (auto simp: strategy_ref_def config_view_def separate_def store_wf_def)

lemma edit_laws:
  assumes "separate st m r" "edit_ref grow e (m, st) = (m', st')"
  shows "config_view st' m' = edit_cfg e (config_view st m) \<and> separate st' m' r \<and> unseen r st st'"
proof (cases e)
  case (AddUp u saved)
  then show ?thesis using add_ref_laws [OF assms(1)] assms(2) unfolding AddUp edit_ref.simps by blast
next
  case (RemoveUp i saved)
  then show ?thesis using remove_ref_laws [OF assms(1)] assms(2) unfolding RemoveUp edit_ref.simps by blast
next
  case (SetStrat name saved)
  then show ?thesis using strategy_ref_laws [OF assms(1)] assms(2) unfolding SetStrat edit_ref.simps by blast
next
  case (SetFb enabled servers saved)
  then show ?thesis using fallback_ref_laws [OF assms(1)] assms(2) unfolding SetFb edit_ref.simps by blast
qed

lemma edits_laws:
  assumes "separate st m r" "fold (edit_ref grow) es (m, st) = (m', st')"
  shows "config_view st' m' = fold edit_cfg es (config_view st m) \<and> separate st' m' r \<and> unseen r st st'"
  using assms
proof (induction es arbitrary: m st)
  case (Cons e es)
  obtain m1 st1 where e: "edit_ref grow e (m, st) = (m1, st1)" by fastforce
  from edit_laws [OF Cons.prems(1) e] have 1: "config_view st1 m1 = edit_cfg e (config_view st m)" "separate st1 m1 r" "unseen r st st1" by blast+
  from Cons.IH [OF 1(2)] Cons.prems(2) e have "config_view st' m' = fold edit_cfg es (config_view st1 m1)" "separate st' m' r" "unseen r st1 st'" by simp_all
  then show ?case using 1(1) unseen_trans [OF 1(3)] by simp
qed simp

section \<open>The edits are those of the manager\<close>

text \<open>The edit a request asks for.\<close>

fun asks_for :: "request \<Rightarrow> config \<Rightarrow> edit \<Rightarrow> bool" where
  "asks_for (ReqAdd u) c (AddUp clean saved) \<longleftrightarrow> PrepareUpstream u = Inr clean"
| "asks_for (ReqRemove name) c (RemoveUp i saved) \<longleftrightarrow> i = cfg_index name (c_Upstreams c)"
| "asks_for (ReqStrategy name) c (SetStrat name' saved) \<longleftrightarrow> name' = name"
| "asks_for (ReqFallback b servers) c (SetFb b' clean saved) \<longleftrightarrow> b' = b \<and> clean_servers servers [] = Inr clean"
| "asks_for _ c _ \<longleftrightarrow> False"

definition edit_step :: "request \<Rightarrow> config \<Rightarrow> edit option \<Rightarrow> config \<Rightarrow> bool" where
  "edit_step rq c oe c' \<longleftrightarrow> (case oe of None \<Rightarrow> c' = c | Some e \<Rightarrow> asks_for rq c e \<and> c' = edit_cfg e c)"

fun traced :: "(config \<Rightarrow> string result) \<Rightarrow> (save_script \<times> request) list \<Rightarrow> world \<Rightarrow> edit option list \<Rightarrow> bool" where
  "traced marshal [] w oes \<longleftrightarrow> oes = []"
| "traced marshal (rq # rqs) w [] \<longleftrightarrow> False"
| "traced marshal (rq # rqs) w (oe # oes) \<longleftrightarrow>
     (let w' = snd (manage marshal rq w) in edit_step (snd rq) (w_cfg w) oe (w_cfg w') \<and> traced marshal rqs w' oes)"

lemma saveLocked_edit:
  assumes "saveLocked marshal sv rollback w = (err, w')" "w_cfg w = edit_cfg (e True) c"
    and "\<And>v. w_cfg v = w_cfg w \<Longrightarrow> w_cfg (rollback v) = edit_cfg (e False) c"
  shows "\<exists>saved. w_cfg w' = edit_cfg (e saved) c"
  using assms(1)
proof (cases rule: saveLocked_cases)
  case 1
  then show ?thesis using assms(2) by (metis world_simps(9))
next
  case 2
  then show ?thesis using assms(3) by (metis world_simps(9))
qed

lemma AddUpstream_edit:
  assumes "AddUpstream marshal sv u w = (err, w')"
  shows "\<exists>oe. edit_step (ReqAdd u) (w_cfg w) oe (w_cfg w')"
proof (cases "w' = w")
  case False
  with assms obtain clean i p where c: "PrepareUpstream u = Inr clean" and s: "saveLocked marshal sv
      (\<lambda>w. set_cfg (\<lambda>c. c\<lparr>c_Upstreams := butlast (c_Upstreams c)\<rparr>) (case Remove (uc_Name clean) (w_pool w) of Inl _ \<Rightarrow> w | Inr p \<Rightarrow> set_pool p w))
      (set_cfg (\<lambda>c. c\<lparr>c_Upstreams := c_Upstreams c @ [clean]\<rparr>) (set_pool p w)) = (err, w')"
    by (auto simp: AddUpstream_def split: option.splits sum.splits prod.splits)
  have "\<exists>saved. w_cfg w' = edit_cfg (AddUp clean saved) (w_cfg w)"
    by (rule saveLocked_edit [OF s]) (auto split: sum.splits)
  then obtain saved where "w_cfg w' = edit_cfg (AddUp clean saved) (w_cfg w)" ..
  then show ?thesis using c by (intro exI [of _ "Some (AddUp clean saved)"]) (simp add: edit_step_def)
qed (auto intro!: exI [of _ None] simp: edit_step_def)

lemma RemoveUpstream_edit:
  assumes "RemoveUpstream marshal sv name w = (err, w')"
  shows "\<exists>oe. edit_step (ReqRemove name) (w_cfg w) oe (w_cfg w')"
proof (cases "w' = w")
  case False
  let ?us = "c_Upstreams (w_cfg w)" and ?i = "cfg_index name (c_Upstreams (w_cfg w))"
  from False assms obtain p e2 w2 where i: "?i \<noteq> length ?us" and s: "saveLocked marshal sv
      (\<lambda>w. set_cfg (\<lambda>c. c\<lparr>c_Upstreams := c_Upstreams c @ [?us ! ?i]\<rparr>) (case Add (?us ! ?i) (w_pool w) of Inl _ \<Rightarrow> w | Inr (_, p) \<Rightarrow> set_pool p w))
      (set_cfg (\<lambda>c. c\<lparr>c_Upstreams := take ?i ?us @ drop (?i + 1) ?us\<rparr>) (set_pool p w)) = (e2, w2)" and w2: "w_cfg w' = w_cfg w2"
    by (auto simp: RemoveUpstream_def Let_def split: option.splits sum.splits prod.splits if_splits)
  have "?i < length ?us" using i length_takeWhile_le [of _ ?us] by (simp add: cfg_index_def order_le_neq_trans)
  then have "\<exists>saved. w_cfg w2 = edit_cfg (RemoveUp ?i saved) (w_cfg w)"
    by (intro saveLocked_edit [OF s]) (auto simp: Let_def split: sum.splits prod.splits)
  then obtain saved where "w_cfg w2 = edit_cfg (RemoveUp ?i saved) (w_cfg w)" ..
  then show ?thesis using w2 by (intro exI [of _ "Some (RemoveUp ?i saved)"]) (simp add: edit_step_def)
qed (auto intro!: exI [of _ None] simp: edit_step_def)

lemma SetStrategy_edit:
  assumes "Manager_SetStrategy marshal sv name w = (err, w')"
  shows "\<exists>oe. edit_step (ReqStrategy name) (w_cfg w) oe (w_cfg w')"
proof (cases "w' = w")
  case False
  with assms obtain p where "saveLocked marshal sv
      (\<lambda>v. set_cfg (\<lambda>c. c\<lparr>c_Strategy := c_Strategy (w_cfg w)\<rparr>) (case SetStrategy (c_Strategy (w_cfg w)) (w_pool v) of Inl _ \<Rightarrow> v | Inr p \<Rightarrow> set_pool p v))
      (set_cfg (\<lambda>c. c\<lparr>c_Strategy := name\<rparr>) (set_pool p w)) = (err, w')"
    by (auto simp: Manager_SetStrategy_def Let_def split: option.splits sum.splits)
  then have "\<exists>saved. w_cfg w' = edit_cfg (SetStrat name saved) (w_cfg w)"
    by (rule saveLocked_edit) (auto split: sum.splits)
  then obtain saved where "w_cfg w' = edit_cfg (SetStrat name saved) (w_cfg w)" ..
  then show ?thesis by (intro exI [of _ "Some (SetStrat name saved)"]) (simp add: edit_step_def)
qed (auto intro!: exI [of _ None] simp: edit_step_def)

lemma SetFallback_edit:
  assumes "SetFallback marshal sv enabled servers w = (err, w')"
  shows "\<exists>oe. edit_step (ReqFallback enabled servers) (w_cfg w) oe (w_cfg w')"
proof (cases "w' = w")
  case False
  let ?prev = "c_Fallback (w_cfg w)"
  from False assms obtain clean where c: "clean_servers servers [] = Inr clean" and s: "saveLocked marshal sv (set_fallback (fc_Enabled ?prev) (fc_Servers ?prev)) (set_fallback enabled clean w) = (err, w')"
    by (auto simp: SetFallback_def Let_def split: option.splits sum.splits if_splits)
  have "\<exists>saved. w_cfg w' = edit_cfg (SetFb enabled clean saved) (w_cfg w)"
    by (rule saveLocked_edit [OF s]) (simp_all add: set_fallback_def)
  then obtain saved where "w_cfg w' = edit_cfg (SetFb enabled clean saved) (w_cfg w)" ..
  then show ?thesis using c by (intro exI [of _ "Some (SetFb enabled clean saved)"]) (simp add: edit_step_def)
qed (auto intro!: exI [of _ None] simp: edit_step_def)

text \<open>What every operation of the manager does to its configuration is nothing or the edit it is asked for.\<close>

lemma manage_edit:
  assumes "manage marshal rq w = (err, w')"
  shows "\<exists>oe. edit_step (snd rq) (w_cfg w) oe (w_cfg w')"
proof (cases "\<exists>name b. snd rq = ReqDrain name b")
  case True
  then have "w_cfg w' = w_cfg w" using assms by (cases rq) (auto simp: Manager_SetDrained_def split: option.splits)
  then show ?thesis by (intro exI [of _ None]) (simp add: edit_step_def)
next
  case False
  then show ?thesis using assms AddUpstream_edit RemoveUpstream_edit SetStrategy_edit SetFallback_edit
    by (cases rq; cases "snd rq") auto
qed

definition edit_values :: "edit option list \<Rightarrow> config \<Rightarrow> config" where
  "edit_values oes = fold edit_cfg (map the (filter (\<lambda>oe. oe \<noteq> None) oes))"

definition edit_slices :: "(nat \<Rightarrow> nat \<Rightarrow> nat) \<Rightarrow> edit option list \<Rightarrow> config_ref \<times> store \<Rightarrow> config_ref \<times> store" where
  "edit_slices grow oes = fold (edit_ref grow) (map the (filter (\<lambda>oe. oe \<noteq> None) oes))"

lemma manage_traced:
  "\<exists>oes. traced marshal rqs w oes \<and> w_cfg (fold (\<lambda>rq w. snd (manage marshal rq w)) rqs w) = edit_values oes (w_cfg w)"
proof (induction rqs arbitrary: w)
  case Nil
  show ?case by (rule exI [of _ "[]"]) (simp add: edit_values_def)
next
  case (Cons rq rqs)
  let ?w = "snd (manage marshal rq w)"
  obtain oes where es: "traced marshal rqs ?w oes" "w_cfg (fold (\<lambda>rq w. snd (manage marshal rq w)) rqs ?w) = edit_values oes (w_cfg ?w)" using Cons.IH by blast
  from manage_edit [of marshal rq w "fst (manage marshal rq w)" ?w] obtain oe where oe: "edit_step (snd rq) (w_cfg w) oe (w_cfg ?w)" by auto
  then have "edit_values (oe # oes) (w_cfg w) = edit_values oes (w_cfg ?w)"
    by (auto simp: edit_values_def edit_step_def split: option.splits simp del: edit_cfg.simps)
  with es oe show ?case by (intro exI [of _ "oe # oes"]) (simp add: Let_def)
qed

section \<open>Writing through a clone\<close>

datatype assignment =
    PokeString slice nat string
  | PokeEndpoint slice nat endpoint_cfg
  | PokeUpstream nat upstream_ref
  | PokeMap nat rcode bool

text \<open>An assignment to an element somebody reaches through \<open>c\<close>.\<close>

fun poke :: "config_ref \<Rightarrow> assignment \<Rightarrow> store \<Rightarrow> store" where
  "poke c (PokeString s i x) st = st\<lparr>st_strings := slice_set s i x (st_strings st)\<rparr>"
| "poke c (PokeEndpoint s i x) st = st\<lparr>st_eps := slice_set s i x (st_eps st)\<rparr>"
| "poke c (PokeUpstream i x) st = st\<lparr>st_ups := slice_set (cr_Upstreams c) i x (st_ups st)\<rparr>"
| "poke c (PokeMap i k b) st = st\<lparr>st_maps := (st_maps st)(i := (st_maps st i)(k \<mapsto> b))\<rparr>"

fun reached :: "store \<Rightarrow> config_ref \<Rightarrow> assignment \<Rightarrow> bool" where
  "reached st c (PokeString s i x) \<longleftrightarrow> s \<in> {cr_RetryRCodes c, cr_Servers c} \<and> i < sl_cap s"
| "reached st c (PokeEndpoint s i x) \<longleftrightarrow> s \<in> ur_Endpoints ` set (elems (st_ups st) (cr_Upstreams c)) \<and> i < sl_cap s"
| "reached st c (PokeUpstream i x) \<longleftrightarrow> i < sl_cap (cr_Upstreams c)"
| "reached st c (PokeMap i k b) \<longleftrightarrow> cr_retryRCodes c = Some i"

lemma grown_set: "grown a a' \<Longrightarrow> ar_next a \<le> sl_addr s \<Longrightarrow> grown a (slice_set s i x a')"
  by (auto simp: grown_def slice_set_def)

lemma poke_extended:
  assumes "extended st st'" "newer st st1 c" "reached st1 c p"
  shows "extended st (poke c p st')"
  using assms by (cases p) (auto simp: extended_def newer_def intro!: grown_set)

lemma pokes_extended:
  "extended st st' \<Longrightarrow> newer st st1 c \<Longrightarrow> list_all (reached st1 c) ps \<Longrightarrow> extended st (fold (poke c) ps st')"
  by (induction ps arbitrary: st') (simp_all add: poke_extended)

text \<open>A running configuration with one upstream.\<close>

definition demo_store :: store where
  "demo_store = \<lparr>
     st_strings = \<lparr>ar_array = (\<lambda>_. [])(0 := [''SERVFAIL''], 1 := [''8.8.8.8:53'', ''8.8.4.4:53'']), ar_next = 2\<rparr>,
     st_eps = \<lparr>ar_array = (\<lambda>_. [])(0 := [\<lparr>ec_Name = ''lan'', ec_Addr = ''10.0.0.2:53''\<rparr>]), ar_next = 1\<rparr>,
     st_ups = \<lparr>ar_array = (\<lambda>_. [])(0 := [\<lparr>ur_Name = ''pihole-1'', ur_Weight = 1,
       ur_Endpoints = \<lparr>sl_addr = 0, sl_off = 0, sl_len = 1, sl_cap = 1\<rparr>\<rparr>]), ar_next = 1\<rparr>,
     st_maps = (\<lambda>_. Map.empty), st_nextmap = 1\<rparr>"

definition demo_ref :: config_ref where
  "demo_ref = \<lparr>cr_plain = Default, cr_RetryRCodes = \<lparr>sl_addr = 0, sl_off = 0, sl_len = 1, sl_cap = 1\<rparr>, cr_retryRCodes = Some 0,
     cr_Servers = \<lparr>sl_addr = 1, sl_off = 0, sl_len = 2, sl_cap = 2\<rparr>, cr_Upstreams = \<lparr>sl_addr = 0, sl_off = 0, sl_len = 1, sl_cap = 1\<rparr>\<rparr>"

lemma demo_wf: "store_wf demo_store demo_ref"
  by (simp add: demo_store_def demo_ref_def store_wf_def slice_wf_def upstreams_wf_def elems_def)

section \<open>Properties\<close>

text \<open>
  C30. \<open>Clone\<close> makes a deep copy: it has the value of the original, and no assignment to a string,
  an endpoint, an upstream or a map entry reached through it changes the value of the original
  or of any other configuration that existed before.
\<close>

theorem Clone_deep:
  assumes "Clone grow c st = (c', st')" "store_wf st c" "store_wf st d" "list_all (reached st' c') ps"
  shows "config_view st' c' = config_view st c \<and> config_view (fold (poke c') ps st') d = config_view st d"
  using Clone_laws [OF assms(1,2)] pokes_extended [of st st' st' c' ps] assms(3,4) unseen_view extended_unseen by blast

theorem Clone_deep_witness:
  "case Clone (\<lambda>_ n. 2 * n) demo_ref demo_store of (c', st') \<Rightarrow>
     config_view (poke c' (PokeString (cr_Servers c') 0 ''1.1.1.1:53'') st') demo_ref = config_view demo_store demo_ref"
proof -
  obtain c' st' where c: "Clone (\<lambda>_ n. 2 * n) demo_ref demo_store = (c', st')" by fastforce
  have s: "fc_Servers (c_Fallback (config_view demo_store demo_ref)) = [''8.8.8.8:53'', ''8.8.4.4:53'']"
    by (simp add: config_view_def demo_store_def demo_ref_def elems_def)
  have v: "config_view st' c' = config_view demo_store demo_ref" using Clone_deep [OF c demo_wf demo_wf, of "[]"] by simp
  have "elems (st_strings st') (cr_Servers c') = [''8.8.8.8:53'', ''8.8.4.4:53'']" using s unfolding v [symmetric] by (simp add: config_view_def)
  then have "0 < sl_cap (cr_Servers c')" using Clone_laws(2) [OF c demo_wf] length_elems [of "st_strings st'" "cr_Servers c'"]
    by (auto simp: store_wf_def slice_wf_def)
  with Clone_deep [OF c demo_wf demo_wf, of "[PokeString (cr_Servers c') 0 ''1.1.1.1:53'']"] c show ?thesis by simp
qed



end
