(* ===== verification/Buffers.thy ===== *)
theory Buffers
  imports Dnsclient GoSlice
begin

text \<open>
  The receive buffers shared by all goroutines (\<open>bufPool\<close>, \<open>GetBuf\<close> and \<open>PutBuf\<close> of
  \<open>internal/dnsclient\<close>): \<open>exchangeUDP\<close> and the loop of \<open>serveUDP\<close> borrow a buffer, read
  datagrams into it, copy the one they want out and give the buffer back. Goroutines
  interleave step by step over one memory; the copies are shown to be what \<open>read_udp\<close> says,
  for good, although the buffers they came from are written again and again.
\<close>

section \<open>Readers\<close>

text \<open>
  A reader is one call: the test a datagram must pass, the datagrams that arrive before the
  deadline and those not read yet, the error that comes after them, and where it stands.
  \<open>Checking b n\<close> has \<open>n\<close> bytes in the buffer, \<open>Leaving_with b s\<close> the copy \<open>s\<close> and its deferred
  \<open>PutBuf\<close> still to run.
\<close>

datatype reading =
    Borrowing
  | Reading nat
  | Checking nat nat
  | Leaving_with nat slice
  | Returned "slice result"

record reader =
  rd_accept :: "bytes \<Rightarrow> bool"
  rd_all :: "bytes list"
  rd_rest :: "bytes list"
  rd_end :: goerr
  rd_at :: reading

record buffers =
  bf_mem :: "byte arena"
  bf_pool :: "nat set"
  bf_readers :: "reader list"

definition new_reader :: "(bytes \<Rightarrow> bool) \<Rightarrow> bytes list \<Rightarrow> goerr \<Rightarrow> reader" where
  "new_reader accept ds fin = \<lparr>rd_accept = accept, rd_all = ds, rd_rest = ds, rd_end = fin, rd_at = Borrowing\<rparr>"

text \<open>\<open>exchangeUDP\<close> wants a header with its transaction id, \<open>serveUDP\<close> takes anything.\<close>

definition wants_id :: "u16 \<Rightarrow> bytes \<Rightarrow> bool" where
  "wants_id wantID m \<longleftrightarrow> HeaderLen \<le> length m \<and> ID m = wantID"

definition buffer_bytes :: "byte arena \<Rightarrow> nat \<Rightarrow> nat \<Rightarrow> bytes" where
  "buffer_bytes a b n = take n (ar_array a b)"

definition move :: "nat \<Rightarrow> reading \<Rightarrow> reader list \<Rightarrow> reader list" where
  "move i p rs = rs[i := (rs ! i)\<lparr>rd_at := p\<rparr>]"

text \<open>The pool may hand out any buffer it has or make a new one, and may forget buffers.\<close>

inductive buf_step :: "buffers \<Rightarrow> buffers \<Rightarrow> bool" where
  call: "buf_step s (s\<lparr>bf_readers := bf_readers s @ [new_reader accept ds fin]\<rparr>)"
| get_pooled: "i < length (bf_readers s) \<Longrightarrow> rd_at (bf_readers s ! i) = Borrowing \<Longrightarrow> b \<in> bf_pool s \<Longrightarrow>
    buf_step s (s\<lparr>bf_pool := bf_pool s - {b}, bf_readers := move i (Reading b) (bf_readers s)\<rparr>)"
| get_new: "i < length (bf_readers s) \<Longrightarrow> rd_at (bf_readers s ! i) = Borrowing \<Longrightarrow>
    go_make MaxMessageSize 0 (bf_mem s) = (w, a) \<Longrightarrow>
    buf_step s (s\<lparr>bf_mem := a, bf_readers := move i (Reading (sl_addr w)) (bf_readers s)\<rparr>)"
| read: "i < length (bf_readers s) \<Longrightarrow> r = bf_readers s ! i \<Longrightarrow> rd_at r = Reading b \<Longrightarrow> rd_rest r = d # ds \<Longrightarrow> m = take MaxMessageSize d \<Longrightarrow>
    buf_step s (s\<lparr>bf_mem := (bf_mem s)\<lparr>ar_array := (ar_array (bf_mem s))(b := write_at 0 m (ar_array (bf_mem s) b))\<rparr>,
      bf_readers := (bf_readers s)[i := r\<lparr>rd_rest := ds, rd_at := Checking b (length m)\<rparr>]\<rparr>)"
| read_fails: "i < length (bf_readers s) \<Longrightarrow> rd_at (bf_readers s ! i) = Reading b \<Longrightarrow> rd_rest (bf_readers s ! i) = [] \<Longrightarrow>
    buf_step s (s\<lparr>bf_pool := insert b (bf_pool s),
      bf_readers := move i (Returned (Inl (Wrapf ''read: %w'' [] (rd_end (bf_readers s ! i))))) (bf_readers s)\<rparr>)"
| skip: "i < length (bf_readers s) \<Longrightarrow> rd_at (bf_readers s ! i) = Checking b n \<Longrightarrow>
    \<not> rd_accept (bf_readers s ! i) (buffer_bytes (bf_mem s) b n) \<Longrightarrow>
    buf_step s (s\<lparr>bf_readers := move i (Reading b) (bf_readers s)\<rparr>)"
| copy: "i < length (bf_readers s) \<Longrightarrow> rd_at (bf_readers s ! i) = Checking b n \<Longrightarrow>
    rd_accept (bf_readers s ! i) (buffer_bytes (bf_mem s) b n) \<Longrightarrow> alloc (buffer_bytes (bf_mem s) b n) n (bf_mem s) = (out, a) \<Longrightarrow>
    buf_step s (s\<lparr>bf_mem := a, bf_readers := move i (Leaving_with b out) (bf_readers s)\<rparr>)"
| put: "i < length (bf_readers s) \<Longrightarrow> rd_at (bf_readers s ! i) = Leaving_with b out \<Longrightarrow>
    buf_step s (s\<lparr>bf_pool := insert b (bf_pool s), bf_readers := move i (Returned (Inr out)) (bf_readers s)\<rparr>)"
| forget: "buf_step s (s\<lparr>bf_pool := bf_pool s - {b}\<rparr>)"

inductive_cases buf_stepE: "buf_step s s'"

definition no_buffers :: buffers where
  "no_buffers = \<lparr>bf_mem = \<lparr>ar_array = (\<lambda>_. []), ar_next = 0\<rparr>, bf_pool = {}, bf_readers = []\<rparr>"

section \<open>What a reader should get\<close>

fun first_wanted :: "(bytes \<Rightarrow> bool) \<Rightarrow> bytes list \<Rightarrow> goerr \<Rightarrow> bytes result" where
  "first_wanted accept [] fin = Inl (Wrapf ''read: %w'' [] fin)"
| "first_wanted accept (d # ds) fin =
     (let m = take MaxMessageSize d in if accept m then Inr m else first_wanted accept ds fin)"

lemma first_wanted_id: "first_wanted (wants_id w) ds fin = read_udp w ds fin"
  by (induction ds) (auto simp: wants_id_def Let_def)

definition wanted :: "reader \<Rightarrow> bytes result" where
  "wanted r = first_wanted (rd_accept r) (rd_all r) (rd_end r)"

section \<open>The invariant\<close>

fun held :: "reading \<Rightarrow> nat set" where
  "held Borrowing = {}"
| "held (Reading b) = {b}"
| "held (Checking b n) = {b}"
| "held (Leaving_with b out) = {b}"
| "held (Returned r) = {}"

fun copies :: "reading \<Rightarrow> slice set" where
  "copies (Leaving_with b out) = {out}"
| "copies (Returned (Inr out)) = {out}"
| "copies _ = {}"

text \<open>What a reader has so far is right.\<close>

fun on_course :: "byte arena \<Rightarrow> reader \<Rightarrow> reading \<Rightarrow> bool" where
  "on_course a r Borrowing \<longleftrightarrow> rd_rest r = rd_all r"
| "on_course a r (Reading b) \<longleftrightarrow> first_wanted (rd_accept r) (rd_rest r) (rd_end r) = wanted r"
| "on_course a r (Checking b n) \<longleftrightarrow> (\<exists>d. buffer_bytes a b n = take MaxMessageSize d \<and> n = length (take MaxMessageSize d) \<and>
     first_wanted (rd_accept r) (d # rd_rest r) (rd_end r) = wanted r)"
| "on_course a r (Leaving_with b out) \<longleftrightarrow> Inr (elems a out) = wanted r"
| "on_course a r (Returned res) \<longleftrightarrow> map_sum id (elems a) res = wanted r"

definition buffer_ok :: "byte arena \<Rightarrow> nat \<Rightarrow> bool" where
  "buffer_ok a b \<longleftrightarrow> b < ar_next a \<and> length (ar_array a b) = MaxMessageSize"

text \<open>A reader owns the buffer it has borrowed, and its copy is nobody's buffer.\<close>

definition reader_ok :: "byte arena \<Rightarrow> nat set \<Rightarrow> reader \<Rightarrow> bool" where
  "reader_ok a pool r \<longleftrightarrow> on_course a r (rd_at r) \<and> (\<forall>b \<in> held (rd_at r). buffer_ok a b \<and> b \<notin> pool) \<and>
     (\<forall>out \<in> copies (rd_at r). slice_wf a out \<and> sl_addr out < ar_next a \<and> sl_addr out \<notin> pool)"

definition buf_inv :: "buffers \<Rightarrow> bool" where
  "buf_inv s \<longleftrightarrow> (\<forall>b \<in> bf_pool s. buffer_ok (bf_mem s) b) \<and>
     (\<forall>i < length (bf_readers s). reader_ok (bf_mem s) (bf_pool s) (bf_readers s ! i)) \<and>
     (\<forall>i < length (bf_readers s). \<forall>j < length (bf_readers s).
        (i \<noteq> j \<longrightarrow> held (rd_at (bf_readers s ! i)) \<inter> held (rd_at (bf_readers s ! j)) = {}) \<and>
        sl_addr ` copies (rd_at (bf_readers s ! i)) \<inter> held (rd_at (bf_readers s ! j)) = {})"

text \<open>
  What a step of one reader may do to the memory and the pool: write to the buffer it holds
  and to new arrays, take from the pool, and give its buffer back.
\<close>

definition own_step :: "reading \<Rightarrow> byte arena \<Rightarrow> nat set \<Rightarrow> reading \<Rightarrow> byte arena \<Rightarrow> nat set \<Rightarrow> bool" where
  "own_step p a pool p' a' pool' \<longleftrightarrow>
     ar_next a \<le> ar_next a' \<and> (\<forall>b < ar_next a. b \<notin> held p \<longrightarrow> ar_array a' b = ar_array a b) \<and>
     (\<forall>b. length (ar_array a b) = MaxMessageSize \<and> b < ar_next a \<longrightarrow> length (ar_array a' b) = MaxMessageSize) \<and>
     pool' \<subseteq> pool \<union> held p \<and> held p' \<subseteq> held p \<union> (pool - pool') \<union> {ar_next a..<ar_next a'} \<and>
     sl_addr ` copies p' \<subseteq> sl_addr ` copies p \<union> {ar_next a..<ar_next a'} \<and> sl_addr ` copies p' \<inter> held p' = {}"

lemma elems_same: "ar_array a' (sl_addr s) = ar_array a (sl_addr s) \<Longrightarrow> elems a' s = elems a s"
  by (simp add: elems_def)

lemma on_course_same:
  assumes "on_course a r p" "\<forall>b \<in> held p \<union> sl_addr ` copies p. ar_array a' b = ar_array a b"
  shows "on_course a' r p"
proof (cases p)
  case (Checking b n)
  then have "buffer_bytes a' b n = buffer_bytes a b n" using assms(2) by (simp add: buffer_bytes_def)
  then show ?thesis using assms(1) Checking by simp
next
  case (Leaving_with b out)
  then have "elems a' out = elems a out" using assms(2) elems_same [of a' out a] by simp
  then show ?thesis using assms(1) Leaving_with by simp
next
  case (Returned res)
  show ?thesis
  proof (cases res)
    case (Inr out)
    then have "elems a' out = elems a out" using assms(2) Returned elems_same [of a' out a] by simp
    then show ?thesis using assms(1) Returned Inr by simp
  qed (use assms(1) Returned in simp)
qed (use assms(1) in simp_all)

lemma other_reader_ok:
  assumes "reader_ok a pool r" "own_step p a pool p' a' pool'"
    and "held p \<inter> held (rd_at r) = {}" "sl_addr ` copies (rd_at r) \<inter> held p = {}"
  shows "reader_ok a' pool' r"
proof -
  have lt: "\<forall>b \<in> held (rd_at r) \<union> sl_addr ` copies (rd_at r). b < ar_next a" using assms(1) by (auto simp: reader_ok_def buffer_ok_def)
  then have same: "\<forall>b \<in> held (rd_at r) \<union> sl_addr ` copies (rd_at r). ar_array a' b = ar_array a b"
    using assms(2,3,4) by (auto simp: own_step_def)
  have "on_course a' r (rd_at r)" using on_course_same [OF _ same] assms(1) by (simp add: reader_ok_def)
  moreover have "buffer_ok a' b \<and> b \<notin> pool'" if "b \<in> held (rd_at r)" for b
    using that assms same by (auto simp: reader_ok_def buffer_ok_def own_step_def)
  moreover have "slice_wf a' out \<and> sl_addr out < ar_next a' \<and> sl_addr out \<notin> pool'" if "out \<in> copies (rd_at r)" for out
  proof -
    have "slice_wf a out" "sl_addr out < ar_next a" "sl_addr out \<notin> pool" "sl_addr out \<notin> held p" using that assms(1,4) by (auto simp: reader_ok_def)
    moreover have "ar_array a' (sl_addr out) = ar_array a (sl_addr out)" using that same by blast
    ultimately show ?thesis using assms(2) by (auto simp: slice_wf_def own_step_def)
  qed
  ultimately show ?thesis by (simp add: reader_ok_def)
qed

lemma inv_update:
  assumes "buf_inv s" "i < length (bf_readers s)"
    and "own_step (rd_at (bf_readers s ! i)) (bf_mem s) (bf_pool s) (rd_at r') a' pool'" "reader_ok a' pool' r'"
  shows "buf_inv (s\<lparr>bf_mem := a', bf_pool := pool', bf_readers := (bf_readers s)[i := r']\<rparr>)"
proof -
  let ?rs = "bf_readers s" and ?p = "rd_at (bf_readers s ! i)"
  have I: "\<forall>b \<in> bf_pool s. buffer_ok (bf_mem s) b" "\<And>j. j < length ?rs \<Longrightarrow> reader_ok (bf_mem s) (bf_pool s) (?rs ! j)"
    "\<And>j k. j < length ?rs \<Longrightarrow> k < length ?rs \<Longrightarrow> j \<noteq> k \<Longrightarrow> held (rd_at (?rs ! j)) \<inter> held (rd_at (?rs ! k)) = {}"
    "\<And>j k. j < length ?rs \<Longrightarrow> k < length ?rs \<Longrightarrow> sl_addr ` copies (rd_at (?rs ! j)) \<inter> held (rd_at (?rs ! k)) = {}"
    using assms(1) unfolding buf_inv_def by blast+
  have pool: "\<forall>b \<in> pool'. buffer_ok a' b"
  proof
    fix b assume "b \<in> pool'"
    then have "b \<in> bf_pool s \<union> held ?p" using assms(3) unfolding own_step_def by blast
    then have "buffer_ok (bf_mem s) b" using I(1) I(2) [OF assms(2)] unfolding reader_ok_def by blast
    then show "buffer_ok a' b" using assms(3) unfolding own_step_def buffer_ok_def by (meson less_le_trans)
  qed
  have ok: "reader_ok a' pool' (?rs ! j)" if "j < length ?rs" "j \<noteq> i" for j
    using other_reader_ok [OF I(2) [OF that(1)] assms(3)] I(3) [OF assms(2) that(1)] I(4) [OF that(1) assms(2)] that(2) by blast
  have old: "b < ar_next (bf_mem s) \<and> b \<notin> bf_pool s" if "j < length ?rs" "b \<in> held (rd_at (?rs ! j)) \<union> sl_addr ` copies (rd_at (?rs ! j))" for j b
    using I(2) [OF that(1)] that(2) by (auto simp: reader_ok_def buffer_ok_def)
  have hd: "held (rd_at r') \<inter> held (rd_at (?rs ! j)) = {}" "sl_addr ` copies (rd_at (?rs ! j)) \<inter> held (rd_at r') = {}"
      "sl_addr ` copies (rd_at r') \<inter> held (rd_at (?rs ! j)) = {}" if j: "j < length ?rs" "j \<noteq> i" for j
  proof -
    have H: "held (rd_at r') \<subseteq> held ?p \<union> bf_pool s \<union> {ar_next (bf_mem s)..<ar_next a'}"
      "sl_addr ` copies (rd_at r') \<subseteq> sl_addr ` copies ?p \<union> {ar_next (bf_mem s)..<ar_next a'}"
      using assms(3) unfolding own_step_def by blast+
    have O: "b \<notin> {ar_next (bf_mem s)..<ar_next a'} \<and> b \<notin> bf_pool s" if "b \<in> held (rd_at (?rs ! j)) \<union> sl_addr ` copies (rd_at (?rs ! j))" for b
      using old [OF j(1) that] by simp
    show "held (rd_at r') \<inter> held (rd_at (?rs ! j)) = {}" using H(1) O I(3) [OF assms(2) j(1)] j(2) by blast
    show "sl_addr ` copies (rd_at (?rs ! j)) \<inter> held (rd_at r') = {}" using H(1) O I(4) [OF j(1) assms(2)] by blast
    show "sl_addr ` copies (rd_at r') \<inter> held (rd_at (?rs ! j)) = {}" using H(2) O I(4) [OF assms(2) j(1)] by blast
  qed
  have self: "sl_addr ` copies (rd_at r') \<inter> held (rd_at r') = {}" using assms(3) by (simp add: own_step_def)
  show ?thesis unfolding buf_inv_def
  proof (intro conjI allI impI)
    show "\<forall>b \<in> bf_pool (s\<lparr>bf_mem := a', bf_pool := pool', bf_readers := ?rs[i := r']\<rparr>).
        buffer_ok (bf_mem (s\<lparr>bf_mem := a', bf_pool := pool', bf_readers := ?rs[i := r']\<rparr>)) b" using pool by simp
  next
    fix j assume "j < length (bf_readers (s\<lparr>bf_mem := a', bf_pool := pool', bf_readers := ?rs[i := r']\<rparr>))"
    then show "reader_ok (bf_mem (s\<lparr>bf_mem := a', bf_pool := pool', bf_readers := ?rs[i := r']\<rparr>))
        (bf_pool (s\<lparr>bf_mem := a', bf_pool := pool', bf_readers := ?rs[i := r']\<rparr>))
        (bf_readers (s\<lparr>bf_mem := a', bf_pool := pool', bf_readers := ?rs[i := r']\<rparr>) ! j)"
      using ok assms(4) by (cases "j = i") simp_all
  next
    fix j k assume jk: "j < length (bf_readers (s\<lparr>bf_mem := a', bf_pool := pool', bf_readers := ?rs[i := r']\<rparr>))"
      "k < length (bf_readers (s\<lparr>bf_mem := a', bf_pool := pool', bf_readers := ?rs[i := r']\<rparr>))"
    then show "j \<noteq> k \<Longrightarrow> held (rd_at (bf_readers (s\<lparr>bf_mem := a', bf_pool := pool', bf_readers := ?rs[i := r']\<rparr>) ! j)) \<inter>
        held (rd_at (bf_readers (s\<lparr>bf_mem := a', bf_pool := pool', bf_readers := ?rs[i := r']\<rparr>) ! k)) = {}"
      using I(3) [of j k] hd(1) [of j] hd(1) [of k] by (cases "j = i"; cases "k = i") (simp_all add: Int_commute)
    show "sl_addr ` copies (rd_at (bf_readers (s\<lparr>bf_mem := a', bf_pool := pool', bf_readers := ?rs[i := r']\<rparr>) ! j)) \<inter>
        held (rd_at (bf_readers (s\<lparr>bf_mem := a', bf_pool := pool', bf_readers := ?rs[i := r']\<rparr>) ! k)) = {}"
      using jk I(4) [of j k] hd(2) [of j] hd(3) [of k] self by (cases "j = i"; cases "k = i") simp_all
  qed
qed

text \<open>Every step keeps the invariant.\<close>

lemma buf_step_inv:
  assumes "buf_step s s'" "buf_inv s"
  shows "buf_inv s'"
proof -
  have ok: "reader_ok (bf_mem s) (bf_pool s) (bf_readers s ! i)" if "i < length (bf_readers s)" for i
    using assms(2) that by (simp add: buf_inv_def)
  have apart: "sl_addr ` copies (rd_at (bf_readers s ! i)) \<inter> held (rd_at (bf_readers s ! i)) = {}" if "i < length (bf_readers s)" for i
    using assms(2) that by (simp add: buf_inv_def)
  from assms(1) show ?thesis
  proof cases
    case (call accept ds fin)
    have "reader_ok (bf_mem s) (bf_pool s) (new_reader accept ds fin)" by (simp add: reader_ok_def new_reader_def)
    then show ?thesis using assms(2) unfolding call buf_inv_def
      by (simp add: nth_append new_reader_def less_Suc_eq)
  next
    case (get_pooled i b)
    then have "buffer_ok (bf_mem s) b" using assms(2) by (simp add: buf_inv_def)
    then have "reader_ok (bf_mem s) (bf_pool s - {b}) ((bf_readers s ! i)\<lparr>rd_at := Reading b\<rparr>)"
      using ok [OF get_pooled(2)] get_pooled(3) by (simp add: reader_ok_def wanted_def)
    moreover have "own_step Borrowing (bf_mem s) (bf_pool s) (Reading b) (bf_mem s) (bf_pool s - {b})"
      using get_pooled(4) by (simp add: own_step_def)
    ultimately show ?thesis using inv_update [OF assms(2) get_pooled(2), where a' = "bf_mem s"] get_pooled(3) unfolding get_pooled(1) move_def by simp
  next
    case (get_new i w a)
    then have "sl_addr w = ar_next (bf_mem s)" "a = (bf_mem s)\<lparr>ar_array := (ar_array (bf_mem s))(ar_next (bf_mem s) := replicate MaxMessageSize 0), ar_next := Suc (ar_next (bf_mem s))\<rparr>"
      by (auto simp: go_make_def alloc_def)
    moreover have "ar_next (bf_mem s) \<notin> bf_pool s" using assms(2) by (auto simp: buf_inv_def buffer_ok_def)
    ultimately have "reader_ok a (bf_pool s) ((bf_readers s ! i)\<lparr>rd_at := Reading (sl_addr w)\<rparr>)" "own_step Borrowing (bf_mem s) (bf_pool s) (Reading (sl_addr w)) a (bf_pool s)"
      using ok [OF get_new(2)] get_new(3) by (simp_all add: reader_ok_def wanted_def own_step_def buffer_ok_def)
    then show ?thesis using inv_update [OF assms(2) get_new(2), where pool' = "bf_pool s"] get_new(3) unfolding get_new(1) move_def by simp
  next
    case (read i r b d ds m)
    let ?a = "(bf_mem s)\<lparr>ar_array := (ar_array (bf_mem s))(b := write_at 0 m (ar_array (bf_mem s) b))\<rparr>"
    let ?r = "r\<lparr>rd_rest := ds, rd_at := Checking b (length m)\<rparr>"
    have o: "buffer_ok (bf_mem s) b" "b \<notin> bf_pool s" "first_wanted (rd_accept r) (d # ds) (rd_end r) = wanted r"
      using ok [OF read(2)] read(3,4,5) by (simp_all add: reader_ok_def)
    have l: "0 + 0 + length m \<le> length (ar_array (bf_mem s) b)" using o(1) read(6) by (simp add: buffer_ok_def)
    from write_at_laws [OF l] have w: "length (write_at 0 m (ar_array (bf_mem s) b)) = length (ar_array (bf_mem s) b)" "take (length m) (write_at 0 m (ar_array (bf_mem s) b)) = m" by simp_all
    have "reader_ok ?a (bf_pool s) ?r" using o w read(6) by (auto simp: reader_ok_def buffer_ok_def buffer_bytes_def wanted_def)
    moreover have "own_step (Reading b) (bf_mem s) (bf_pool s) (Checking b (length m)) ?a (bf_pool s)" using w(1) by (auto simp: own_step_def)
    ultimately show ?thesis using inv_update [OF assms(2) read(2), where pool' = "bf_pool s" and a' = ?a and r' = ?r] read(3,4) unfolding read(1) by simp
  next
    case (read_fails i b)
    let ?p = "Returned (Inl (Wrapf ''read: %w'' [] (rd_end (bf_readers s ! i)))) :: reading"
    have "reader_ok (bf_mem s) (insert b (bf_pool s)) ((bf_readers s ! i)\<lparr>rd_at := ?p\<rparr>)"
      using ok [OF read_fails(2)] read_fails(3,4) by (simp add: reader_ok_def wanted_def)
    moreover have "own_step (Reading b) (bf_mem s) (bf_pool s) ?p (bf_mem s) (insert b (bf_pool s))" by (auto simp: own_step_def)
    ultimately show ?thesis using inv_update [OF assms(2) read_fails(2), where a' = "bf_mem s"] read_fails(3) unfolding read_fails(1) move_def by simp
  next
    case (skip i b n)
    have "reader_ok (bf_mem s) (bf_pool s) ((bf_readers s ! i)\<lparr>rd_at := Reading b\<rparr>)"
      using ok [OF skip(2)] skip(3,4) by (auto simp: reader_ok_def wanted_def Let_def)
    moreover have "own_step (Checking b n) (bf_mem s) (bf_pool s) (Reading b) (bf_mem s) (bf_pool s)" by (auto simp: own_step_def)
    ultimately show ?thesis using inv_update [OF assms(2) skip(2), where a' = "bf_mem s" and pool' = "bf_pool s"] skip(3) unfolding skip(1) move_def by simp
  next
    case (copy i b n out a)
    have o: "buffer_ok (bf_mem s) b" "b \<notin> bf_pool s" using ok [OF copy(2)] copy(3) by (simp_all add: reader_ok_def)
    have c: "length (buffer_bytes (bf_mem s) b n) = n" "Inr (buffer_bytes (bf_mem s) b n) = wanted (bf_readers s ! i)"
      using ok [OF copy(2)] copy(3,4) by (auto simp: reader_ok_def Let_def)
    note A = alloc_laws [OF copy(5)]
    have fresh: "ar_next (bf_mem s) \<notin> bf_pool s" using assms(2) by (auto simp: buf_inv_def buffer_ok_def)
    have ba: "ar_array a b = ar_array (bf_mem s) b" using A(3) o(1) c(1) by (simp add: grown_def buffer_ok_def)
    have "reader_ok a (bf_pool s) ((bf_readers s ! i)\<lparr>rd_at := Leaving_with b out\<rparr>)"
      using A c o fresh ba by (auto simp: reader_ok_def wanted_def buffer_ok_def)
    moreover have "own_step (Checking b n) (bf_mem s) (bf_pool s) (Leaving_with b out) a (bf_pool s)"
      using A c(1) o(1) by (auto simp: own_step_def grown_def buffer_ok_def)
    ultimately show ?thesis using inv_update [OF assms(2) copy(2), where a' = a and pool' = "bf_pool s"] copy(3) unfolding copy(1) move_def by simp
  next
    case (put i b out)
    have "sl_addr out \<noteq> b" using apart [OF put(2)] put(3) by auto
    then have "reader_ok (bf_mem s) (insert b (bf_pool s)) ((bf_readers s ! i)\<lparr>rd_at := Returned (Inr out)\<rparr>)"
      using ok [OF put(2)] put(3) by (simp add: reader_ok_def wanted_def)
    moreover have "own_step (Leaving_with b out) (bf_mem s) (bf_pool s) (Returned (Inr out)) (bf_mem s) (insert b (bf_pool s))" by (auto simp: own_step_def)
    ultimately show ?thesis using inv_update [OF assms(2) put(2), where a' = "bf_mem s"] put(3) unfolding put(1) move_def by simp
  next
    case (forget b)
    then show ?thesis using assms(2) by (auto simp: buf_inv_def reader_ok_def)
  qed
qed

lemma buf_run_inv:
  assumes "buf_step\<^sup>*\<^sup>* no_buffers s"
  shows "buf_inv s"
  using assms
proof (induction rule: rtranclp_induct)
  case base
  show ?case by (simp add: buf_inv_def no_buffers_def)
next
  case (step s s')
  then show ?case using buf_step_inv by blast
qed

text \<open>One reader on its own, with one datagram to read.\<close>

lemma one_reader_run:
  "\<exists>s out. buf_step\<^sup>*\<^sup>* no_buffers s \<and> bf_readers s = [(new_reader (\<lambda>_. True) [d] fin)\<lparr>rd_rest := [], rd_at := Returned (Inr out)\<rparr>]"
proof -
  let ?r = "new_reader (\<lambda>_. True) [d] fin" and ?m = "take MaxMessageSize d"
  define s1 where "s1 = no_buffers\<lparr>bf_readers := [?r]\<rparr>"
  obtain w a where g: "go_make MaxMessageSize 0 (bf_mem s1) = (w, a)" by fastforce
  define s2 where "s2 = s1\<lparr>bf_mem := a, bf_readers := [?r\<lparr>rd_at := Reading (sl_addr w)\<rparr>]\<rparr>"
  define s3 where "s3 = s2\<lparr>bf_mem := (bf_mem s2)\<lparr>ar_array := (ar_array (bf_mem s2))(sl_addr w := write_at 0 ?m (ar_array (bf_mem s2) (sl_addr w)))\<rparr>,
    bf_readers := [?r\<lparr>rd_rest := [], rd_at := Checking (sl_addr w) (length ?m)\<rparr>]\<rparr>"
  obtain out a' where c: "alloc (buffer_bytes (bf_mem s3) (sl_addr w) (length ?m)) (length ?m) (bf_mem s3) = (out, a')" by fastforce
  define s4 where "s4 = s3\<lparr>bf_mem := a', bf_readers := [?r\<lparr>rd_rest := [], rd_at := Leaving_with (sl_addr w) out\<rparr>]\<rparr>"
  define s5 where "s5 = s4\<lparr>bf_pool := insert (sl_addr w) (bf_pool s4), bf_readers := [?r\<lparr>rd_rest := [], rd_at := Returned (Inr out)\<rparr>]\<rparr>"
  have "buf_step no_buffers s1" using buf_step.call [of no_buffers "\<lambda>_. True" "[d]" fin] by (simp add: s1_def no_buffers_def)
  moreover have "buf_step s1 s2" using buf_step.get_new [of 0 s1, OF _ _ g] by (simp add: s1_def s2_def new_reader_def move_def)
  moreover have "buf_step s2 s3" using buf_step.read [of 0 s2 _ "sl_addr w" d "[]" ?m] by (simp add: s2_def s3_def new_reader_def)
  moreover have "buf_step s3 s4" using buf_step.copy [of 0 s3, OF _ _ _ c] by (simp add: s3_def s4_def new_reader_def move_def)
  moreover have "buf_step s4 s5" using buf_step.put [of 0 s4 "sl_addr w" out] by (simp add: s4_def s5_def new_reader_def move_def)
  ultimately have "buf_step\<^sup>*\<^sup>* no_buffers s5" by (meson converse_rtranclp_into_rtranclp rtranclp.rtrancl_refl)
  then show ?thesis by (intro exI [of _ s5] exI [of _ out]) (simp add: s5_def)
qed

section \<open>Properties\<close>

text \<open>
  C32. Sharing receive buffers is invisible: however the goroutines interleave, and whatever has
  been read into the buffers since, the message a finished reader holds is the first datagram
  that reader could use, and an exchange holds exactly what \<open>read_udp\<close> says.
\<close>

theorem buffers_invisible:
  assumes "buf_step\<^sup>*\<^sup>* no_buffers s" "r \<in> set (bf_readers s)" "rd_at r = Returned res"
  shows "map_sum id (elems (bf_mem s)) res = first_wanted (rd_accept r) (rd_all r) (rd_end r) \<and>
    (\<forall>wantID. rd_accept r = wants_id wantID \<longrightarrow> map_sum id (elems (bf_mem s)) res = read_udp wantID (rd_all r) (rd_end r))"
proof -
  from assms(2) obtain i where "i < length (bf_readers s)" "r = bf_readers s ! i" by (metis in_set_conv_nth)
  then have "reader_ok (bf_mem s) (bf_pool s) r" using buf_run_inv [OF assms(1)] by (simp add: buf_inv_def)
  then have "on_course (bf_mem s) r (Returned res)" using assms(3) unfolding reader_ok_def by metis
  then have "map_sum id (elems (bf_mem s)) res = first_wanted (rd_accept r) (rd_all r) (rd_end r)" by (simp add: wanted_def)
  then show ?thesis by (simp add: first_wanted_id)
qed

theorem buffers_invisible_witness:
  "\<exists>s out. buf_step\<^sup>*\<^sup>* no_buffers s \<and> rd_at (bf_readers s ! 0) = Returned (Inr out) \<and> elems (bf_mem s) out = [1, 2, 3]"
proof -
  from one_reader_run [of "[1, 2, 3]" "Sentinel EOF"] obtain s out where s: "buf_step\<^sup>*\<^sup>* no_buffers s"
    "bf_readers s = [(new_reader (\<lambda>_. True) [[1, 2, 3]] (Sentinel EOF))\<lparr>rd_rest := [], rd_at := Returned (Inr out)\<rparr>]" by blast
  from buffers_invisible [OF s(1), of "bf_readers s ! 0" "Inr out"] s(2) have "elems (bf_mem s) out = [1, 2, 3]"
    by (simp add: new_reader_def MaxMessageSize_def)
  with s show ?thesis by (intro exI [of _ s] exI [of _ out]) simp
qed

end
