(* ===== verification/Testdns.thy ===== *)
theory Testdns
  imports Proxy
begin

text \<open>
  Package \<open>internal/testdns\<close>: the fake Pi-hole the tests of the repository talk to, and the
  network with such a server in it as an instance of the network parameter of \<open>Dnsclient\<close>.
  It shows that a probe, the wire format and the client fit together: a fake server is found
  alive exactly when it was told to look alive.
\<close>

section \<open>The server\<close>

record fake =
  fk_rcode :: "32 word"
  fk_answers :: "32 word"
  fk_drop :: bool
  fk_delay :: duration
  fk_queries :: int

text \<open>\<open>Start\<close>, as far as the state goes; an atomic starts at zero.\<close>

definition StartFake :: fake where
  "StartFake = \<lparr>fk_rcode = 0, fk_answers = 1, fk_drop = False, fk_delay = 0, fk_queries = 0\<rparr>"

definition SetRCode :: "rcode \<Rightarrow> fake \<Rightarrow> fake" where
  "SetRCode r s = s\<lparr>fk_rcode := ucast r\<rparr>"

definition SetAnswers :: "int \<Rightarrow> fake \<Rightarrow> fake" where
  "SetAnswers n s = s\<lparr>fk_answers := word_of_int n\<rparr>"

definition SetDrop :: "bool \<Rightarrow> fake \<Rightarrow> fake" where
  "SetDrop v s = s\<lparr>fk_drop := v\<rparr>"

definition SetDelay :: "duration \<Rightarrow> fake \<Rightarrow> fake" where
  "SetDelay d s = s\<lparr>fk_delay := d\<rparr>"

text \<open>\<open>respond\<close>: the reply, how long it was held, and the state.\<close>

definition respond :: "bytes \<Rightarrow> fake \<Rightarrow> bytes option \<times> duration \<times> fake" where
  "respond req s =
     (let s1 = s\<lparr>fk_queries := wrap64 (fk_queries s + 1)\<rparr>;
          held = max 0 (fk_delay s)
      in if fk_drop s then (None, held, s1)
         else case ErrorResponse req (ucast (fk_rcode s)) of
           None \<Rightarrow> (None, held, s1)
         | Some resp \<Rightarrow>
             (Some (if 0 < sint (fk_answers s) \<and> (ucast (fk_rcode s) :: rcode) = RCodeNoError
                    then set16 resp 6 (ucast (fk_answers s)) else resp), held, s1))"

text \<open>What the goroutine of one datagram of \<open>serveUDP\<close> sends back.\<close>

definition fake_udp :: "bytes \<Rightarrow> fake \<Rightarrow> bytes list \<times> duration \<times> fake" where
  "fake_udp req s =
     (case respond (take MaxMessageSize req) s of
        (None, held, s1) \<Rightarrow> ([], held, s1)
      | (Some resp, held, s1) \<Rightarrow> ([resp], held, s1))"

text \<open>
  One TCP connection of \<open>serveTCP\<close>, on the bytes a client sends before it closes: the bytes
  sent back, the time taken, the state. A read that comes up short ends it, as does a request
  without a reply.
\<close>

function fake_conn :: "bytes \<Rightarrow> fake \<Rightarrow> bytes \<times> duration \<times> fake" where
  "fake_conn input s =
     (if length input < 2 then ([], 0, s)
      else let n = unat (get16 input 0); rest = drop 2 input in
        if length rest < n then ([], 0, s)
        else case respond (take n rest) s of
          (None, held, s1) \<Rightarrow> ([], held, s1)
        | (Some resp, held, s1) \<Rightarrow>
            (case fake_conn (drop n rest) s1 of
               (out, t, s2) \<Rightarrow> (put16 (word_of_nat (length resp)) @ resp @ out, held + t, s2)))"
  by pat_completeness auto
termination
  by (relation "measure (length \<circ> fst)") auto

declare fake_conn.simps [simp del]

section \<open>A network with one fake server\<close>

text \<open>
  Loopback: nothing is lost, and a reply is there after the time the server holds it. What
  arrives after the deadline is not read.
\<close>

definition fake_net :: "fake \<Rightarrow> network" where
  "fake_net s k proto addr query timeout =
     (case fake_udp query s of (datagrams, held, _) \<Rightarrow>
      case fake_conn (put16 (word_of_nat (length query)) @ query) s of (stream, t, _) \<Rightarrow>
      \<lparr>ns_dial = None, ns_deadline = None, ns_write = None,
       ns_datagrams = (if held < timeout then datagrams else []), ns_stream = (if t < timeout then stream else []),
       ns_end = OpError ''read'' True (Sentinel DeadlineExceeded), ns_ctx = None, ns_rtt = held\<rparr>)"

section \<open>What the program sees of it\<close>

lemma respond_header:
  assumes "respond req s = (Some resp, held, s')"
  shows "\<exists>hdr rh. ParseHeader req = Inr hdr \<and> ParseHeader resp = Inr rh \<and> h_ID rh = h_ID hdr \<and> h_QR rh \<and>
    h_RCode rh = ucast (fk_rcode s) AND 0x0f \<and> length resp \<le> length req \<and>
    h_ANCount rh = (if 0 < sint (fk_answers s) \<and> (ucast (fk_rcode s) :: rcode) = RCodeNoError then ucast (fk_answers s) else 0)"
proof -
  from assms obtain r where r: "ErrorResponse req (ucast (fk_rcode s)) = Some r"
    and resp: "resp = (if 0 < sint (fk_answers s) \<and> (ucast (fk_rcode s) :: rcode) = RCodeNoError then set16 r 6 (ucast (fk_answers s)) else r)"
    by (auto simp: respond_def Let_def split: if_splits option.splits)
  from ErrorResponse_facts [OF r] obtain hdr where
    h: "ParseHeader req = Inr hdr" "\<not> h_QR hdr"
      "ParseHeader r = Inr \<lparr>h_ID = h_ID hdr, h_QR = True, h_Opcode = h_Opcode hdr, h_AA = False,
         h_TC = False, h_RD = h_RD hdr, h_RA = True, h_RCode = ucast (fk_rcode s) AND 0x0f,
         h_QDCount = (if h_QDCount hdr = 0 then 0 else 1), h_ANCount = 0, h_NSCount = 0, h_ARCount = 0\<rparr>" "length r \<le> length req"
    by blast
  have l: "12 \<le> length r" by (rule ParseHeader_Inr_length [OF h(3)])
  have "ParseHeader (set16 r 6 n) = Inr ((projr (ParseHeader r))\<lparr>h_ANCount := n\<rparr>)" for n
    using h(3) l by (simp add: ParseHeader_def HeaderLen_def Let_def wire_simps)
  then show ?thesis using h resp by auto
qed

lemma respond_built:
  assumes "BuildQuery txid name qtype = Inr query" "list_all plain_char name"
  shows "fst (respond query s) = None \<longleftrightarrow> fk_drop s" "fst (snd (respond query s)) = max 0 (fk_delay s)"
proof -
  from BuildQuery_facts [OF assms] obtain q where q: "ParseQuestion query = Inr q" "get16 query 2 = 0x0100" by blast
  then have "12 \<le> length query" by (auto simp: ParseQuestion_def dest: ParseHeader_Inr_length split: sum.splits)
  moreover have "\<not> bit (0x0100 :: u16) 15" by simp
  ultimately have "ErrorResponse query rc \<noteq> None" for rc using q by (simp add: ErrorResponse_None_iff)
  then obtain r where "ErrorResponse query (ucast (fk_rcode s)) = Some r" by blast
  then show "fst (respond query s) = None \<longleftrightarrow> fk_drop s" by (simp add: respond_def Let_def)
  show "fst (snd (respond query s)) = max 0 (fk_delay s)" by (simp add: respond_def Let_def split: option.splits)
qed

lemma fake_udp_short: "length query \<le> MaxMessageSize \<Longrightarrow> fake_udp query s =
    (case respond query s of (reply, held, s1) \<Rightarrow> (case reply of None \<Rightarrow> [] | Some resp \<Rightarrow> [resp], held, s1))"
  by (simp add: fake_udp_def split: prod.splits option.splits)

text \<open>What an exchange of a built query with the fake server gives.\<close>

lemma fake_exchange:
  assumes "BuildQuery txid name qtype = Inr query" "list_all plain_char name"
  shows "fst (Exchange (fake_net s) k ProtoUDP addr query timeout) = Inr resp \<longleftrightarrow> fst (respond query s) = Some resp \<and> max 0 (fk_delay s) < timeout"
proof -
  have l: "length query \<le> 271" using BuildQuery_facts [OF assms] by simp
  then have u: "length query \<le> MaxMessageSize" by (simp add: MaxMessageSize_def)
  show ?thesis
  proof (cases "fst (respond query s)")
    case None
    then show ?thesis
      by (auto simp: Exchange_def fake_net_def fake_udp_short [OF u] exchangeUDP_def ProtoUDP_def ProtoTCP_def Let_def split: prod.splits)
  next
    case (Some r)
    obtain s' where r: "respond query s = (Some r, max 0 (fk_delay s), s')" using Some respond_built(2) [OF assms, of s] by (cases "respond query s") auto
    from respond_header [OF r] obtain hdr rh where h: "ParseHeader query = Inr hdr" "ParseHeader r = Inr rh" "h_ID rh = h_ID hdr" "h_QR rh" "length r \<le> length query" by blast
    have m: "take MaxMessageSize r = r" using h(5) u by simp
    have i: "ID r = h_ID rh" "ID query = h_ID hdr" using ParseHeader_ID h(1,2) by auto
    have "ValidateResponse r (ID query) = None" using h i by (simp add: ValidateResponse_def)
    moreover have "HeaderLen \<le> length r" using ParseHeader_Inr_length [OF h(2)] by (simp add: HeaderLen_def)
    ultimately show ?thesis using m i h(3) Some
      by (auto simp: Exchange_def fake_net_def fake_udp_short [OF u] r exchangeUDP_def ProtoUDP_def ProtoTCP_def Let_def split: prod.splits)
  qed
qed

text \<open>Over TCP it gives the same.\<close>

lemma fake_conn_one:
  assumes "length query \<le> MaxMessageSize"
  shows "fake_conn (put16 (word_of_nat (length query)) @ query) s =
    (case respond query s of (reply, held, s1) \<Rightarrow>
       (case reply of None \<Rightarrow> [] | Some resp \<Rightarrow> put16 (word_of_nat (length resp)) @ resp, held, s1))"
proof -
  let ?w = "word_of_nat (length query) :: u16"
  have "unat ?w = length query" using assms by (simp add: unat_of_nat MaxMessageSize_def)
  moreover have "get16 (put16 ?w @ query) 0 = ?w" using get16_put16 [of "[]" ?w query] by simp
  moreover have "fake_conn [] s1 = ([], 0, s1)" for s1 by (simp add: fake_conn.simps)
  ultimately show ?thesis by (subst fake_conn.simps) (auto simp: Let_def split: prod.splits option.splits)
qed

lemma fake_exchange_tcp:
  assumes "BuildQuery txid name qtype = Inr query" "list_all plain_char name"
  shows "fst (Exchange (fake_net s) k ProtoTCP addr query timeout) = Inr resp \<longleftrightarrow>
    fst (Exchange (fake_net s) k ProtoUDP addr query timeout) = Inr resp"
proof -
  have q: "length query \<le> MaxMessageSize" using BuildQuery_facts [OF assms] by (simp add: MaxMessageSize_def)
  have empty: "ReadMessage [] fin = Inl fin" if "fin \<noteq> Sentinel EOF" for fin using that by (simp add: ReadMessage_def ReadFull_def)
  show ?thesis unfolding fake_exchange [OF assms]
  proof (cases "fst (respond query s)")
    case None
    then show "fst (Exchange (fake_net s) k ProtoTCP addr query timeout) = Inr resp \<longleftrightarrow> fst (respond query s) = Some resp \<and> max 0 (fk_delay s) < timeout"
      using q by (auto simp: Exchange_def fake_net_def fake_udp_short [OF q] exchangeTCP_def fake_conn_one empty Let_def split: prod.splits)
  next
    case (Some r)
    obtain s' where r: "respond query s = (Some r, max 0 (fk_delay s), s')" using Some respond_built(2) [OF assms, of s] by (cases "respond query s") auto
    from respond_header [OF r] obtain hdr rh where h: "ParseHeader query = Inr hdr" "ParseHeader r = Inr rh" "h_ID rh = h_ID hdr" "h_QR rh" "length r \<le> length query" by blast
    then have "ValidateResponse r (ID query) = None" using ParseHeader_ID by (simp add: ValidateResponse_def)
    moreover have "ReadMessage (put16 (word_of_nat (length r)) @ r) fin = Inr (r, [])" for fin
      using ReadMessage_frame [of r "[]" fin] ParseHeader_Inr_length [OF h(2)] h(5) q by fastforce
    ultimately show "fst (Exchange (fake_net s) k ProtoTCP addr query timeout) = Inr resp \<longleftrightarrow> fst (respond query s) = Some resp \<and> max 0 (fk_delay s) < timeout"
      using q by (simp add: Exchange_def fake_net_def fake_udp_short [OF q] exchangeTCP_def fake_conn_one r empty Let_def)
  qed
qed

text \<open>
  A fake server is found alive exactly when it answers in time, with a code other than
  SERVFAIL, REFUSED and NOTIMP, and with answers if the probe asks for some.
\<close>

lemma probe_of_fake:
  assumes "en_exch en = Exchange (fake_net s)"
    and "BuildQuery txid (pr_Name (hc_Probe (c_Health cfg))) (pr_qtype (hc_Probe (c_Health cfg))) = Inr query"
    and "list_all plain_char (pr_Name (hc_Probe (c_Health cfg)))"
  shows "snd (probe en cfg txid addr k) = None \<longleftrightarrow>
    \<not> fk_drop s \<and> max 0 (fk_delay s) < hc_Timeout (c_Health cfg) \<and>
    ucast (fk_rcode s) AND 0x0f \<notin> {RCodeServFail, RCodeRefused, RCodeNotImp} \<and>
    (pr_RequireAnswer (hc_Probe (c_Health cfg)) \<longrightarrow>
       0 < sint (fk_answers s) \<and> (ucast (fk_rcode s) :: rcode) = RCodeNoError \<and> (ucast (fk_answers s) :: u16) \<noteq> 0)"
proof (cases "fst (respond query s)")
  case None
  then have d: "fk_drop s" using respond_built(1) [OF assms(2,3)] by blast
  have "fst (Exchange (fake_net s) k ProtoUDP addr query (hc_Timeout (c_Health cfg))) \<noteq> Inr resp" for resp
    using fake_exchange [OF assms(2,3)] None by simp
  then show ?thesis using d probe_alive_iff [OF assms(1,2)] by (metis fst_conv)
next
  case (Some resp)
  then have d: "\<not> fk_drop s" using respond_built(1) [OF assms(2,3), of s] by simp
  obtain held s' where r: "respond query s = (Some resp, held, s')" using Some by (cases "respond query s") auto
  from respond_header [OF r] obtain hdr rh where h: "ParseHeader query = Inr hdr" "ParseHeader resp = Inr rh" "h_ID rh = h_ID hdr" "h_QR rh"
    "h_RCode rh = ucast (fk_rcode s) AND 0x0f"
    "h_ANCount rh = (if 0 < sint (fk_answers s) \<and> (ucast (fk_rcode s) :: rcode) = RCodeNoError then ucast (fk_answers s) else 0)" by blast
  have i: "ID query = h_ID hdr" using ParseHeader_ID h(1) by simp
  have x: "(\<exists>rtt. Exchange (fake_net s) k ProtoUDP addr query (hc_Timeout (c_Health cfg)) = (Inr resp', rtt)) \<longleftrightarrow>
      resp' = resp \<and> max 0 (fk_delay s) < hc_Timeout (c_Health cfg)" for resp'
    using fake_exchange [OF assms(2,3), where resp = resp' and s = s] Some by (metis eq_fst_iff option.inject)
  have "snd (probe en cfg txid addr k) = None \<longleftrightarrow> max 0 (fk_delay s) < hc_Timeout (c_Health cfg) \<and>
      h_RCode rh \<notin> {RCodeServFail, RCodeRefused, RCodeNotImp} \<and> \<not> (pr_RequireAnswer (hc_Probe (c_Health cfg)) \<and> h_ANCount rh = 0)"
    unfolding probe_alive_iff [OF assms(1,2)] using x h i by (metis Inr_inject)
  then show ?thesis using d unfolding h(5,6) by auto
qed

end
