(* ===== verification/Spec2Isabelle.thy ===== *)
theory Spec2Isabelle
  imports Interleave Lifecycle Durations Aliasing Buffers Testdns
begin

text \<open>
  Verification of hole-balancer, a DNS forwarder that spreads queries over a set of Pi-holes,
  routes around the ones that do not answer, and as a last resort asks public resolvers. The
  program is a single Go process; all of its packages but the embedded web page and the
  artwork are modelled here.

  \<^bold>\<open>The parts and how they meet.\<close> A client's datagram or TCP frame reaches a listener
  (\<open>internal/proxy/listen.go\<close>), which takes a token of the concurrency limit and calls
  \<open>Resolve\<close> (\<open>internal/proxy/proxy.go\<close>). That asks the pool (\<open>internal/pool\<close>) for a plan,
  tries the endpoints of the plan through the DNS client (\<open>internal/dnsclient\<close>) and the wire
  format (\<open>internal/dnsmsg\<close>), reports every outcome back to the pool, goes to the public
  resolvers (\<open>internal/fallback\<close>) if all attempts failed, and files the query with the
  statistics (\<open>internal/stats\<close>) and the counters (\<open>internal/metrics\<close>). The health checker
  (\<open>internal/health\<close>) probes every endpoint on an interval. The management interface
  (\<open>internal/admin\<close>) shows all of this and changes it through the manager
  (\<open>internal/control\<close>), which applies a change to the running parts and then saves the
  configuration (\<open>internal/config\<close>). \<open>cmd/hole-balancer\<close> builds and starts the parts.

  \<^bold>\<open>The theories\<close>, in the order in which they build on each other:

  \<^item> \<^verbatim>\<open>Prelude\<close>: the machine types, big-endian fields, 64-bit wrap-around, and the locales
    \<open>invariant_machine\<close> (a step and an invariant it keeps) and \<open>tally\<close> (counters under keys).
  \<^item> \<^verbatim>\<open>GoStd\<close>, \<^verbatim>\<open>GoFloat\<close>, \<^verbatim>\<open>GoMap\<close>, \<^verbatim>\<open>GoSlice\<close>: what the program uses of Go and its standard
    library: error chains, string helpers, host and port splitting, random draws, float64
    rounding, maps, and slices as windows on shared arrays.
  \<^item> \<^verbatim>\<open>Dnsmsg\<close> (\<open>dnsmsg.go\<close>): reading stays inside the message, a built query parses back, an
    error response has the id, the question and the code it must have, and exactly which
    requests get none.
  \<^item> \<^verbatim>\<open>Dnsclient\<close> (\<open>dnsclient.go\<close>): the first datagram that answers wins whatever came before;
    framing round trip. Its locale \<open>transport\<close> is what the layers above rely on (a response
    that is returned answers the query), interpreted on \<open>Exchange\<close>.
  \<^item> \<^verbatim>\<open>Buffers\<close> (\<open>dnsclient.go\<close>, \<open>listen.go\<close>): the pool of receive buffers, with goroutines that
    interleave over one memory; what a reader returns is and stays what \<open>read_udp\<close> says.
  \<^item> \<^verbatim>\<open>Config\<close>, \<^verbatim>\<open>Persist\<close> (\<open>config.go\<close>): what a validated configuration satisfies; saving over
    a file system with crashes: the old file or the complete new one survives, and what was
    saved loads back.
  \<^item> \<^verbatim>\<open>Durations\<close> (\<open>config.go\<close>): the text form of durations, over models of \<open>time.ParseDuration\<close>,
    \<open>time.Duration.String\<close> and \<open>strconv.ParseFloat\<close>; every duration is read as it was written.
  \<^item> \<^verbatim>\<open>Pool\<close>, \<^verbatim>\<open>Pool_Plan\<close>, \<^verbatim>\<open>Pool_Health\<close> (\<open>pool.go\<close>): the pool as an explicit heap of endpoints
    and upstreams; plans (every path once, in tiers, ordered by the strategy; the locale
    \<open>selection\<close> is interpreted on \<open>orderLocked\<close>), the verdict on health as a refinement of a
    specification over the history of outcomes, membership as a refinement of lists.
  \<^item> \<^verbatim>\<open>Metrics\<close>, \<^verbatim>\<open>Stats\<close> (\<open>metrics.go\<close>, \<open>stats.go\<close>): nothing is lost and nothing counted twice;
    the ring buffers show exactly the queries of each period.
  \<^item> \<^verbatim>\<open>Fallback\<close> (\<open>fallback.go\<close>): the rotation over the public resolvers and the accounting of
    outages across reporting windows, against a stop watch as specification.
  \<^item> \<^verbatim>\<open>Wiring\<close>, \<^verbatim>\<open>Health\<close> (\<open>main.go\<close>, \<open>health.go\<close>): the shared state \<open>system\<close>, the callbacks
    that connect the parts, probes and sweeps; a path that answers is back in rotation after
    \<open>rise\<close> sweeps.
  \<^item> \<^verbatim>\<open>Proxy\<close>, \<^verbatim>\<open>Listen\<close> (\<open>proxy.go\<close>, \<open>listen.go\<close>): one query from its first byte to its reply,
    refining the order Pi-hole, public resolver, last error, SERVFAIL; the TCP connection as a
    recursive function over its stream, the UDP listener as an inductive step relation.
  \<^item> \<^verbatim>\<open>Control\<close> (\<open>control.go\<close>): every management operation with its rollback; a request takes
    effect as asked or is taken back, and what was reported as done survives a restart.
  \<^item> \<^verbatim>\<open>Aliasing\<close> (\<open>config.go\<close>, \<open>control.go\<close>): \<open>Clone\<close> and the manager's edits over an explicit
    store of arrays; the clone shares nothing, and the edits refine the values of \<open>Control\<close>.
  \<^item> \<^verbatim>\<open>Admin\<close> (\<open>admin.go\<close>, \<open>api.go\<close>): the route table and every handler; reads change nothing,
    an error status means nothing was changed, no metric series appears twice.
  \<^item> \<^verbatim>\<open>Program\<close> (\<open>main.go\<close>): flags, start and stop, and the whole program as a machine over
    queries, sweeps, reports and HTTP requests in any order: it does not panic within
    \<open>2 ^ 63\<close> events and answers every readable question.
  \<^item> \<^verbatim>\<open>Lifecycle\<close> (\<open>main.go\<close>): the goroutines of \<open>run\<close> under one context as a step relation; the
    process ends in a bounded number of steps after its first failure, which it reports.
  \<^item> \<^verbatim>\<open>Interleave\<close> (\<open>proxy.go\<close>, \<open>fallback.go\<close>): the goroutine of a query cut into the turns
    between which others may run. Turn after turn it is \<open>Resolve\<close>; interleaved with anything
    it ends after a bounded number of turns, without a panic and with a reply of its own.
  \<^item> \<^verbatim>\<open>Testdns\<close> (\<open>testdns.go\<close>): the fake Pi-hole of the repository's tests as an instance of the
    network parameter; a probe finds it alive exactly when it was told to look alive.

  \<^bold>\<open>Modelling decisions.\<close> Pointers that outlive the lists they came from (endpoints,
  upstreams) live in a heap inside \<open>pool\<close>; all other structs are records. Errors are values
  of \<open>goerr\<close> with their format and arguments, not their rendered text. A panic is the value
  \<open>None\<close>. Counters are \<open>64 word\<close>s and wrap; instants and durations are integers of
  nanoseconds, wrapped only where the code does arithmetic on measured latencies. Floats are
  rationals rounded to 53 bits after every operation, with no fused multiply-add. The network
  is the function \<open>en_exch\<close> from the number of exchanges made so far to what the next one
  does, and the clock advances with exchanges only; the proofs hold for every such function.
  The locks of the code make its operations steps, so concurrency is an arbitrary order of
  steps: a query is one step in \<open>Program\<close> and many in \<open>Interleave\<close>, while \<open>udp_step\<close> separates
  taking the token from finishing. Slices are lists except in \<open>Aliasing\<close> and \<open>Buffers\<close>, which
  show for the two places where arrays are shared that nobody can tell. Files are contents, mode and a synced flag; a crash may lose what was not synced.
  Random draws are an argument.

  \<^bold>\<open>Bounds and termination.\<close> No fuel is used; the number of turns in \<open>Interleave\<close> is a length,
  and \<open>2 * max_attempts + n + 8\<close> of them are enough with \<open>n\<close> public resolvers. Every recursion is structural or has a measure
  (the offset in a message, the bytes left of a stream). The bound \<open>2 ^ 63\<close> on events is real:
  beyond it the round robin counters convert to negative indices.

  \<^bold>\<open>Parameters.\<close> The YAML encoder and decoder (\<open>marshal\<close>, \<open>decode\<close>), the HTTP client of the
  health check, what sockets and system calls do, how much \<open>append\<close> over-allocates, what a
  float outside the range of \<open>int64\<close> converts to. Theorems that need something of them name
  it as a hypothesis and have a witness with a concrete function.

  \<^bold>\<open>Not modelled.\<close> The embedded page and artwork (\<open>admin/ui.go\<close>, \<open>assets\<close>: constant bytes);
  served by \<open>http.ServeContent\<close>); the text forms of the JSON and YAML documents (libraries);
  log lines.

  \<^bold>\<open>What the proofs turned up.\<close> Some lemmas state behaviour that is probably not meant:
  \<open>parseName_accepts_256\<close>, \<open>PrepareUpstream_unloadable\<close>, \<open>round_robin_panics\<close>,
  \<open>half_hour_zone_loses\<close>, \<open>failed_remove_reorders\<close>,
  \<open>enable_fallback_unloadable\<close>, \<open>accept_error_unreported\<close>, \<open>disabled_summary_panics\<close>,
  \<open>public_dns_despite_pihole\<close> and \<open>huge_seconds_unchecked\<close>.
\<close>

end
